(* ===== verification/Suil_Prelude.thy ===== *)
theory Suil_Prelude
  imports Main "HOL-Library.Word"
begin

text \<open>
  Shared base of the development: bytes and C characters, the exception classes of
  \<open>suil::Exception\<close> as an error datatype, the result type of fallible operations,
  the C library functions the sources call (character classes, \<open>strcspn\<close>,
  \<open>strncmp\<close>, \<open>strchr\<close>), and the interfaces (locales) the components are
  stated against: codecs, self-delimiting codecs and byte sinks.
\<close>

unbundle bit_operations_syntax

named_theorems suil_simps \<open>rewriting rules of the C library layer\<close>

section \<open>Bytes, characters, machine sizes\<close>

type_synonym byte = "8 word"
type_synonym bytes = "byte list"

abbreviation ord :: "char \<Rightarrow> nat" where
  "ord c \<equiv> of_char c"

abbreviation NUL :: char where
  "NUL \<equiv> CHR 0x00"

definition byte_of_char :: "char \<Rightarrow> byte" where
  "byte_of_char c = of_nat (ord c)"

definition char_of_byte :: "byte \<Rightarrow> char" where
  "char_of_byte b = char_of (unat b)"

lemma ord_less_256 [simp]: "ord c < 256"
  using range_nat_of_char by auto

lemma unat_byte_of_char [simp]: "unat (byte_of_char c) = ord c"
  by (simp add: byte_of_char_def unat_of_nat take_bit_eq_mod)

lemma char_of_byte_of_char [simp]: "char_of_byte (byte_of_char c) = c"
  by (simp add: char_of_byte_def)

lemma unat_byte_less: "unat (b :: byte) < 256"
  using unsigned_less [of b] by simp

lemma ord_char_of_byte [simp]: "ord (char_of_byte b) = unat b"
  using unat_byte_less [of b] by (simp add: char_of_byte_def of_char_of)

lemma byte_of_char_of_byte [simp]: "byte_of_char (char_of_byte b) = b"
  by (simp add: byte_of_char_def)

text \<open>A statement about one byte or one character can be checked on all 256 of them.\<close>

lemma all_bytes: "list_all (\<lambda>n. P (of_nat n)) [0..<256] \<Longrightarrow> P (b :: byte)"
proof -
  assume "list_all (\<lambda>n. P (of_nat n)) [0..<256]"
  moreover have "unat b \<in> set [0..<256]" using unat_byte_less [of b] by simp
  ultimately have "P (of_nat (unat b))" by (simp only: list_all_iff)
  then show "P b" by simp
qed

lemma all_chars: "list_all (\<lambda>n. P (char_of n)) [0..<256] \<Longrightarrow> P c"
proof -
  assume "list_all (\<lambda>n. P (char_of n)) [0..<256]"
  moreover have "ord c \<in> set [0..<256]" using ord_less_256 [of c] by simp
  ultimately have "P (char_of (ord c))" by (simp only: list_all_iff)
  then show "P c" by simp
qed

definition bytes_of_string :: "string \<Rightarrow> bytes" where
  "bytes_of_string = map byte_of_char"

definition string_of_bytes :: "bytes \<Rightarrow> string" where
  "string_of_bytes = map char_of_byte"

lemma string_of_bytes_of_string [simp]: "string_of_bytes (bytes_of_string s) = s"
  by (induction s) (simp_all add: string_of_bytes_def bytes_of_string_def)

lemma bytes_of_string_of_bytes [simp]: "bytes_of_string (string_of_bytes b) = b"
  by (induction b) (simp_all add: string_of_bytes_def bytes_of_string_def)

text \<open>\<open>size_t\<close> and \<open>uint32_t\<close> are read as numbers; where the code's result can
  leave their range the truncation is written out.\<close>

definition u32 :: "nat \<Rightarrow> nat" where
  "u32 n = n mod 2 ^ 32"

definition sub32 :: "nat \<Rightarrow> nat \<Rightarrow> nat" where
  "sub32 a b = nat ((int a - int b) mod 2 ^ 32)"

definition sub64 :: "nat \<Rightarrow> nat \<Rightarrow> nat" where
  "sub64 a b = nat ((int a - int b) mod 2 ^ 64)"

lemma u32_id [simp]: "n < 2 ^ 32 \<Longrightarrow> u32 n = n"
  by (simp add: u32_def)

lemma u32_less [simp]: "u32 n < 2 ^ 32"
  by (simp add: u32_def)

text \<open>The conversion of a \<open>size_t\<close> to an \<open>int\<close>.\<close>

definition int32 :: "nat \<Rightarrow> int" where
  "int32 n = (if u32 n < 2 ^ 31 then int (u32 n) else int (u32 n) - 2 ^ 32)"

lemma int32_small: "n < 2 ^ 31 \<Longrightarrow> int32 n = int n"
  by (simp add: int32_def u32_def)

lemma int32_large: "2 ^ 31 \<le> n \<Longrightarrow> n < 2 ^ 32 \<Longrightarrow> int32 n < 0"
  by (simp add: int32_def u32_def)

lemma sub32_le [simp]: "b \<le> a \<Longrightarrow> a < 2 ^ 32 \<Longrightarrow> sub32 a b = a - b"
  by (simp add: sub32_def nat_diff_distrib mod_pos_pos_trivial of_nat_diff [symmetric] del: of_nat_diff)

lemma sub64_le [simp]: "b \<le> a \<Longrightarrow> a < 2 ^ 64 \<Longrightarrow> sub64 a b = a - b"
  by (simp add: sub64_def of_nat_diff [symmetric] del: of_nat_diff)

section \<open>Exceptions and results\<close>

datatype exn =
    OutOfRange
  | InvalidArguments
  | IndexOutOfBounds
  | UnsupportedOperation
  | AccessViolation
  | MemoryAllocationFailure
  | BufferOutOfMemory
  | MustacheParseError
  | RuntimeError
  | HttpError nat
  | LengthError
  | OutOfBoundsWrite \<comment> \<open>the code writes past the memory it was given: undefined behaviour\<close>
  | OutOfBoundsRead \<comment> \<open>the code reads past the memory it was given: undefined behaviour\<close>
  | StackExhausted \<comment> \<open>a recursion that never ends\<close>
  | AssertionFailure \<comment> \<open>an \<open>assert\<close> of the code fails: the program aborts\<close>
  | IntegerOverflow \<comment> \<open>a signed integer of the code overflows: undefined behaviour\<close>
  | NullDereference \<comment> \<open>the code follows a null pointer: undefined behaviour\<close>
  | UseAfterFree \<comment> \<open>the code reads memory that was given back: undefined behaviour\<close>
  | RedisDbError

type_synonym 'a result = "exn + 'a"

definition rbind :: "'a result \<Rightarrow> ('a \<Rightarrow> 'b result) \<Rightarrow> 'b result" where
  "rbind m f = (case m of Inl e \<Rightarrow> Inl e | Inr x \<Rightarrow> f x)"

lemma rbind_simps [simp]:
  "rbind (Inl e) f = Inl e"
  "rbind (Inr x) f = f x"
  by (simp_all add: rbind_def)

lemma rbind_Inr_iff: "rbind m f = Inr y \<longleftrightarrow> (\<exists>x. m = Inr x \<and> f x = Inr y)"
  by (cases m) simp_all

lemma rbind_Inl_iff: "rbind m f = Inl e \<longleftrightarrow> m = Inl e \<or> (\<exists>x. m = Inr x \<and> f x = Inl e)"
  by (cases m) simp_all

definition is_ok :: "'a result \<Rightarrow> bool" where
  "is_ok r = (case r of Inl _ \<Rightarrow> False | Inr _ \<Rightarrow> True)"

lemma is_ok_simps [simp]: "is_ok (Inr x)" "\<not> is_ok (Inl e)"
  by (simp_all add: is_ok_def)

lemma is_ok_iff: "is_ok r \<longleftrightarrow> (\<exists>x. r = Inr x)"
  by (cases r) simp_all

fun mapM :: "('a \<Rightarrow> 'b result) \<Rightarrow> 'a list \<Rightarrow> 'b list result" where
  "mapM f [] = Inr []"
| "mapM f (x # xs) = rbind (f x) (\<lambda>y. rbind (mapM f xs) (\<lambda>ys. Inr (y # ys)))"

lemma mapM_Inr: "(\<And>x. x \<in> set xs \<Longrightarrow> f x = Inr (g x)) \<Longrightarrow> mapM f xs = Inr (map g xs)"
  by (induction xs) simp_all

lemma mapM_Inr_length: "mapM f xs = Inr ys \<Longrightarrow> length ys = length xs"
  by (induction xs arbitrary: ys) (auto simp: rbind_Inr_iff)

section \<open>The C library\<close>

definition is_digit :: "char \<Rightarrow> bool" where
  "is_digit c \<longleftrightarrow> 48 \<le> ord c \<and> ord c \<le> 57"

definition is_upper :: "char \<Rightarrow> bool" where
  "is_upper c \<longleftrightarrow> 65 \<le> ord c \<and> ord c \<le> 90"

definition is_lower :: "char \<Rightarrow> bool" where
  "is_lower c \<longleftrightarrow> 97 \<le> ord c \<and> ord c \<le> 122"

definition is_alpha :: "char \<Rightarrow> bool" where
  "is_alpha c \<longleftrightarrow> is_upper c \<or> is_lower c"

definition is_alnum :: "char \<Rightarrow> bool" where
  "is_alnum c \<longleftrightarrow> is_alpha c \<or> is_digit c"

definition is_xdigit :: "char \<Rightarrow> bool" where
  "is_xdigit c \<longleftrightarrow> is_digit c \<or> (97 \<le> ord c \<and> ord c \<le> 102) \<or> (65 \<le> ord c \<and> ord c \<le> 70)"

definition is_space :: "char \<Rightarrow> bool" where
  "is_space c \<longleftrightarrow> ord c = 32 \<or> (9 \<le> ord c \<and> ord c \<le> 13)"

definition to_upper :: "char \<Rightarrow> char" where
  "to_upper c = (if is_lower c then char_of (ord c - 32) else c)"

definition to_lower :: "char \<Rightarrow> char" where
  "to_lower c = (if is_upper c then char_of (ord c + 32) else c)"

lemmas char_class_defs =
  is_digit_def is_upper_def is_lower_def is_alpha_def is_alnum_def is_xdigit_def is_space_def

lemma ord_to_upper: "ord (to_upper c) = (if is_lower c then ord c - 32 else ord c)"
  by (auto simp: to_upper_def is_lower_def of_char_of)

lemma ord_to_lower: "ord (to_lower c) = (if is_upper c then ord c + 32 else ord c)"
  by (auto simp: to_lower_def is_upper_def of_char_of)

lemma ord_inj: "ord c = ord d \<Longrightarrow> c = d"
  by (metis of_char_eq_iff)

lemma to_upper_idem [simp]: "to_upper (to_upper c) = to_upper c"
  by (rule ord_inj) (auto simp: ord_to_upper is_lower_def)

lemma to_upper_to_lower [simp]: "to_upper (to_lower c) = to_upper c"
  by (rule ord_inj) (auto simp: ord_to_upper ord_to_lower is_lower_def is_upper_def)

text \<open>A C string is the list of its characters without the terminator; reading at the end
  of the list reads the terminator.\<close>

definition cur :: "string \<Rightarrow> char" where
  "cur s = (case s of [] \<Rightarrow> NUL | c # _ \<Rightarrow> c)"

lemma cur_simps [simp]: "cur [] = NUL" "cur (c # s) = c"
  by (simp_all add: cur_def)

lemma cur_append: "s \<noteq> [] \<Longrightarrow> cur (s @ t) = cur s"
  by (cases s) simp_all

definition c_str :: "string \<Rightarrow> string" where
  "c_str s = takeWhile (\<lambda>c. c \<noteq> NUL) s"

lemma c_str_id: "NUL \<notin> set s \<Longrightarrow> c_str s = s"
  by (auto simp: c_str_def takeWhile_eq_all_conv)

fun strcspn :: "string \<Rightarrow> string \<Rightarrow> nat" where
  "strcspn [] rej = 0"
| "strcspn (c # s) rej = (if c = NUL \<or> c \<in> set rej then 0 else Suc (strcspn s rej))"

lemma strcspn_le: "strcspn s rej \<le> length s"
  by (induction s) auto

fun strncmp_eq :: "string \<Rightarrow> string \<Rightarrow> nat \<Rightarrow> bool" where
  "strncmp_eq s t 0 = True"
| "strncmp_eq s t (Suc n) =
     (if cur s \<noteq> cur t then False
      else if cur s = NUL then True
      else strncmp_eq (tl s) (tl t) n)"

text \<open>\<open>strncmp (s, t, n) == 0\<close>: the first \<open>n\<close> characters agree, or both strings end.\<close>

lemma strncmp_eq_prefix:
  "NUL \<notin> set p \<Longrightarrow> strncmp_eq s p (length p) \<longleftrightarrow> take (length p) s = p"
proof (induction p arbitrary: s)
  case Nil
  then show ?case by simp
next
  case (Cons c p)
  then show ?case by (cases s) auto
qed

fun strncasecmp_eq :: "string \<Rightarrow> string \<Rightarrow> nat \<Rightarrow> bool" where
  "strncasecmp_eq s t 0 = True"
| "strncasecmp_eq s t (Suc n) =
     (if to_lower (cur s) \<noteq> to_lower (cur t) then False
      else if cur s = NUL then True
      else strncasecmp_eq (tl s) (tl t) n)"

section \<open>Interfaces\<close>

text \<open>A codec: a decoder that undoes an encoder on the values of interest. Clients use that
  such an encoder is injective.\<close>

locale codec =
  fixes enc :: "'a \<Rightarrow> 'b"
    and dec :: "'b \<Rightarrow> 'a result"
    and dom_ok :: "'a \<Rightarrow> bool"
  assumes dec_enc: "dom_ok x \<Longrightarrow> dec (enc x) = Inr x"
begin

lemma enc_inj: "dom_ok x \<Longrightarrow> dom_ok y \<Longrightarrow> enc x = enc y \<Longrightarrow> x = y"
  by (metis dec_enc Inr_inject)

lemma enc_eq_iff: "dom_ok x \<Longrightarrow> dom_ok y \<Longrightarrow> enc x = enc y \<longleftrightarrow> x = y"
  using enc_inj by blast

end

text \<open>A self-delimiting codec: from a source \<open>left\<close> of whose bytes begins with an encoding, the decoder
  takes exactly that encoding and leaves what follows. An encoding is read in one way only, and
  sequences of encoded values decode element by element.\<close>

fun get_n :: "('s \<Rightarrow> ('a \<times> 's) result) \<Rightarrow> nat \<Rightarrow> 's \<Rightarrow> ('a list \<times> 's) result" where
  "get_n get 0 s = Inr ([], s)"
| "get_n get (Suc n) s =
     rbind (get s) (\<lambda>(x, s1). rbind (get_n get n s1) (\<lambda>(xs, s2). Inr (x # xs, s2)))"

locale prefix_codec =
  fixes enc :: "'a \<Rightarrow> bytes"
    and get :: "'s \<Rightarrow> ('a \<times> 's) result"
    and left :: "'s \<Rightarrow> bytes"
    and inv :: "'s \<Rightarrow> bool"
    and ok :: "'a \<Rightarrow> bool"
  assumes get_enc: "ok x \<Longrightarrow> inv s \<Longrightarrow> left s = enc x @ rest \<Longrightarrow> \<exists>s'. get s = Inr (x, s') \<and> inv s' \<and> left s' = rest"
begin

lemma enc_unique:
  assumes "ok x" "ok y" "inv s" "left s = enc x @ r" "left s = enc y @ t"
  shows "x = y \<and> r = t"
  using get_enc [OF assms(1,3,4)] get_enc [OF assms(2,3,5)] by auto

lemma get_then_get:
  assumes "ok x" "ok y" "inv s" "left s = enc x @ enc y @ rest"
  shows "\<exists>s'. rbind (get s) (\<lambda>(u, s1). rbind (get s1) (\<lambda>(v, s2). Inr ((u, v), s2))) = Inr ((x, y), s')
    \<and> inv s' \<and> left s' = rest"
  using get_enc [OF assms(1,3,4)] get_enc [OF assms(2)] by fastforce

lemma get_n_enc:
  "list_all ok xs \<Longrightarrow> inv s \<Longrightarrow> left s = concat (map enc xs) @ rest \<Longrightarrow>
    \<exists>s'. get_n get (length xs) s = Inr (xs, s') \<and> inv s' \<and> left s' = rest"
proof (induction xs arbitrary: s)
  case (Cons x xs)
  then obtain s1 where "get s = Inr (x, s1)" "inv s1" "left s1 = concat (map enc xs) @ rest"
    using get_enc [of x s "concat (map enc xs) @ rest"] by auto
  with Cons.IH [of s1] Cons.prems(1) show ?case by auto
qed simp

end

text \<open>A byte sink: an object that bytes are appended to (a \<open>Buffer\<close>, a
  \<open>Breadboard\<close>). \<open>written\<close> is what it holds.\<close>

locale byte_sink =
  fixes put :: "'s \<Rightarrow> bytes \<Rightarrow> 's result"
    and written :: "'s \<Rightarrow> bytes"
    and room :: "'s \<Rightarrow> nat"
    and inv :: "'s \<Rightarrow> bool"
  assumes put_fits: "inv s \<Longrightarrow> length bs \<le> room s \<Longrightarrow>
      \<exists>s'. put s bs = Inr s' \<and> inv s' \<and> written s' = written s @ bs \<and> room s' = room s - length bs"
begin

lemma put_put:
  assumes "inv s" and "length xs + length ys \<le> room s"
  shows "\<exists>s'. rbind (put s xs) (\<lambda>s1. put s1 ys) = Inr s' \<and> inv s' \<and> written s' = written s @ xs @ ys
           \<and> room s' = room s - (length xs + length ys)"
proof -
  from assms obtain s1 where s1: "put s xs = Inr s1" "inv s1" "written s1 = written s @ xs"
      "room s1 = room s - length xs"
    using put_fits [of s xs] by auto
  with assms(2) obtain s2 where "put s1 ys = Inr s2" "inv s2" "written s2 = written s1 @ ys"
      "room s2 = room s1 - length ys"
    using put_fits [of s1 ys] by (metis add_le_imp_le_diff add.commute)
  with s1 show ?thesis by auto
qed

end

end
