(* ===== verification/Hex.thy ===== *)
theory Hex
  imports Suil_Prelude
begin

text \<open>
  The hexadecimal helpers of \<open>libs/base/src/utils.cpp\<close> (\<open>c2i\<close>, \<open>i2c\<close>, \<open>hexstr\<close>,
  \<open>reverse\<close>) and of \<open>libs/base/src/string.cpp\<close> (the \<open>String\<close> overload of \<open>hexstr\<close>,
  \<open>bytes\<close>). A null pointer is \<open>None\<close>; an exception is \<open>Inl\<close>.
\<close>

section \<open>Digits\<close>

definition c2i :: "char \<Rightarrow> byte result" where
  "c2i c =
     (if 48 \<le> ord c \<and> ord c \<le> 57 then Inr (of_nat (ord c - 48))
      else if 97 \<le> ord c \<and> ord c \<le> 102 then Inr (of_nat (ord c - 87))
      else if 65 \<le> ord c \<and> ord c \<le> 70 then Inr (of_nat (ord c - 55))
      else Inl OutOfRange)"

definition i2c :: "byte \<Rightarrow> bool \<Rightarrow> char result" where
  "i2c b caps =
     (if b \<le> 9 then Inr (char_of (unat b + 48))
      else if b \<le> 15 then
        (if caps then Inr (char_of (unat b + 55)) else Inr (char_of (unat b + 87)))
      else Inl OutOfRange)"

lemma c2i_ok_iff: "is_ok (c2i c) \<longleftrightarrow> is_xdigit c"
  by (auto simp: c2i_def is_xdigit_def is_digit_def)

lemma c2i_i2c: "i2c b caps = Inr c \<Longrightarrow> c2i c = Inr b"
  by (auto simp: i2c_def c2i_def of_char_of word_le_nat_alt split: if_splits)

lemma i2c_total: "b < 16 \<Longrightarrow> \<exists>c. i2c b caps = Inr c"
  by (auto simp: i2c_def word_le_nat_alt word_less_nat_alt)

lemma i2c_c2i:
  assumes "c2i c = Inr b"
  shows "i2c b False = Inr (to_lower c)"
proof -
  have "ord c < 256" by simp
  then show ?thesis
    using assms
    by (auto simp: c2i_def i2c_def to_lower_def is_upper_def word_le_nat_alt unat_of_nat
        simp del: of_nat_diff split: if_splits)
qed

lemma c2i_less: "c2i c = Inr b \<Longrightarrow> b < 16"
  by (auto simp: c2i_def word_less_nat_alt unat_of_nat simp del: of_nat_diff split: if_splits)

section \<open>Encoding\<close>

definition hi_nibble :: "byte \<Rightarrow> byte" where
  "hi_nibble b = 0x0F AND drop_bit 4 b"

definition lo_nibble :: "byte \<Rightarrow> byte" where
  "lo_nibble b = 0x0F AND b"

definition join_nibbles :: "byte \<Rightarrow> byte \<Rightarrow> byte" where
  "join_nibbles h l = push_bit 4 h OR l"

definition hex_pair :: "byte \<Rightarrow> bool \<Rightarrow> string result" where
  "hex_pair b caps =
     rbind (i2c (hi_nibble b) caps) (\<lambda>h.
     rbind (i2c (lo_nibble b) caps) (\<lambda>l. Inr [h, l]))"

fun hexstr_loop :: "bytes \<Rightarrow> bool \<Rightarrow> string result" where
  "hexstr_loop [] caps = Inr []"
| "hexstr_loop (b # bs) caps =
     rbind (hex_pair b caps) (\<lambda>p. rbind (hexstr_loop bs caps) (\<lambda>r. Inr (p @ r)))"

text \<open>\<open>hexstr (in, ilen, out, olen)\<close>: what is written to \<open>out\<close>; its length is the returned count.\<close>

definition hexstr_into :: "bytes option \<Rightarrow> bool \<Rightarrow> nat \<Rightarrow> string result" where
  "hexstr_into inp out_ok olen =
     (case inp of
        None \<Rightarrow> Inr []
      | Some bs \<Rightarrow>
          if \<not> out_ok \<or> olen < 2 * length bs then Inr [] else hexstr_loop bs False)"

definition hexstr :: "bytes option \<Rightarrow> string result" where
  "hexstr buf =
     (case buf of
        None \<Rightarrow> Inr []
      | Some bs \<Rightarrow> hexstr_into (Some bs) True (2 + 2 * length bs))"

section \<open>Decoding\<close>

fun bytes_loop :: "string \<Rightarrow> nat \<Rightarrow> bytes result" where
  "bytes_loop p 0 = Inr []"
| "bytes_loop (a # b # p) (Suc n) =
     rbind (c2i a) (\<lambda>h. rbind (c2i b) (\<lambda>l.
     rbind (bytes_loop p n) (\<lambda>r. Inr (join_nibbles h l # r))))"
| "bytes_loop _ (Suc n) = Inl OutOfBoundsRead"

definition bytes_into :: "string \<Rightarrow> bool \<Rightarrow> nat \<Rightarrow> bytes result" where
  "bytes_into str out_ok olen =
     (let size = length str div 2 in
      if \<not> out_ok \<or> olen < size then Inl InvalidArguments else bytes_loop str size)"

section \<open>Reversal in place\<close>

primrec reverse_iter :: "nat \<Rightarrow> bytes \<Rightarrow> bytes" where
  "reverse_iter 0 bs = bs"
| "reverse_iter (Suc i) bs =
     (let cs = reverse_iter i bs; r = length bs - i - 1 in
      cs[i := cs ! r, r := cs ! i])"

definition reverse_bytes :: "bytes \<Rightarrow> bytes" where
  "reverse_bytes bs = reverse_iter (length bs div 2) bs"

section \<open>Lemmas\<close>

lemma nibble_less: "hi_nibble b < 16" "lo_nibble b < 16"
proof -
  have "hi_nibble b < 16 \<and> lo_nibble b < 16"
    by (rule all_bytes [where P = "\<lambda>b. hi_nibble b < 16 \<and> lo_nibble b < 16"]) code_simp
  then show "hi_nibble b < 16" "lo_nibble b < 16" by simp_all
qed

lemma nibbles_join: "join_nibbles (hi_nibble b) (lo_nibble b) = b"
  by (rule all_bytes [where P = "\<lambda>b. join_nibbles (hi_nibble b) (lo_nibble b) = b"]) code_simp

lemma hex_pair_total: "\<exists>h l. hex_pair b caps = Inr [h, l] \<and> c2i h = Inr (hi_nibble b) \<and> c2i l = Inr (lo_nibble b)"
proof -
  obtain h where "i2c (hi_nibble b) caps = Inr h"
    using i2c_total nibble_less by blast
  moreover obtain l where "i2c (lo_nibble b) caps = Inr l"
    using i2c_total nibble_less by blast
  ultimately show ?thesis by (auto simp: hex_pair_def intro: c2i_i2c)
qed

lemma hexstr_loop_total: "\<exists>s. hexstr_loop bs caps = Inr s \<and> length s = 2 * length bs
    \<and> bytes_loop s (length bs) = Inr bs"
proof (induction bs)
  case Nil
  then show ?case by simp
next
  case (Cons b bs)
  then obtain s where "hexstr_loop bs caps = Inr s" "length s = 2 * length bs"
      "bytes_loop s (length bs) = Inr bs" by blast
  moreover obtain h l where "hex_pair b caps = Inr [h, l]" "c2i h = Inr (hi_nibble b)"
      "c2i l = Inr (lo_nibble b)" using hex_pair_total by blast
  ultimately show ?case by (simp add: nibbles_join)
qed

lemma hexstr_total: "\<exists>s. hexstr (Some bs) = Inr s \<and> length s = 2 * length bs \<and> bytes_loop s (length bs) = Inr bs"
  using hexstr_loop_total [of bs False] by (simp add: hexstr_def hexstr_into_def)

lemma bytes_loop_ok: "length s = 2 * n \<Longrightarrow> is_ok (bytes_loop s n) \<longleftrightarrow> list_all is_xdigit s"
proof (induction s n rule: bytes_loop.induct)
  case (2 a b p n)
  then show ?case
    by (cases "c2i a"; cases "c2i b"; cases "bytes_loop p n")
       (auto simp flip: c2i_ok_iff)
qed auto

lemma nibbles_split:
  assumes "h < 16" "l < 16"
  shows "hi_nibble (join_nibbles h l) = h" "lo_nibble (join_nibbles h l) = l"
proof -
  have "list_all (\<lambda>m. list_all (\<lambda>n. hi_nibble (join_nibbles (of_nat m) (of_nat n)) = of_nat m
      \<and> lo_nibble (join_nibbles (of_nat m) (of_nat n)) = of_nat n) [0..<16]) [0..<16]"
    by code_simp
  moreover have "unat h \<in> set [0..<16]" "unat l \<in> set [0..<16]"
    using assms by (simp_all add: word_less_nat_alt)
  ultimately have "hi_nibble (join_nibbles (of_nat (unat h)) (of_nat (unat l))) = of_nat (unat h)
      \<and> lo_nibble (join_nibbles (of_nat (unat h)) (of_nat (unat l))) = of_nat (unat l)"
    by (simp only: list_all_iff)
  then show "hi_nibble (join_nibbles h l) = h" "lo_nibble (join_nibbles h l) = l" by simp_all
qed

lemma hexstr_bytes_loop:
  "length s = 2 * n \<Longrightarrow> bytes_loop s n = Inr bs \<Longrightarrow> hexstr_loop bs False = Inr (map to_lower s)"
proof (induction s n arbitrary: bs rule: bytes_loop.induct)
  case (2 a b p n)
  from "2.prems" obtain h l r where r: "c2i a = Inr h" "c2i b = Inr l" "bytes_loop p n = Inr r"
      "bs = join_nibbles h l # r"
    by (auto simp: rbind_Inr_iff)
  then have "hex_pair (join_nibbles h l) False = Inr [to_lower a, to_lower b]"
    by (simp add: hex_pair_def nibbles_split c2i_less i2c_c2i)
  with r "2.IH" "2.prems"(1) show ?case by simp
qed auto

lemma reverse_iter_length [simp]: "length (reverse_iter i bs) = length bs"
  by (induction i) (simp_all add: Let_def)

lemma reverse_iter_nth:
  "2 * i \<le> length bs \<Longrightarrow> j < length bs \<Longrightarrow>
   reverse_iter i bs ! j =
     (if j < i \<or> length bs - i \<le> j then bs ! (length bs - 1 - j) else bs ! j)"
proof (induction i arbitrary: j)
  case 0
  then show ?case by auto
next
  case (Suc i)
  let ?r = "length bs - i - 1"
  have i: "i < ?r \<or> i = ?r \<or> False" "?r < length bs" "i < length bs" using Suc.prems by auto
  have "reverse_iter i bs ! i = bs ! i" "reverse_iter i bs ! ?r = bs ! ?r"
    using Suc.IH [of i] Suc.IH [of ?r] Suc.prems by auto
  then show ?case
    using Suc.IH [of j] Suc.prems i by (auto simp: Let_def nth_list_update)
qed

lemma reverse_bytes_rev: "reverse_bytes bs = rev bs"
proof (rule nth_equalityI)
  show "length (reverse_bytes bs) = length (rev bs)" by (simp add: reverse_bytes_def)
  fix j assume "j < length (reverse_bytes bs)"
  then have j: "j < length bs" by (simp add: reverse_bytes_def)
  have "length bs - length bs div 2 \<le> j \<or> j < length bs div 2 \<or> length bs - 1 - j = j"
    using j by arith
  with j show "reverse_bytes bs ! j = rev bs ! j"
    by (auto simp: reverse_bytes_def reverse_iter_nth rev_nth)
qed

interpretation hex: codec "\<lambda>bs. (case hexstr (Some bs) of Inr s \<Rightarrow> s | Inl _ \<Rightarrow> [])"
    "\<lambda>s. bytes_into s True (length s)" "\<lambda>_. True"
proof
  fix bs
  obtain s where "hexstr (Some bs) = Inr s" "length s = 2 * length bs"
      "bytes_loop s (length bs) = Inr bs" using hexstr_total by blast
  then show "bytes_into (case hexstr (Some bs) of Inr s \<Rightarrow> s | Inl _ \<Rightarrow> []) True
      (length (case hexstr (Some bs) of Inr s \<Rightarrow> s | Inl _ \<Rightarrow> [])) = Inr bs"
    by (simp add: bytes_into_def)
qed

end
