(* ===== verification/Buffer_Store.thy ===== *)
theory Buffer_Store
  imports Hex
begin

text \<open>
  \<open>suil::Buffer\<close> (\<open>libs/base/src/buffer.cpp\<close>, \<open>buffer.hpp\<close>): a growable byte buffer.
  \<open>m_data\<close> is the allocated storage (\<open>None\<close> for a null pointer), \<open>m_size\<close> the usable
  capacity and \<open>m_offset\<close> the write position; the storage has one byte more than
  \<open>m_size\<close>, for a terminator. \<open>m_size\<close> and \<open>m_offset\<close> are \<open>uint32_t\<close> in the code:
  every truncation the code performs is written with \<open>u32\<close>. The allocator is a parameter:
  \<open>can_alloc n\<close> says whether \<open>realloc\<close> to \<open>n\<close> bytes succeeds, \<open>junk\<close> is what fresh
  memory holds. A write or read past the storage is \<open>Inl OutOfBoundsWrite\<close> or
  \<open>Inl OutOfBoundsRead\<close>.
\<close>

record allocator =
  can_alloc :: "nat \<Rightarrow> bool"
  junk :: byte

record buffer =
  m_data :: "bytes option"
  m_size :: nat
  m_offset :: nat

definition empty_buffer :: buffer where
  "empty_buffer = \<lparr>m_data = None, m_size = 0, m_offset = 0\<rparr>"

section \<open>Memory\<close>

definition reallocate :: "allocator \<Rightarrow> bytes option \<Rightarrow> nat \<Rightarrow> nat \<Rightarrow> bytes option" where
  "reallocate al s os ns =
     (if ns = 0 then None
      else if os > ns then s
      else if can_alloc al ns
        then Some (let old = (case s of None \<Rightarrow> [] | Some d \<Rightarrow> d)
                   in take ns old @ replicate (ns - length old) (junk al))
        else None)"

definition poke :: "bytes option \<Rightarrow> nat \<Rightarrow> bytes \<Rightarrow> bytes option result" where
  "poke s off bs =
     (if bs = [] then Inr s
      else case s of
        None \<Rightarrow> Inl NullDereference
      | Some d \<Rightarrow>
          if off + length bs \<le> length d
          then Inr (Some (take off d @ bs @ drop (off + length bs) d))
          else Inl OutOfBoundsWrite)"

definition align8 :: "nat \<Rightarrow> nat" where
  "align8 x = (if x mod 8 = 0 then 0 else 8 - x mod 8)"

section \<open>Operations\<close>

definition grow :: "allocator \<Rightarrow> nat \<Rightarrow> buffer \<Rightarrow> buffer result" where
  "grow al add b =
     (if add = 0 then Inr b
      else
        let add' = u32 (add + align8 add);
            d = reallocate al (m_data b) (m_size b) (u32 (m_size b + add' + 1))
        in case d of
             None \<Rightarrow> Inl MemoryAllocationFailure
           | Some _ \<Rightarrow> Inr (b\<lparr>m_data := d, m_size := u32 (m_size b + add')\<rparr>))"

definition new_buffer :: "allocator \<Rightarrow> nat \<Rightarrow> buffer result" where
  "new_buffer al is = (if is = 0 then Inr empty_buffer else grow al (u32 is) empty_buffer)"

definition bseek :: "int \<Rightarrow> buffer \<Rightarrow> buffer result" where
  "bseek off b =
     (if 0 \<le> off \<and> off \<le> int (m_size b) then Inr (b\<lparr>m_offset := u32 (nat off)\<rparr>)
      else Inl OutOfRange)"

definition seek :: "int \<Rightarrow> buffer \<Rightarrow> buffer result" where
  "seek off b = bseek (int (m_offset b) + off) b"

definition reserve :: "allocator \<Rightarrow> nat \<Rightarrow> buffer \<Rightarrow> buffer result" where
  "reserve al sz b =
     (let remaining = sub32 (m_size b) (m_offset b) in
      if sz > remaining then grow al (max (m_size b) (u32 (sz - remaining))) b
      else Inr b)"

definition append_data :: "allocator \<Rightarrow> bytes option \<Rightarrow> nat \<Rightarrow> buffer \<Rightarrow> buffer result" where
  "append_data al data len b =
     (if len \<noteq> 0 \<and> data = None then Inl AccessViolation
      else
        rbind (if sub32 (m_size b) (m_offset b) < len
               then grow al (max (m_size b) (u32 len)) b else Inr b) (\<lambda>b1.
        if len > length (case data of None \<Rightarrow> [] | Some d \<Rightarrow> d) then Inl OutOfBoundsRead
        else
          rbind (poke (m_data b1) (m_offset b1)
                   (take len (case data of None \<Rightarrow> [] | Some d \<Rightarrow> d))) (\<lambda>d.
          Inr (b1\<lparr>m_data := d, m_offset := u32 (m_offset b1 + len)\<rparr>))))"

definition append_bytes :: "allocator \<Rightarrow> bytes \<Rightarrow> buffer \<Rightarrow> buffer result" where
  "append_bytes al bs b = append_data al (Some bs) (length bs) b"

text \<open>\<open>appendv\<close> formats into a stack array of 2048 bytes and appends as many bytes as the
  whole formatted text has: \<open>txt\<close> is that text, \<open>None\<close> a formatting error.\<close>

definition vsnprintf :: "bytes \<Rightarrow> nat \<Rightarrow> bytes" where
  "vsnprintf txt n = (if n = 0 then [] else take (n - 1) txt @ [0])"

definition appendv :: "allocator \<Rightarrow> bytes option \<Rightarrow> buffer \<Rightarrow> buffer result" where
  "appendv al txt b =
     (case txt of
        None \<Rightarrow> Inl AccessViolation
      | Some t \<Rightarrow>
          let sb = vsnprintf t 2048 @ replicate (2048 - length (vsnprintf t 2048)) (junk al)
          in append_data al (Some sb) (u32 (length t)) b)"

definition appendnv :: "allocator \<Rightarrow> nat \<Rightarrow> bytes option \<Rightarrow> buffer \<Rightarrow> buffer result" where
  "appendnv al hint txt b =
     rbind (if sub32 (m_size b) (m_offset b) < hint then grow al (u32 (max (m_size b) hint)) b
            else Inr b) (\<lambda>b1.
     case txt of
       None \<Rightarrow> Inl AccessViolation
     | Some t \<Rightarrow>
         rbind (poke (m_data b1) (m_offset b1)
                  (vsnprintf t (sub32 (m_size b1) (m_offset b1)))) (\<lambda>d.
         let b2 = b1\<lparr>m_data := d\<rparr> in
         if u32 (length t + m_offset b2) > m_size b2 then Inl AccessViolation
         else Inr (b2\<lparr>m_offset := u32 (m_offset b2 + length t)\<rparr>)))"

definition reset :: "allocator \<Rightarrow> nat \<Rightarrow> bool \<Rightarrow> buffer \<Rightarrow> buffer result" where
  "reset al sz keep b =
     (let b0 = b\<lparr>m_offset := 0\<rparr> in
      if \<not> keep \<or> m_size b0 < sz then
        let s1 = (if sz < 8 then 8 else sz);
            s2 = s1 + align8 s1;
            d = reallocate al (m_data b0) (m_size b0) (s2 + 1)
        in case d of
             None \<Rightarrow> Inl MemoryAllocationFailure
           | Some _ \<Rightarrow> Inr (b0\<lparr>m_data := d, m_size := u32 s2\<rparr>)
      else Inr b0)"

definition clear :: "buffer \<Rightarrow> buffer" where
  "clear b = b\<lparr>m_data := None, m_offset := 0, m_size := 0\<rparr>"

definition c_string :: "buffer \<Rightarrow> buffer result" where
  "c_string b =
     (case m_data b of
        None \<Rightarrow> Inr b
      | Some d \<Rightarrow>
          if length d \<le> m_offset b then Inl OutOfBoundsRead
          else if d ! m_offset b \<noteq> 0 then Inr (b\<lparr>m_data := Some (d[m_offset b := 0])\<rparr>)
          else Inr b)"

definition release :: "buffer \<Rightarrow> (bytes option \<times> buffer) result" where
  "release b =
     (case m_data b of
        None \<Rightarrow> Inr (None, b)
      | Some _ \<Rightarrow> rbind (c_string b) (\<lambda>b1. Inr (m_data b1, clear b1)))"

definition index_at :: "nat \<Rightarrow> buffer \<Rightarrow> byte result" where
  "index_at i b =
     (if i \<le> m_offset b then
        (case m_data b of
           None \<Rightarrow> Inl NullDereference
         | Some d \<Rightarrow> if i < length d then Inr (d ! i) else Inl OutOfBoundsRead)
      else Inl IndexOutOfBounds)"

definition move_from :: "buffer \<Rightarrow> buffer \<times> buffer" where
  "move_from other = (other, other\<lparr>m_data := None, m_size := 0, m_offset := 0\<rparr>)"

definition append_hex :: "allocator \<Rightarrow> bytes \<Rightarrow> bool \<Rightarrow> buffer \<Rightarrow> buffer result" where
  "append_hex al data caps b =
     rbind (reserve al (2 * length data) b) (\<lambda>b1.
     rbind (hexstr_loop data caps) (\<lambda>s.
     rbind (poke (m_data b1) (m_offset b1) (bytes_of_string s)) (\<lambda>d.
     Inr (b1\<lparr>m_data := d, m_offset := u32 (m_offset b1 + length s)\<rparr>))))"

section \<open>Invariant and contents\<close>

definition buf_ok :: "buffer \<Rightarrow> bool" where
  "buf_ok b \<longleftrightarrow> m_offset b \<le> m_size b \<and> m_size b < 2 ^ 32 - 1 \<and>
     (case m_data b of None \<Rightarrow> m_size b = 0 | Some d \<Rightarrow> m_size b + 1 \<le> length d)"

definition contents :: "buffer \<Rightarrow> bytes" where
  "contents b = (case m_data b of None \<Rightarrow> [] | Some d \<Rightarrow> take (m_offset b) d)"

definition capacity :: "buffer \<Rightarrow> nat" where
  "capacity b = sub32 (m_size b) (m_offset b)"

lemma empty_buffer_ok [simp]: "buf_ok empty_buffer" "contents empty_buffer = []"
  by (simp_all add: buf_ok_def empty_buffer_def contents_def)

lemma length_contents: "buf_ok b \<Longrightarrow> length (contents b) = m_offset b"
  by (auto simp: buf_ok_def contents_def split: option.splits)

lemma capacity_eq: "buf_ok b \<Longrightarrow> capacity b = m_size b - m_offset b"
  by (auto simp: capacity_def buf_ok_def)

lemma align8_le: "align8 x \<le> 7"
  by (auto simp: align8_def)

lemma align8_mult: "(x + align8 x) mod 8 = 0"
  unfolding align8_def by presburger

lemma reallocate_grows:
  assumes "os \<le> ns" "0 < ns" "can_alloc al ns"
  shows "\<exists>d. reallocate al s os ns = Some d \<and> length d = ns \<and>
    (\<forall>old. s = Some old \<longrightarrow> (\<forall>k \<le> min ns (length old). take k d = take k old))"
  using assms by (auto simp: reallocate_def Let_def min_absorb1 min_absorb2)

text \<open>One step of growth: capacity goes up by the requested amount rounded up to a multiple
  of eight, and what was written stays.\<close>

lemma grow_ok:
  assumes "buf_ok b" "0 < add" "m_size b + add + 8 < 2 ^ 32" "\<And>n. n < 2 ^ 32 \<Longrightarrow> can_alloc al n"
  shows "\<exists>b'. grow al add b = Inr b' \<and> buf_ok b' \<and> m_offset b' = m_offset b \<and>
     m_size b' = m_size b + add + align8 add \<and> contents b' = contents b"
proof -
  let ?add = "add + align8 add"
  have small: "m_size b + ?add + 1 < 2 ^ 32" using assms(3) align8_le [of add] by simp
  then obtain d where d: "reallocate al (m_data b) (m_size b) (m_size b + ?add + 1) = Some d"
      "length d = m_size b + ?add + 1"
      "\<And>old. m_data b = Some old \<Longrightarrow> \<forall>k \<le> min (m_size b + ?add + 1) (length old). take k d = take k old"
    using reallocate_grows [of "m_size b" "m_size b + ?add + 1" al "m_data b"] assms(4) by auto
  let ?b = "b\<lparr>m_data := Some d, m_size := m_size b + ?add\<rparr>"
  have "grow al add b = Inr ?b"
    using assms(2) small d(1) by (simp add: grow_def Let_def)
  moreover have "buf_ok ?b"
    using assms(1) d(2) small by (simp add: buf_ok_def)
  moreover have "contents ?b = contents b"
  proof (cases "m_data b")
    case None
    then show ?thesis using assms(1) by (simp add: contents_def buf_ok_def)
  next
    case (Some old)
    have off: "m_offset b \<le> min (m_size b + ?add + 1) (length old)"
      using assms(1) Some by (simp add: buf_ok_def)
    then show ?thesis using Some d(3) [OF Some] by (simp add: contents_def)
  qed
  ultimately show ?thesis by auto
qed

lemma write_at_offset:
  assumes "buf_ok b" "m_offset b + length bs \<le> m_size b"
  shows "\<exists>d. poke (m_data b) (m_offset b) bs = Inr d \<and>
     buf_ok (b\<lparr>m_data := d, m_offset := m_offset b + length bs\<rparr>) \<and>
     contents (b\<lparr>m_data := d, m_offset := m_offset b + length bs\<rparr>) = contents b @ bs"
  using assms by (cases "m_data b") (auto simp: poke_def buf_ok_def contents_def)

lemma append_within:
  assumes "buf_ok b" "length bs \<le> capacity b"
  shows "\<exists>b'. append_bytes al bs b = Inr b' \<and> buf_ok b' \<and> contents b' = contents b @ bs \<and>
     capacity b' = capacity b - length bs \<and> m_size b' = m_size b"
proof -
  have fits: "m_offset b + length bs \<le> m_size b"
    using assms capacity_eq [OF assms(1)] by (auto simp: buf_ok_def)
  obtain d where d: "poke (m_data b) (m_offset b) bs = Inr d"
      "buf_ok (b\<lparr>m_data := d, m_offset := m_offset b + length bs\<rparr>)"
      "contents (b\<lparr>m_data := d, m_offset := m_offset b + length bs\<rparr>) = contents b @ bs"
    using write_at_offset [OF assms(1) fits] by blast
  have "u32 (m_offset b + length bs) = m_offset b + length bs"
    using fits assms(1) by (simp add: buf_ok_def)
  with assms d(1) have "append_bytes al bs b = Inr (b\<lparr>m_data := d, m_offset := m_offset b + length bs\<rparr>)"
    by (simp add: append_bytes_def append_data_def capacity_def not_less)
  with d(2,3) show ?thesis by (auto simp: capacity_eq [OF d(2)] capacity_eq [OF assms(1)])
qed

definition fits_u32 :: "allocator \<Rightarrow> buffer \<Rightarrow> nat \<Rightarrow> bool" where
  "fits_u32 al b n \<longleftrightarrow> 2 * m_size b + n + 8 < 2 ^ 32 \<and> (\<forall>k < 2 ^ 32. can_alloc al k)"

lemma reserve_ok:
  assumes "buf_ok b" "fits_u32 al b n"
  shows "\<exists>b'. reserve al n b = Inr b' \<and> buf_ok b' \<and> contents b' = contents b \<and> n \<le> capacity b' \<and>
     m_offset b' = m_offset b"
proof (cases "n > capacity b")
  case False
  then show ?thesis using assms by (auto simp: reserve_def capacity_def)
next
  case True
  let ?add = "max (m_size b) (n - capacity b)"
  have add: "0 < ?add" "m_size b + ?add + 8 < 2 ^ 32"
    using True assms(2) by (auto simp: fits_u32_def)
  obtain b' where b': "grow al ?add b = Inr b'" "buf_ok b'" "m_offset b' = m_offset b"
      "m_size b' = m_size b + ?add + align8 ?add" "contents b' = contents b"
    using grow_ok [OF assms(1) add] assms(2) by (auto simp: fits_u32_def)
  have "u32 (n - capacity b) = n - capacity b" using assms(2) less_imp_diff_less [of n "2 ^ 32" "capacity b"]
    by (intro u32_id) (simp add: fits_u32_def)
  with True b'(1) have "reserve al n b = Inr b'"
    by (simp add: reserve_def capacity_def Let_def)
  moreover have "capacity b + ?add \<le> capacity b'"
    using b'(3,4) assms(1) capacity_eq [OF b'(2)] capacity_eq [OF assms(1)]
    unfolding buf_ok_def by linarith
  then have "n \<le> capacity b'"
    using max.cobounded2 [of "n - capacity b" "m_size b"] by linarith
  ultimately show ?thesis using b' by auto
qed

lemma append_ok:
  assumes "buf_ok b" "fits_u32 al b (length bs)"
  shows "\<exists>b'. append_bytes al bs b = Inr b' \<and> buf_ok b' \<and> contents b' = contents b @ bs"
proof (cases "length bs \<le> capacity b")
  case True
  then show ?thesis using append_within [OF assms(1)] by blast
next
  case False
  let ?add = "max (m_size b) (length bs)"
  have add: "0 < ?add" "m_size b + ?add + 8 < 2 ^ 32"
    using False assms(2) by (auto simp: fits_u32_def)
  obtain b' where b': "grow al ?add b = Inr b'" "buf_ok b'" "m_offset b' = m_offset b"
      "m_size b' = m_size b + ?add + align8 ?add" "contents b' = contents b"
    using grow_ok [OF assms(1) add] assms(2) by (auto simp: fits_u32_def)
  have "u32 (length bs) = length bs" using assms(2) by (simp add: fits_u32_def)
  moreover have "length bs \<le> capacity b'"
    using b'(3,4) assms(1) by (auto simp: capacity_eq [OF b'(2)] buf_ok_def)
  then obtain b'' where "append_bytes al bs b' = Inr b''" "buf_ok b''" "contents b'' = contents b' @ bs"
      "\<not> capacity b' < length bs"
    using append_within [OF b'(2)] by fastforce
  ultimately show ?thesis using False b'(1,5)
    by (auto simp: append_bytes_def append_data_def capacity_def)
qed

interpretation buf: byte_sink "\<lambda>b bs. append_bytes al bs b" contents capacity buf_ok for al
  by unfold_locales (use append_within in fastforce)


section \<open>Properties\<close>

fun append_all :: "allocator \<Rightarrow> bytes list \<Rightarrow> buffer \<Rightarrow> buffer result" where
  "append_all al [] b = Inr b"
| "append_all al (x # xs) b = rbind (append_bytes al x b) (append_all al xs)"

text \<open>The growth factor bounds the capacity after a sequence of appends: at most three times
  the old capacity plus the appended bytes plus seven, every time.\<close>

lemma append_size:
  assumes "buf_ok b" "fits_u32 al b (length bs)" "append_bytes al bs b = Inr b'"
  shows "m_size b' \<le> 2 * m_size b + length bs + 7"
proof (cases "length bs \<le> capacity b")
  case True
  then show ?thesis using append_within [OF assms(1), of bs al] assms(3) by auto
next
  case False
  let ?add = "max (m_size b) (length bs)"
  have add: "0 < ?add" "m_size b + ?add + 8 < 2 ^ 32"
    using False assms(2) by (auto simp: fits_u32_def)
  obtain b1 where b1: "grow al ?add b = Inr b1" "buf_ok b1" "m_offset b1 = m_offset b"
      "m_size b1 = m_size b + ?add + align8 ?add" "contents b1 = contents b"
    using grow_ok [OF assms(1) add] assms(2) by (auto simp: fits_u32_def)
  have "u32 (length bs) = length bs" using assms(2) by (simp add: fits_u32_def)
  with False b1(1) assms(3) have "m_size b' = m_size b1"
    by (auto simp: append_bytes_def append_data_def capacity_def rbind_Inr_iff split: if_splits)
  then show ?thesis using b1(4) align8_le [of ?add] by simp
qed

text \<open>C13: appending to a well-formed buffer, with memory available and sizes in range of
  \<open>uint32_t\<close>, succeeds whatever the remaining capacity, keeps the buffer well formed (offset
  within the capacity, room for the terminator), keeps what was written and adds exactly the new
  bytes; the C string view then ends exactly after them.\<close>

theorem append_spec:
  assumes "buf_ok b" "fits_u32 al b (length bs)"
  shows "\<exists>b' b''. append_bytes al bs b = Inr b' \<and> buf_ok b' \<and> contents b' = contents b @ bs \<and>
     c_string b' = Inr b'' \<and> contents b'' = contents b @ bs \<and> buf_ok b'' \<and>
     (\<forall>d. m_data b'' = Some d \<longrightarrow> d ! m_offset b'' = 0)"
proof -
  obtain b' where b': "append_bytes al bs b = Inr b'" "buf_ok b'" "contents b' = contents b @ bs"
    using append_ok [OF assms] by blast
  then show ?thesis
    by (cases "m_data b'") (auto simp: c_string_def buf_ok_def contents_def)
qed

definition alloc_any :: allocator where
  "alloc_any = \<lparr>can_alloc = (\<lambda>_. True), junk = 0xAA\<rparr>"

theorem append_spec_witness:
  "\<exists>b' b''. append_bytes alloc_any [1, 2, 3] empty_buffer = Inr b' \<and> buf_ok b' \<and>
     contents b' = contents empty_buffer @ [1, 2, 3] \<and>
     c_string b' = Inr b'' \<and> contents b'' = contents empty_buffer @ [1, 2, 3] \<and> buf_ok b'' \<and>
     (\<forall>d. m_data b'' = Some d \<longrightarrow> d ! m_offset b'' = 0)"
  by (rule append_spec) (simp_all add: fits_u32_def alloc_any_def empty_buffer_def buf_ok_def)

lemma append_data_take:
  "len \<le> length sb \<Longrightarrow> append_data al (Some sb) len b = append_bytes al (take len sb) b"
  by (simp add: append_data_def append_bytes_def)

lemma append_data_past_end:
  assumes "buf_ok b" "fits_u32 al b len" "length sb < len"
  shows "append_data al (Some sb) len b = Inl OutOfBoundsRead"
proof -
  have "is_ok (append_bytes al (replicate len 0) b)"
    using append_ok [OF assms(1), of al "replicate len 0"] assms(2) by (auto simp: is_ok_iff)
  then show ?thesis using assms(3)
    by (auto simp: append_data_def append_bytes_def is_ok_iff rbind_Inr_iff split: if_splits)
qed

definition printf_buf :: "allocator \<Rightarrow> bytes \<Rightarrow> bytes" where
  "printf_buf al t = vsnprintf t 2048 @ replicate (2048 - length (vsnprintf t 2048)) (junk al)"

lemma printf_buf_length: "length (printf_buf al t) = 2048"
  by (simp add: printf_buf_def vsnprintf_def)

lemma appendv_eq: "appendv al (Some t) b = append_data al (Some (printf_buf al t)) (u32 (length t)) b"
  by (simp add: appendv_def printf_buf_def Let_def)

text \<open>\<open>appendv\<close> formats into a stack array of 2048 bytes but appends as many bytes as the
  formatted text has. Up to 2047 bytes the text is appended as it is; a text of exactly 2048
  bytes loses its last byte to the terminator; a longer text makes it read past the array.\<close>

theorem appendv_spec:
  assumes "buf_ok b" "fits_u32 al b (length txt)"
  shows "(length txt < 2048 \<longrightarrow>
            (\<exists>b'. appendv al (Some txt) b = Inr b' \<and> buf_ok b' \<and> contents b' = contents b @ txt)) \<and>
         (length txt = 2048 \<longrightarrow>
            (\<exists>b'. appendv al (Some txt) b = Inr b' \<and> contents b' = contents b @ take 2047 txt @ [0])) \<and>
         (2048 < length txt \<longrightarrow> appendv al (Some txt) b = Inl OutOfBoundsRead)"
proof -
  have len: "u32 (length txt) = length txt" using assms(2) by (intro u32_id) (simp add: fits_u32_def)
  have "appendv al (Some txt) b = append_bytes al (take (length txt) (printf_buf al txt)) b"
    if "length txt \<le> 2048"
    using that by (simp add: appendv_eq len append_data_take printf_buf_length)
  moreover have "take (length txt) (printf_buf al txt) = txt" if "length txt < 2048"
    using that by (simp add: printf_buf_def vsnprintf_def)
  moreover have "take (length txt) (printf_buf al txt) = take 2047 txt @ [0]" if "length txt = 2048"
    using that by (simp add: printf_buf_def vsnprintf_def)
  moreover have "appendv al (Some txt) b = Inl OutOfBoundsRead" if "2048 < length txt"
    unfolding appendv_eq len
    by (rule append_data_past_end) (use assms that in \<open>simp_all add: printf_buf_length\<close>)
  moreover obtain b' where "append_bytes al txt b = Inr b'" "buf_ok b'" "contents b' = contents b @ txt"
    using append_ok [OF assms] by blast
  moreover obtain b2 where "length txt = 2048 \<Longrightarrow> append_bytes al (take 2047 txt @ [0]) b = Inr b2"
      "length txt = 2048 \<Longrightarrow> contents b2 = contents b @ take 2047 txt @ [0]"
    using append_ok [OF assms(1), of al "take 2047 txt @ [0]"] assms(2)
    by (cases "length txt = 2048") auto
  ultimately show ?thesis by simp
qed

theorem appendv_spec_witness:
  "appendv alloc_any (Some (replicate 2049 65)) empty_buffer = Inl OutOfBoundsRead"
  using appendv_spec [of empty_buffer alloc_any "replicate 2049 65"]
  by (simp add: fits_u32_def alloc_any_def empty_buffer_def buf_ok_def)

end
