(* ===== verification/Base64.thy ===== *)
theory Base64
  imports Buffer_Store
begin

text \<open>
  \<open>libs/base/src/base64.cpp\<close>: \<open>encode\<close>, \<open>decode\<close>, \<open>urlEncode\<close>, \<open>urlDecode\<close>, each into
  a \<open>Buffer\<close>. The encoders write their text and a terminator at the buffer's offset and
  then seek past the text; the decoders write from the start of the buffer's storage and seek by
  the count. An input is the readable memory at the pointer (which goes on after the given size:
  a \<open>String\<close> has a terminator there) and a size; reading past the memory is \<open>OutOfBoundsRead\<close>.
\<close>

section \<open>Tables\<close>

definition b64table :: string where
  "b64table = ''ABCDEFGHIJKLMNOPQRSTUVWXYZabcdefghijklmnopqrstuvwxyz0123456789+/''"

definition b64tableU :: string where
  "b64tableU = ''ABCDEFGHIJKLMNOPQRSTUVWXYZabcdefghijklmnopqrstuvwxyz0123456789-_''"

definition ascii_lookup :: "nat list" where
  "ascii_lookup =
    [64, 64, 64, 64, 64, 64, 64, 64, 64, 64, 64, 64, 64, 64, 64, 64,
     64, 64, 64, 64, 64, 64, 64, 64, 64, 64, 64, 64, 64, 64, 64, 64,
     64, 64, 64, 64, 64, 64, 64, 64, 64, 64, 64, 62, 64, 64, 64, 63,
     52, 53, 54, 55, 56, 57, 58, 59, 60, 61, 64, 64, 64, 64, 64, 64,
     64,  0,  1,  2,  3,  4,  5,  6,  7,  8,  9, 10, 11, 12, 13, 14,
     15, 16, 17, 18, 19, 20, 21, 22, 23, 24, 25, 64, 64, 64, 64, 64,
     64, 26, 27, 28, 29, 30, 31, 32, 33, 34, 35, 36, 37, 38, 39, 40,
     41, 42, 43, 44, 45, 46, 47, 48, 49, 50, 51, 64, 64, 64, 64, 64] @ replicate 128 64"

definition ascii_lookupU :: "nat list" where
  "ascii_lookupU =
    [64, 64, 64, 64, 64, 64, 64, 64, 64, 64, 64, 64, 64, 64, 64, 64,
     64, 64, 64, 64, 64, 64, 64, 64, 64, 64, 64, 64, 64, 64, 64, 64,
     64, 64, 64, 64, 64, 64, 64, 64, 64, 64, 64, 62, 64, 62, 64, 63,
     52, 53, 54, 55, 56, 57, 58, 59, 60, 61, 64, 64, 64, 64, 64, 64,
     64,  0,  1,  2,  3,  4,  5,  6,  7,  8,  9, 10, 11, 12, 13, 14,
     15, 16, 17, 18, 19, 20, 21, 22, 23, 24, 25, 64, 64, 64, 64, 63,
     64, 26, 27, 28, 29, 30, 31, 32, 33, 34, 35, 36, 37, 38, 39, 40,
     41, 42, 43, 44, 45, 46, 47, 48, 49, 50, 51, 64, 64, 64, 64, 64] @ replicate 128 64"

definition lk :: "byte \<Rightarrow> byte" where
  "lk c = of_nat (ascii_lookup ! unat c)"

definition lkU :: "byte \<Rightarrow> byte" where
  "lkU c = of_nat (ascii_lookupU ! unat c)"

definition sym :: "byte \<Rightarrow> byte" where
  "sym i = byte_of_char (b64table ! unat i)"

definition symU :: "byte \<Rightarrow> byte" where
  "symU i = byte_of_char (b64tableU ! unat i)"

section \<open>The bit shuffling\<close>

definition sext0 :: "byte \<Rightarrow> byte" where
  "sext0 a = drop_bit 2 (a AND 0xFC)"

definition sext1 :: "byte \<Rightarrow> byte \<Rightarrow> byte" where
  "sext1 a b = push_bit 4 (a AND 0x03) OR drop_bit 4 (b AND 0xF0)"

definition sext2 :: "byte \<Rightarrow> byte \<Rightarrow> byte" where
  "sext2 b c = push_bit 2 (b AND 0x0F) OR drop_bit 6 (c AND 0xC0)"

definition sext3 :: "byte \<Rightarrow> byte" where
  "sext3 c = c AND 0x3F"

definition join0 :: "byte \<Rightarrow> byte \<Rightarrow> byte" where
  "join0 s t = push_bit 2 s OR drop_bit 4 t"

definition join1 :: "byte \<Rightarrow> byte \<Rightarrow> byte" where
  "join1 s t = push_bit 4 s OR drop_bit 2 t"

definition join2 :: "byte \<Rightarrow> byte \<Rightarrow> byte" where
  "join2 s t = push_bit 6 s OR t"

section \<open>Encoding\<close>

fun enc_loop :: "bytes \<Rightarrow> bytes" where
  "enc_loop (a # b # c # xs) =
     [sym (sext0 a), sym (sext1 a b), sym (sext2 b c), sym (sext3 c)] @ enc_loop xs"
| "enc_loop [a] = [sym (sext0 a), sym (sext1 a 0), byte_of_char (CHR ''=''), byte_of_char (CHR ''='')]"
| "enc_loop [a, b] = [sym (sext0 a), sym (sext1 a b), sym (sext2 b 0), byte_of_char (CHR ''='')]"
| "enc_loop [] = []"

fun url_enc_loop :: "bytes \<Rightarrow> bytes" where
  "url_enc_loop (a # b # c # xs) =
     [symU (sext0 a), symU (sext1 a b), symU (sext2 b c), symU (sext3 c)] @ url_enc_loop xs"
| "url_enc_loop [a] = [symU (sext0 a), symU (sext1 a 0)]"
| "url_enc_loop [a, b] = [symU (sext0 a), symU (sext1 a b), symU (sext2 b 0)]"
| "url_enc_loop [] = []"

definition write_text :: "bytes \<Rightarrow> buffer \<Rightarrow> buffer result" where
  "write_text out b =
     rbind (poke (m_data b) (m_offset b) (out @ [0])) (\<lambda>d.
     seek (int (length out)) (b\<lparr>m_data := d\<rparr>))"

definition encode :: "allocator \<Rightarrow> bytes \<Rightarrow> buffer \<Rightarrow> buffer result" where
  "encode al data b =
     rbind (reserve al (2 + (length data + 2) div 3 * 4) b) (write_text (enc_loop data))"

definition url_encode :: "allocator \<Rightarrow> bytes \<Rightarrow> buffer \<Rightarrow> buffer result" where
  "url_encode al data b =
     rbind (reserve al (2 + (length data + 2) div 3 * 4) b) (write_text (url_enc_loop data))"

definition encode_str :: "allocator \<Rightarrow> bytes \<Rightarrow> bytes result" where
  "encode_str al data = rbind (encode al data empty_buffer) (\<lambda>b. Inr (contents b))"

definition url_encode_str :: "allocator \<Rightarrow> bytes \<Rightarrow> bytes result" where
  "url_encode_str al data =
     rbind (new_buffer al (2 + (length data + 2) div 3 * 4)) (\<lambda>b0.
     rbind (url_encode al data b0) (\<lambda>b. Inr (contents b)))"

section \<open>Decoding\<close>

definition at :: "bytes \<Rightarrow> nat \<Rightarrow> byte result" where
  "at mem i = (if i < length mem then Inr (mem ! i) else Inl OutOfBoundsRead)"

text \<open>The main loop, for either table: the decoded bytes, the rest of the memory, the rest of the
  size.\<close>

fun dec_loop :: "(byte \<Rightarrow> byte) \<Rightarrow> bytes \<Rightarrow> nat \<Rightarrow> (bytes \<times> bytes \<times> nat) result" where
  "dec_loop l mem sz =
     (if sz > 4 then
        rbind (at mem 0) (\<lambda>c0. if l c0 = 64 then Inl InvalidArguments else
        rbind (at mem 1) (\<lambda>c1. if l c1 = 64 then Inl InvalidArguments else
        rbind (at mem 2) (\<lambda>c2. if l c2 = 64 then Inl InvalidArguments else
        rbind (at mem 3) (\<lambda>c3. if l c3 = 64 then Inl InvalidArguments else
        rbind (dec_loop l (drop 4 mem) (sz - 4)) (\<lambda>(out, rest).
        Inr ([join0 (l c0) (l c1), join1 (l c1) (l c2), join2 (l c2) (l c3)] @ out, rest))))))
      else Inr ([], mem, sz))"

declare dec_loop.simps [simp del]

text \<open>\<open>while ((it[i] != '=') && (ASCII_LOOKUP[it[i]] != 64) && (i++ < 4));\<close> The loop leaves
  \<open>i\<close> at most 5; \<open>fuel\<close> 6 covers every round.\<close>

fun scan_tail :: "nat \<Rightarrow> bytes \<Rightarrow> nat \<Rightarrow> nat result" where
  "scan_tail 0 mem i = Inr i"
| "scan_tail (Suc fuel) mem i =
     rbind (at mem i) (\<lambda>c.
     if c = byte_of_char (CHR ''='') then Inr i
     else if lk c = 64 then Inr i
     else if i < 4 then scan_tail fuel mem (i + 1)
     else Inr (i + 1))"

definition emit_tail :: "(byte \<Rightarrow> byte) \<Rightarrow> bytes \<Rightarrow> nat \<Rightarrow> bytes result" where
  "emit_tail l mem sz =
     rbind (if sz > 1 then rbind (at mem 0) (\<lambda>c0. rbind (at mem 1) (\<lambda>c1. Inr [join0 (l c0) (l c1)]))
            else Inr []) (\<lambda>o1.
     rbind (if sz > 2 then rbind (at mem 1) (\<lambda>c1. rbind (at mem 2) (\<lambda>c2. Inr [join1 (l c1) (l c2)]))
            else Inr []) (\<lambda>o2.
     rbind (if sz > 3 then rbind (at mem 2) (\<lambda>c2. rbind (at mem 3) (\<lambda>c3. Inr [join2 (l c2) (l c3)]))
            else Inr []) (\<lambda>o3. Inr (o1 @ o2 @ o3))))"

definition dec_tail :: "bytes \<Rightarrow> nat \<Rightarrow> bytes result" where
  "dec_tail mem sz =
     rbind (scan_tail 6 mem 0) (\<lambda>i.
     rbind (if sub64 sz i = 0 then Inr False
            else rbind (at mem i) (\<lambda>c. Inr (c \<noteq> byte_of_char (CHR ''=''))))
       (\<lambda>bad. if bad then Inl InvalidArguments
              else emit_tail lk mem (nat ((int sz - (4 - int i)) mod 2 ^ 64))))"

definition dec_bytes :: "bytes \<Rightarrow> nat \<Rightarrow> bytes result" where
  "dec_bytes mem sz =
     rbind (dec_loop lk mem sz) (\<lambda>(out, mem', sz').
     rbind (dec_tail mem' sz') (\<lambda>o2. Inr (out @ o2)))"

definition url_dec_bytes :: "bytes \<Rightarrow> nat \<Rightarrow> bytes result" where
  "url_dec_bytes mem sz =
     rbind (dec_loop lkU mem sz) (\<lambda>(out, mem', sz').
     rbind (emit_tail lkU mem' sz') (\<lambda>o2. Inr (out @ o2)))"

text \<open>The bytes go to the start of the storage, whatever the offset is; the seek is relative to
  the offset.\<close>

definition write_front :: "bytes \<Rightarrow> buffer \<Rightarrow> buffer result" where
  "write_front out b =
     rbind (poke (m_data b) 0 out) (\<lambda>d. seek (int (length out)) (b\<lparr>m_data := d\<rparr>))"

definition decode :: "allocator \<Rightarrow> bytes \<Rightarrow> nat \<Rightarrow> buffer \<Rightarrow> buffer result" where
  "decode al mem sz b =
     rbind (reserve al (u32 (sz div 4 * 3 + 4)) b) (\<lambda>b1.
     rbind (dec_bytes mem sz) (\<lambda>out. write_front out b1))"

definition url_decode :: "allocator \<Rightarrow> bytes \<Rightarrow> nat \<Rightarrow> buffer \<Rightarrow> buffer result" where
  "url_decode al mem sz b =
     rbind (reserve al (u32 (sz div 4 * 3 + 4)) b) (\<lambda>b1.
     rbind (url_dec_bytes mem sz) (\<lambda>out. write_front out b1))"

definition decode_str :: "allocator \<Rightarrow> bytes \<Rightarrow> nat \<Rightarrow> bytes result" where
  "decode_str al mem sz =
     rbind (new_buffer al (u32 (u32 (sz div 4) * 3))) (\<lambda>b0.
     rbind (decode al mem sz b0) (\<lambda>b. Inr (contents b)))"

definition url_decode_str :: "allocator \<Rightarrow> bytes \<Rightarrow> nat \<Rightarrow> bytes result" where
  "url_decode_str al mem sz =
     rbind (new_buffer al (u32 (u32 (sz div 4) * 3))) (\<lambda>b0.
     rbind (url_decode al mem sz b0) (\<lambda>b. Inr (contents b)))"

section \<open>Lemmas\<close>

lemma bit_byte_cases: "n < 8 \<Longrightarrow> n = 0 \<or> n = 1 \<or> n = 2 \<or> n = 3 \<or> n = 4 \<or> n = 5 \<or> n = 6 \<or> n = (7::nat)"
  by arith

lemma join0_sext: "join0 (sext0 a) (sext1 a b) = a"
  by (rule bit_word_eqI, simp, drule bit_byte_cases)
     (auto simp: join0_def sext0_def sext1_def bit_simps, simp_all add: numeral_2_eq_2 numeral_3_eq_3)

lemma join1_sext: "join1 (sext1 a b) (sext2 b c) = b"
  by (rule bit_word_eqI, simp, drule bit_byte_cases)
     (auto simp: join1_def sext1_def sext2_def bit_simps)

lemma join2_sext: "join2 (sext2 b c) (sext3 c) = c"
  by (rule bit_word_eqI, simp, drule bit_byte_cases)
     (auto simp: join2_def sext2_def sext3_def bit_simps)

lemma byte_less_64: "\<not> bit x 6 \<Longrightarrow> \<not> bit x 7 \<Longrightarrow> (x :: byte) < 64"
proof -
  have "bit x 6 \<or> bit x 7 \<or> x < 64"
    by (rule all_bytes [where P = "\<lambda>x. bit x 6 \<or> bit x 7 \<or> x < 64"]) code_simp
  then show "\<not> bit x 6 \<Longrightarrow> \<not> bit x 7 \<Longrightarrow> x < 64" by blast
qed

lemma sext_less [simp]: "sext0 a < 64" "sext1 a b < 64" "sext2 b c < 64" "sext3 c < 64"
  by (rule byte_less_64; simp add: sext0_def sext1_def sext2_def sext3_def bit_simps)+

lemma lookup_table: "n < 64 \<Longrightarrow> ascii_lookup ! ord (b64table ! n) = n"
proof -
  have "list_all (\<lambda>(c, n). ascii_lookup ! ord c = n) (zip b64table [0..<64])" by code_simp
  moreover have "length b64table = 64" by (simp add: b64table_def)
  ultimately show "n < 64 \<Longrightarrow> ascii_lookup ! ord (b64table ! n) = n"
    by (simp add: list_all_length)
qed

lemma lookup_tableU: "n < 64 \<Longrightarrow> ascii_lookupU ! ord (b64tableU ! n) = n"
proof -
  have "list_all (\<lambda>(c, n). ascii_lookupU ! ord c = n) (zip b64tableU [0..<64])" by code_simp
  moreover have "length b64tableU = 64" by (simp add: b64tableU_def)
  ultimately show "n < 64 \<Longrightarrow> ascii_lookupU ! ord (b64tableU ! n) = n"
    by (simp add: list_all_length)
qed

lemma lk_sym [simp]: "s < 64 \<Longrightarrow> lk (sym s) = s"
  using lookup_table [of "unat s"] by (simp add: lk_def sym_def word_less_nat_alt)

lemma lkU_symU [simp]: "s < 64 \<Longrightarrow> lkU (symU s) = s"
  using lookup_tableU [of "unat s"] by (simp add: lkU_def symU_def word_less_nat_alt)

lemma lk_pad [simp]: "lk (byte_of_char (CHR ''='')) = 64"
  by (simp add: lk_def ascii_lookup_def)

lemma sym_not_pad [simp]: "s < 64 \<Longrightarrow> sym s \<noteq> byte_of_char (CHR ''='')"
  using lk_sym [of s] by (metis lk_pad less_irrefl)

lemma small_not_64 [simp]: "s < 64 \<Longrightarrow> s \<noteq> (64 :: byte)"
  by auto

lemma enc_loop_length: "length (enc_loop xs) = (length xs + 2) div 3 * 4"
proof (induction xs rule: enc_loop.induct)
  case (1 a b c xs)
  have "(length (a # b # c # xs) + 2) div 3 = (length xs + 2) div 3 + 1" by simp
  with 1 show ?case by simp
qed simp_all

lemma url_enc_loop_length: "length (url_enc_loop xs) = (length xs * 4 + 2) div 3"
  by (induction xs rule: url_enc_loop.induct) auto

lemma dec_loop_done: "sz \<le> 4 \<Longrightarrow> dec_loop l mem sz = Inr ([], mem, sz)"
  by (subst dec_loop.simps) simp

lemma dec_loop_step:
  assumes "4 < sz" "l c0 \<noteq> 64" "l c1 \<noteq> 64" "l c2 \<noteq> 64" "l c3 \<noteq> 64"
  shows "dec_loop l (c0 # c1 # c2 # c3 # mem) sz =
    rbind (dec_loop l mem (sz - 4)) (\<lambda>(out, rest).
      Inr ([join0 (l c0) (l c1), join1 (l c1) (l c2), join2 (l c2) (l c3)] @ out, rest))"
  using assms by (subst dec_loop.simps) (simp add: at_def)

text \<open>The last group: four symbols followed by a byte that is no symbol.\<close>

lemma at_Cons [simp]:
  "at (c # mem) 0 = Inr c"
  "at (c # mem) (Suc i) = at mem i"
  "at (c # mem) (numeral k) = at mem (pred_numeral k)"
  by (simp_all add: at_def numeral_eq_Suc)

lemma scan_full:
  assumes "s0 < 64" "s1 < 64" "s2 < 64" "s3 < 64" "lk c = 64" "c \<noteq> byte_of_char (CHR ''='')"
  shows "scan_tail 6 (sym s0 # sym s1 # sym s2 # sym s3 # c # mem) 0 = Inr 4"
  using assms by (simp add: numeral_eq_Suc)

lemma scan_pad1:
  assumes "s0 < 64" "s1 < 64" "s2 < 64"
  shows "scan_tail 6 (sym s0 # sym s1 # sym s2 # byte_of_char (CHR ''='') # mem) 0 = Inr 3"
  using assms by (simp add: numeral_eq_Suc)

lemma scan_pad2:
  assumes "s0 < 64" "s1 < 64"
  shows "scan_tail 6 (sym s0 # sym s1 # byte_of_char (CHR ''='') # mem) 0 = Inr 2"
  using assms by (simp add: numeral_eq_Suc)

lemma sub64_small: "sub64 4 4 = 0" "sub64 4 3 = 1" "sub64 4 2 = 2"
  by (simp_all add: sub64_def)

lemma dec_tail_full:
  assumes "s0 < 64" "s1 < 64" "s2 < 64" "s3 < 64" "lk c = 64" "c \<noteq> byte_of_char (CHR ''='')" "n = 4"
  shows "dec_tail (sym s0 # sym s1 # sym s2 # sym s3 # c # mem) n =
    Inr [join0 s0 s1, join1 s1 s2, join2 s2 s3]"
  using assms by (simp add: dec_tail_def scan_full sub64_small emit_tail_def)

lemma dec_tail_pad1:
  assumes "s0 < 64" "s1 < 64" "s2 < 64" "n = 4"
  shows "dec_tail (sym s0 # sym s1 # sym s2 # byte_of_char (CHR ''='') # mem) n =
    Inr [join0 s0 s1, join1 s1 s2]"
  using assms by (simp add: dec_tail_def scan_pad1 sub64_small emit_tail_def)

lemma dec_tail_pad2:
  assumes "s0 < 64" "s1 < 64" "n = 4"
  shows "dec_tail (sym s0 # sym s1 # byte_of_char (CHR ''='') # mem) n = Inr [join0 s0 s1]"
  using assms by (simp add: dec_tail_def scan_pad2 sub64_small emit_tail_def)

lemma enc_loop_ge4: "xs \<noteq> [] \<Longrightarrow> 4 \<le> length (enc_loop xs)"
  by (cases xs rule: enc_loop.cases) simp_all

definition ends_text :: "bytes \<Rightarrow> bool" where
  "ends_text rest \<longleftrightarrow> rest \<noteq> [] \<and> lk (hd rest) = 64 \<and> hd rest \<noteq> byte_of_char (CHR ''='')"

lemma lk_NUL: "lk 0 = 64"
  by (simp add: lk_def ascii_lookup_def)

lemma ends_text_NUL: "ends_text [0]"
  by (simp add: ends_text_def lk_NUL byte_of_char_def)

lemma dec_bytes_enc:
  "xs \<noteq> [] \<Longrightarrow> ends_text rest \<Longrightarrow> dec_bytes (enc_loop xs @ rest) (length (enc_loop xs)) = Inr xs"
proof (induction xs rule: enc_loop.induct)
  case (1 a b c xs)
  obtain r rs where rest: "rest = r # rs" "lk r = 64" "r \<noteq> byte_of_char (CHR ''='')"
    using "1.prems"(2) by (cases rest) (auto simp: ends_text_def)
  show ?case
  proof (cases "xs = []")
    case True
    then show ?thesis using rest
      by (simp add: dec_bytes_def dec_loop_done dec_tail_full join0_sext join1_sext join2_sext)
  next
    case False
    then have "4 < length (enc_loop (a # b # c # xs))" using enc_loop_ge4 [of xs] by (cases "enc_loop xs") auto
    with "1.IH" [OF False "1.prems"(2)] show ?thesis
      by (auto simp: dec_bytes_def dec_loop_step rbind_Inr_iff join0_sext join1_sext join2_sext)
  qed
qed (simp_all add: dec_bytes_def dec_loop_done dec_tail_pad1 dec_tail_pad2 join0_sext join1_sext)

lemma url_dec_bytes_enc:
  "url_dec_bytes (url_enc_loop xs @ rest) (length (url_enc_loop xs)) = Inr xs"
proof (induction xs rule: url_enc_loop.induct)
  case (1 a b c xs)
  show ?case
  proof (cases "xs = []")
    case True
    then show ?thesis
      by (simp add: url_dec_bytes_def dec_loop_done emit_tail_def join0_sext join1_sext join2_sext)
  next
    case False
    then have "4 < length (url_enc_loop (a # b # c # xs))" by (cases xs rule: url_enc_loop.cases) simp_all
    with "1.IH" show ?thesis
      by (auto simp: url_dec_bytes_def dec_loop_step rbind_Inr_iff join0_sext join1_sext join2_sext)
  qed
qed (simp_all add: url_dec_bytes_def dec_loop_done emit_tail_def join0_sext join1_sext)


section \<open>Writing into the buffer\<close>

lemma write_text_ok:
  assumes "buf_ok b" "length out + 2 \<le> capacity b"
  shows "\<exists>b'. write_text out b = Inr b' \<and> buf_ok b' \<and> contents b' = contents b @ out"
proof -
  obtain d where d: "m_data b = Some d" "m_size b + 1 \<le> length d" "m_offset b \<le> m_size b"
      "m_size b < 2 ^ 32 - 1" "m_offset b + length out + 2 \<le> m_size b"
    using assms capacity_eq [OF assms(1)] by (cases "m_data b") (auto simp: buf_ok_def)
  let ?d = "take (m_offset b) d @ out @ [0] @ drop (m_offset b + length out + 1) d"
  have "poke (m_data b) (m_offset b) (out @ [0]) = Inr (Some ?d)"
    using d by (simp add: poke_def)
  moreover have "seek (int (length out)) (b\<lparr>m_data := Some ?d\<rparr>) =
      Inr (b\<lparr>m_data := Some ?d, m_offset := m_offset b + length out\<rparr>)"
  proof -
    have "nat (int (m_offset b) + int (length out)) = m_offset b + length out" by simp
    with d show ?thesis by (simp add: seek_def bseek_def)
  qed
  moreover have "buf_ok (b\<lparr>m_data := Some ?d, m_offset := m_offset b + length out\<rparr>)"
    using d by (simp add: buf_ok_def)
  moreover have "contents (b\<lparr>m_data := Some ?d, m_offset := m_offset b + length out\<rparr>) = contents b @ out"
    using d by (simp add: contents_def)
  ultimately show ?thesis by (simp add: write_text_def)
qed

lemma write_front_ok:
  assumes "buf_ok b" "m_offset b = 0" "length out \<le> capacity b"
  shows "\<exists>b'. write_front out b = Inr b' \<and> buf_ok b' \<and> contents b' = out"
proof -
  have "length out \<le> m_size b" "m_size b < 2 ^ 32 - 1"
    using assms capacity_eq [OF assms(1)] by (auto simp: buf_ok_def)
  moreover from this obtain d where "poke (m_data b) 0 out = Inr d"
      "buf_ok (b\<lparr>m_data := d, m_offset := length out\<rparr>)"
      "contents (b\<lparr>m_data := d, m_offset := length out\<rparr>) = out"
    using write_at_offset [OF assms(1), of out] assms(2) by (auto simp: contents_def split: option.splits)
  moreover have "nat (int (length out)) = length out" by simp
  moreover have "u32 (length out) = length out" using calculation(1,2) by simp
  ultimately show ?thesis using assms(2)
    by (auto simp: write_front_def seek_def bseek_def)
qed

lemma encode_room: "url_enc_loop xs = out \<Longrightarrow> length out \<le> (length xs + 2) div 3 * 4"
  by (auto simp: url_enc_loop_length)

lemma reserve_write:
  assumes "buf_ok b" "fits_u32 al b n" "length out + 2 \<le> n"
  shows "\<exists>b'. rbind (reserve al n b) (write_text out) = Inr b' \<and> buf_ok b' \<and> contents b' = contents b @ out"
proof -
  obtain b1 where b1: "reserve al n b = Inr b1" "buf_ok b1" "contents b1 = contents b" "n \<le> capacity b1"
    using reserve_ok [OF assms(1,2)] by blast
  with write_text_ok [of b1 out] assms(3) show ?thesis by auto
qed

lemma dec_loop_length:
  "dec_loop l mem sz = Inr (out, mem', sz') \<Longrightarrow> length out + sz' div 4 * 3 = sz div 4 * 3 \<and> sz' \<le> 4"
proof (induction l mem sz arbitrary: out rule: dec_loop.induct)
  case (1 l mem sz)
  show ?case
  proof (cases "sz > 4")
    case False
    then show ?thesis using "1.prems" by (simp add: dec_loop_done)
  next
    case True
    from "1.prems" True obtain c0 c1 c2 c3 o2 where c: "at mem 0 = Inr c0" "l c0 \<noteq> 64"
        "at mem 1 = Inr c1" "l c1 \<noteq> 64" "at mem 2 = Inr c2" "l c2 \<noteq> 64" "at mem 3 = Inr c3" "l c3 \<noteq> 64"
        "dec_loop l (drop 4 mem) (sz - 4) = Inr (o2, mem', sz')" "length out = 3 + length o2"
      by (subst (asm) dec_loop.simps) (auto simp: rbind_Inr_iff split: if_splits)
    have "length o2 + sz' div 4 * 3 = (sz - 4) div 4 * 3 \<and> sz' \<le> 4"
      using "1.IH" [OF True c(2) c(4) c(6) c(8) c(9)] .
    moreover have "sz div 4 = (sz - 4) div 4 + 1" using True by (simp add: le_div_geq)
    ultimately show ?thesis using c(10) by simp
  qed
qed

lemma u32_small_room: "sz < 2 ^ 31 \<Longrightarrow> u32 (sz div 4 * 3 + 4) = sz div 4 * 3 + 4"
  by (intro u32_id) simp

text \<open>Decoding the text of an encoder into an empty buffer gives back what was encoded.\<close>

lemma decode_into:
  assumes "buf_ok b" "m_offset b = 0" "fits_u32 al b (sz div 4 * 3 + 4)" "sz < 2 ^ 31"
    and "length out \<le> sz div 4 * 3 + 4"
  shows "\<exists>b'. rbind (reserve al (u32 (sz div 4 * 3 + 4)) b) (write_front out) = Inr b' \<and>
    buf_ok b' \<and> contents b' = out"
proof -
  obtain b1 where "reserve al (u32 (sz div 4 * 3 + 4)) b = Inr b1" "buf_ok b1" "m_offset b1 = 0"
      "sz div 4 * 3 + 4 \<le> capacity b1"
    using reserve_ok [OF assms(1,3)] assms(2) u32_small_room [OF assms(4)] by auto
  with write_front_ok [of b1 out] assms(5) show ?thesis by auto
qed

lemma enc_room: "length xs \<le> length (enc_loop xs) div 4 * 3 + 4"
  unfolding enc_loop_length by simp

lemma url_enc_room: "length xs \<le> length (url_enc_loop xs) div 4 * 3 + 4"
  unfolding url_enc_loop_length by simp

section \<open>Properties\<close>

text \<open>C17: base64 round trip through the buffers. Encoding any nonempty data appends its base64
  text, four symbols for every three bytes begun, to what the buffer held; decoding that text
  into an empty buffer, when the byte after it is no base64 character (a terminated string),
  gives back exactly the data.\<close>

theorem base64_roundtrip:
  assumes "buf_ok b" "fits_u32 al b (2 + (length xs + 2) div 3 * 4)" "xs \<noteq> []"
    and "buf_ok e" "m_offset e = 0" "fits_u32 al e (length xs + 8)" "length xs < 2 ^ 30" "ends_text rest"
  shows "\<exists>b' txt e'. encode al xs b = Inr b' \<and> buf_ok b' \<and> contents b' = contents b @ txt \<and>
     length txt = (length xs + 2) div 3 * 4 \<and>
     decode al (txt @ rest) (length txt) e = Inr e' \<and> buf_ok e' \<and> contents e' = xs"
proof -
  let ?txt = "enc_loop xs"
  obtain b' where b': "encode al xs b = Inr b'" "buf_ok b'" "contents b' = contents b @ ?txt"
    using reserve_write [OF assms(1,2), of ?txt] by (auto simp: encode_def enc_loop_length)
  have "length ?txt div 4 * 3 + 4 \<le> length xs + 8" "length ?txt < 2 ^ 31"
    using assms(7) unfolding enc_loop_length by simp_all
  with assms(6) have "fits_u32 al e (length ?txt div 4 * 3 + 4)" "length ?txt < 2 ^ 31"
    by (simp_all add: fits_u32_def)
  then obtain e' where "rbind (reserve al (u32 (length ?txt div 4 * 3 + 4)) e) (write_front xs) = Inr e'"
      "buf_ok e'" "contents e' = xs"
    using decode_into [OF assms(4,5) _ _ enc_room] by blast
  with dec_bytes_enc [OF assms(3,8)] have "decode al (?txt @ rest) (length ?txt) e = Inr e'"
    by (simp add: decode_def)
  with b' \<open>buf_ok e'\<close> \<open>contents e' = xs\<close> show ?thesis using enc_loop_length by blast
qed

theorem base64_roundtrip_witness:
  "\<exists>b' txt e'. encode alloc_any [1, 2, 3, 250] empty_buffer = Inr b' \<and> buf_ok b' \<and>
     contents b' = contents empty_buffer @ txt \<and> length txt = (length [1, 2, 3, 250 :: byte] + 2) div 3 * 4 \<and>
     decode alloc_any (txt @ [0]) (length txt) empty_buffer = Inr e' \<and> buf_ok e' \<and>
     contents e' = [1, 2, 3, 250]"
proof (rule base64_roundtrip)
  show "ends_text [0]" by (rule ends_text_NUL)
qed (simp_all add: fits_u32_def alloc_any_def empty_buffer_def buf_ok_def)

text \<open>Round trip of the URL-safe variant, which needs no padding: for every data, the empty
  one included, and whatever memory follows the text.\<close>

theorem base64url_roundtrip:
  assumes "buf_ok b" "fits_u32 al b (2 + (length xs + 2) div 3 * 4)"
    and "buf_ok e" "m_offset e = 0" "fits_u32 al e (length xs + 8)" "length xs < 2 ^ 30"
  shows "\<exists>b' txt e'. url_encode al xs b = Inr b' \<and> buf_ok b' \<and> contents b' = contents b @ txt \<and>
     length txt = (length xs * 4 + 2) div 3 \<and>
     url_decode al (txt @ rest) (length txt) e = Inr e' \<and> buf_ok e' \<and> contents e' = xs"
proof -
  let ?txt = "url_enc_loop xs"
  obtain b' where b': "url_encode al xs b = Inr b'" "buf_ok b'" "contents b' = contents b @ ?txt"
    using reserve_write [OF assms(1,2), of ?txt] encode_room [of xs ?txt] by (auto simp: url_encode_def)
  have "length ?txt div 4 * 3 + 4 \<le> length xs + 8" "length ?txt < 2 ^ 31"
    using assms(6) unfolding url_enc_loop_length by simp_all
  with assms(5) have "fits_u32 al e (length ?txt div 4 * 3 + 4)" "length ?txt < 2 ^ 31"
    by (simp_all add: fits_u32_def)
  then obtain e' where "rbind (reserve al (u32 (length ?txt div 4 * 3 + 4)) e) (write_front xs) = Inr e'"
      "buf_ok e'" "contents e' = xs"
    using decode_into [OF assms(3,4) _ _ url_enc_room] by blast
  with url_dec_bytes_enc have "url_decode al (?txt @ rest) (length ?txt) e = Inr e'"
    by (simp add: url_decode_def)
  with b' \<open>buf_ok e'\<close> \<open>contents e' = xs\<close> show ?thesis using url_enc_loop_length by blast
qed

theorem base64url_roundtrip_witness:
  "\<exists>b' txt e'. url_encode alloc_any [1, 2] empty_buffer = Inr b' \<and> buf_ok b' \<and>
     contents b' = contents empty_buffer @ txt \<and> length txt = (length [1, 2 :: byte] * 4 + 2) div 3 \<and>
     url_decode alloc_any (txt @ [9]) (length txt) empty_buffer = Inr e' \<and> buf_ok e' \<and>
     contents e' = [1, 2]"
  by (rule base64url_roundtrip) (simp_all add: fits_u32_def alloc_any_def empty_buffer_def buf_ok_def)

text \<open>The empty text is not accepted as the encoding of the empty data: the size wraps below zero
  and three bytes made of the table's invalid marks come out, read past the terminator.\<close>

lemma decode_empty: "dec_bytes [0, 0, 0, 0] 0 = Inr [4, 16, 64]" "dec_bytes [0] 0 = Inl OutOfBoundsRead"
proof -
  have "scan_tail 6 mem 0 = Inr 0" if "mem = [0, 0, 0, 0] \<or> mem = [0]" for mem
    using that by (auto simp: numeral_eq_Suc lk_NUL byte_of_char_def)
  moreover have "sub64 0 0 = 0" by (simp add: sub64_def)
  moreover have "join0 64 64 = 4" "join1 64 64 = 16" "join2 64 64 = 64" by code_simp+
  ultimately show "dec_bytes [0, 0, 0, 0] 0 = Inr [4, 16, 64]" "dec_bytes [0] 0 = Inl OutOfBoundsRead"
    by (simp_all add: dec_bytes_def dec_loop_done dec_tail_def emit_tail_def lk_NUL at_def)
qed

interpretation b64url: codec "url_enc_loop" "\<lambda>t. url_dec_bytes t (length t)" "\<lambda>_. True"
  by unfold_locales (use url_dec_bytes_enc [where rest = "[]"] in simp)

interpretation b64: codec "\<lambda>xs. enc_loop xs @ [0]" "\<lambda>t. dec_bytes t (length t - 1)" "\<lambda>xs. xs \<noteq> []"
proof
  fix xs :: bytes assume "xs \<noteq> []"
  moreover have "ends_text [0]" by (rule ends_text_NUL)
  ultimately show "dec_bytes (enc_loop xs @ [0]) (length (enc_loop xs @ [0]) - 1) = Inr xs"
    using dec_bytes_enc by simp
qed

end
