(* ===== verification/Url.thy ===== *)
theory Url
  imports Buffer_Store
begin

text \<open>
  \<open>libs/base/src/url.cpp\<close>: percent encoding. \<open>URL::encode\<close> allocates three bytes for every
  input byte and terminates what it wrote, so an input of which every byte is escaped (the empty
  one included) makes the terminator fall one byte past the allocation: \<open>OutOfBoundsWrite\<close>.
\<close>

definition hexchars :: string where
  "hexchars = ''0123456789ABCDEF''"

text \<open>\<open>strchr\<close> also finds the terminator of its string, so the byte 0 is not escaped.\<close>

definition plain :: "byte \<Rightarrow> bool" where
  "plain b \<longleftrightarrow> is_alnum (char_of_byte b) \<or> char_of_byte b \<in> set (''-_.~'' @ [NUL])"

definition hex_digit :: "byte \<Rightarrow> byte" where
  "hex_digit n = byte_of_char (hexchars ! unat n)"

definition escape :: "byte \<Rightarrow> bytes" where
  "escape b = [37, hex_digit (drop_bit 4 (b AND 0xF0)), hex_digit (b AND 0x0F)]"

primrec url_enc :: "bytes \<Rightarrow> bytes" where
  "url_enc [] = []"
| "url_enc (b # bs) = (if \<not> plain b then escape b else [b]) @ url_enc bs"

text \<open>The text goes into a \<open>String\<close>, whose length has 32 bits.\<close>

definition url_encode_data :: "bytes \<Rightarrow> bytes result" where
  "url_encode_data bs =
     (let out = url_enc bs in
      if length out < 3 * length bs then Inr (take (u32 (length out)) out) else Inl OutOfBoundsWrite)"

definition hex_char :: "byte \<Rightarrow> bool" where
  "hex_char b \<longleftrightarrow> 48 \<le> b \<and> b \<le> 57 \<or> 97 \<le> b \<and> b \<le> 102 \<or> 65 \<le> b \<and> b \<le> 70"

definition hex_value :: "byte \<Rightarrow> byte" where
  "hex_value b =
     (if 48 \<le> b \<and> b \<le> 57 then b - 48
      else if 97 \<le> b \<and> b \<le> 102 then b - 97 + 10
      else b - 65 + 10)"

text \<open>The loop of \<open>urlDecode\<close> from \<open>start\<close> to \<open>end\<close>: its \<open>start + 2 < end\<close> is "two more bytes follow".\<close>

fun url_dec :: "bytes \<Rightarrow> bytes" where
  "url_dec [] = []"
| "url_dec (b # bs) =
     (if b = 37 \<and> length bs \<ge> 2 then
        (if hex_char (bs ! 0) \<and> hex_char (bs ! 1)
         then (push_bit 4 (hex_value (bs ! 0)) OR hex_value (bs ! 1)) # url_dec (drop 2 bs)
         else b # url_dec bs)
      else if b = 43 then 32 # url_dec bs
      else b # url_dec bs)"

text \<open>\<open>URL::decode\<close> passes its length as an \<open>int\<close>: the end is \<open>(int) len\<close> bytes after the start, before it
  when that is negative.\<close>

definition url_decode :: "bytes \<Rightarrow> bytes" where
  "url_decode bs =
     (let n = int32 (length bs) in if n \<le> 0 then [] else url_dec (take (nat n) bs))"

lemma url_decode_small: "length bs < 2 ^ 31 \<Longrightarrow> url_decode bs = url_dec bs"
  by (simp add: url_decode_def int32_small)

lemma hex_digit_value: "n < 16 \<Longrightarrow> hex_char (hex_digit n) \<and> hex_value (hex_digit n) = n \<and> plain (hex_digit n)"
proof -
  have "list_all (\<lambda>n. hex_char (hex_digit (of_nat n)) \<and> hex_value (hex_digit (of_nat n)) = of_nat n
      \<and> plain (hex_digit (of_nat n))) [0..<16]" by code_simp
  moreover assume "n < 16"
  then have "unat n \<in> set [0..<16]" by (simp add: word_less_nat_alt)
  ultimately have "hex_char (hex_digit (of_nat (unat n))) \<and> hex_value (hex_digit (of_nat (unat n))) = of_nat (unat n)
      \<and> plain (hex_digit (of_nat (unat n)))" by (simp only: list_all_iff)
  then show ?thesis by simp
qed

lemma nibbles: "drop_bit 4 (b AND 0xF0) < (16 :: byte)" "b AND 0x0F < (16 :: byte)"
    "push_bit 4 (drop_bit 4 (b AND 0xF0)) OR (b AND 0x0F) = (b :: byte)"
proof -
  have "drop_bit 4 (b AND 0xF0) < (16 :: byte) \<and> b AND 0x0F < (16 :: byte) \<and>
      push_bit 4 (drop_bit 4 (b AND 0xF0)) OR (b AND 0x0F) = b"
    by (rule all_bytes [where P = "\<lambda>b. drop_bit 4 (b AND 0xF0) < (16 :: byte) \<and> b AND 0x0F < (16 :: byte) \<and>
      push_bit 4 (drop_bit 4 (b AND 0xF0)) OR (b AND 0x0F) = b"]) code_simp
  then show "drop_bit 4 (b AND 0xF0) < (16 :: byte)" "b AND 0x0F < (16 :: byte)"
    "push_bit 4 (drop_bit 4 (b AND 0xF0)) OR (b AND 0x0F) = b" by blast+
qed

lemma escape_parts: "\<exists>y z. escape b = [37, y, z] \<and> hex_char y \<and> hex_char z \<and> plain y \<and> plain z \<and>
     push_bit 4 (hex_value y) OR hex_value z = b"
  using nibbles [of b] hex_digit_value by (simp only: escape_def) metis

lemma plain_not_special: "plain b \<Longrightarrow> b \<noteq> 37 \<and> b \<noteq> 43"
proof -
  have "\<not> plain 37" "\<not> plain 43" by code_simp+
  then show "plain b \<Longrightarrow> b \<noteq> 37 \<and> b \<noteq> 43" by metis
qed

lemma url_dec_enc: "url_dec (url_enc bs) = bs"
proof (induction bs)
  case (Cons b bs)
  obtain y z where "escape b = [37, y, z]" "hex_char y" "hex_char z"
      "push_bit 4 (hex_value y) OR hex_value z = b"
    using escape_parts [of b] by blast
  then show ?case using Cons plain_not_special [of b] by simp
qed simp

lemma escape_length [simp]: "length (escape b) = 3"
  by (simp add: escape_def)

lemma url_enc_length: "length (url_enc bs) \<le> 3 * length bs"
  by (induction bs) auto

lemma url_enc_full: "length (url_enc bs) = 3 * length bs \<longleftrightarrow> list_all (\<lambda>b. \<not> plain b) bs"
proof (induction bs)
  case (Cons b bs)
  with url_enc_length [of bs] show ?case by auto
qed simp

lemma url_dec_length: "length (url_dec bs) \<le> length bs"
  by (induction bs rule: url_dec.induct) (auto split: if_splits)

lemma url_encode_data_cases:
  "3 * length bs < 2 ^ 32 \<Longrightarrow>
   url_encode_data bs = (if list_all (\<lambda>b. \<not> plain b) bs then Inl OutOfBoundsWrite else Inr (url_enc bs))"
  using url_enc_length [of bs] url_enc_full [of bs] by (auto simp: url_encode_data_def Let_def)

section \<open>Properties\<close>

text \<open>C40: percent encoding, for inputs of at most \<open>2 ^ 31 / 3\<close> bytes: it overruns its allocation exactly
  when no byte of the input is left unescaped (the empty input included); otherwise its text, shorter than
  three times the input, consists of letters, digits, \<open>-_.~\<close>, bytes 0 (which \<open>strchr\<close> takes for one of
  these) and percent signs, and decoding it gives back the input. A text of two to four gigabytes decodes
  to nothing.\<close>

theorem url_roundtrip:
  assumes "3 * length bs \<le> 2 ^ 31" "2 ^ 31 \<le> length t" "length t < 2 ^ 32"
  shows "(case url_encode_data bs of
      Inl e \<Rightarrow> e = OutOfBoundsWrite \<and> list_all (\<lambda>b. \<not> plain b) bs
    | Inr txt \<Rightarrow> \<not> list_all (\<lambda>b. \<not> plain b) bs \<and> url_decode txt = bs \<and>
        length txt < 3 * length bs \<and> list_all (\<lambda>c. plain c \<or> c = 37) txt) \<and>
    url_decode t = []"
proof -
  have "list_all (\<lambda>c. plain c \<or> c = 37) (escape b)" for b
    using escape_parts [of b] by auto
  then have "list_all (\<lambda>c. plain c \<or> c = 37) (url_enc bs)"
    by (induction bs) auto
  moreover have "3 * length bs < 2 ^ 32" using assms(1) by simp
  moreover have "url_decode (url_enc bs) = bs" if "length (url_enc bs) < 3 * length bs"
    using that assms(1) url_dec_enc [of bs] by (simp add: url_decode_small)
  moreover have "url_decode t = []" using int32_large [OF assms(2,3)] assms(3) by (simp add: url_decode_def)
  ultimately show ?thesis using url_enc_length [of bs] url_enc_full [of bs]
    by (auto simp: url_encode_data_cases)
qed

theorem url_roundtrip_witness:
  "url_encode_data [32, 65] = Inr [37, 50, 48, 65] \<and> url_decode [37, 50, 48, 65] = [32, 65] \<and>
   url_decode (replicate (2 ^ 31) 0) = []"
proof -
  have "url_enc [32, 65] = [37, 50, 48, 65]" by code_simp
  then have e: "url_encode_data [32, 65] = Inr [37, 50, 48, 65]" by (simp add: url_encode_data_def)
  have l: "2 ^ 31 \<le> length (replicate (2 ^ 31) (0 :: byte))" "length (replicate (2 ^ 31) (0 :: byte)) < 2 ^ 32"
    by (simp_all only: length_replicate) simp
  have "3 * length [32, 65 :: byte] \<le> 2 ^ 31" by simp
  note r = url_roundtrip [OF this l]
  have "url_decode [37, 50, 48, 65] = [32, 65]" using conjunct1 [OF r] unfolding e by simp
  then show ?thesis using e conjunct2 [OF r] by blast
qed

interpretation url: codec url_enc "\<lambda>t. Inr (url_dec t)" "\<lambda>_. True"
  by unfold_locales (simp add: url_dec_enc)

end
