(* ===== verification/Str.thy ===== *)
theory Str
  imports Buffer_Store
begin

text \<open>
  \<open>suil::String\<close> (\<open>libs/base/src/string.cpp\<close>, \<open>string.hpp\<close>): a pointer, a length and an
  ownership flag. \<open>m_cstr\<close> is the memory readable from the pointer up to and without the
  terminator that ends the underlying storage (\<open>None\<close>: the null pointer), so that a view into a
  longer string keeps what follows it: the operations that use \<open>strchr\<close>, \<open>strstr\<close> or
  \<open>strncmp\<close> see that memory, not only the first \<open>m_len\<close> characters. Reading at the end of the
  memory reads the terminator; reading past it is \<open>OutOfBoundsRead\<close>. The result \<open>npos\<close> is \<open>None\<close>.
\<close>

record str =
  m_cstr :: "string option"
  m_len :: nat
  m_own :: bool

definition mem :: "str \<Rightarrow> string" where
  "mem s = (case m_cstr s of None \<Rightarrow> [] | Some m \<Rightarrow> m)"

definition text_of :: "str \<Rightarrow> string" where
  "text_of s = take (m_len s) (mem s)"

definition str_ok :: "str \<Rightarrow> bool" where
  "str_ok s \<longleftrightarrow> m_len s \<le> length (mem s) \<and> m_len s < 2 ^ 32"

text \<open>A string that is its whole storage and has no embedded terminator: what a literal, \<open>dup\<close>
  and the copies give.\<close>

definition whole :: "str \<Rightarrow> bool" where
  "whole s \<longleftrightarrow> m_len s = length (mem s) \<and> m_len s < 2 ^ 32 \<and> NUL \<notin> set (mem s)"

section \<open>Construction\<close>

definition null_str :: str where
  "null_str = \<lparr>m_cstr = None, m_len = 0, m_own = False\<rparr>"

definition of_cstr :: "string option \<Rightarrow> str" where
  "of_cstr p = \<lparr>m_cstr = p, m_len = u32 (case p of None \<Rightarrow> 0 | Some m \<Rightarrow> length (c_str m)), m_own = False\<rparr>"

definition of_view :: "string option \<Rightarrow> nat \<Rightarrow> bool \<Rightarrow> str" where
  "of_view p n own = \<lparr>m_cstr = p, m_len = u32 n, m_own = own\<rparr>"

definition of_char_n :: "char \<Rightarrow> nat \<Rightarrow> str" where
  "of_char_n c n = \<lparr>m_cstr = Some (replicate n c), m_len = u32 n, m_own = True\<rparr>"

definition str_empty :: "str \<Rightarrow> bool" where
  "str_empty s \<longleftrightarrow> m_cstr s = None \<or> m_len s = 0"

definition duplicate :: "string option \<Rightarrow> nat \<Rightarrow> string option" where
  "duplicate p n = (case p of None \<Rightarrow> None | Some m \<Rightarrow> if n = 0 then None else Some (take n m))"

definition copy_str :: "str \<Rightarrow> str" where
  "copy_str s = \<lparr>m_cstr = duplicate (m_cstr s) (m_len s), m_len = m_len s, m_own = True\<rparr>"

definition copy_assign :: "str \<Rightarrow> str" where
  "copy_assign s = \<lparr>m_cstr = duplicate (m_cstr s) (m_len s), m_len = m_len s, m_own = m_own s\<rparr>"

definition move_str :: "str \<Rightarrow> str \<times> str" where
  "move_str s = (s, \<lparr>m_cstr = None, m_len = 0, m_own = False\<rparr>)"

definition dup :: "str \<Rightarrow> str" where
  "dup s =
     (if m_cstr s = None \<or> m_len s = 0 then of_cstr None
      else of_view (duplicate (m_cstr s) (m_len s)) (m_len s) True)"

definition peek :: "str \<Rightarrow> str" where
  "peek s = of_view (m_cstr s) (m_len s) False"

definition str_of_buffer :: "buffer \<Rightarrow> bool \<Rightarrow> (str \<times> buffer) result" where
  "str_of_buffer b own =
     (if own then
        rbind (release b) (\<lambda>(d, b').
          Inr (\<lparr>m_cstr = map_option (\<lambda>x. string_of_bytes (take (m_offset b) x)) d,
                m_len = u32 (m_offset b), m_own = True\<rparr>, b'))
      else
        Inr (\<lparr>m_cstr = map_option string_of_bytes (m_data b), m_len = u32 (m_offset b), m_own = False\<rparr>, b))"

section \<open>Case\<close>

definition map_prefix :: "(char \<Rightarrow> char) \<Rightarrow> str \<Rightarrow> str" where
  "map_prefix f s =
     s\<lparr>m_cstr := map_option (\<lambda>m. map f (take (m_len s) m) @ drop (m_len s) m) (m_cstr s)\<rparr>"

definition toupper :: "str \<Rightarrow> str" where
  "toupper s = map_prefix to_upper s"

definition tolower :: "str \<Rightarrow> str" where
  "tolower s = map_prefix to_lower s"

section \<open>Comparison\<close>

definition str_eq :: "str \<Rightarrow> str \<Rightarrow> bool" where
  "str_eq a b =
     (if str_empty a \<or> str_empty b then str_empty a \<and> str_empty b
      else if m_len a = m_len b then strncmp_eq (mem a) (mem b) (m_len a)
      else False)"

definition starts_with :: "str \<Rightarrow> str \<Rightarrow> bool \<Rightarrow> bool" where
  "starts_with a s igc =
     (if m_len a < m_len s then False
      else if igc then strncasecmp_eq (mem a) (mem s) (m_len s)
      else strncmp_eq (mem a) (mem s) (m_len s))"

section \<open>Searching\<close>

text \<open>\<open>while (m_str[i++] != ch) if (i == m_len) return -1;\<close> with \<open>i\<close> the characters looked at. (The counter
  is an \<open>int\<close>: this is the function for strings below \<open>2 ^ 31\<close> characters.)\<close>

fun find_loop :: "string \<Rightarrow> nat \<Rightarrow> char \<Rightarrow> nat \<Rightarrow> nat option" where
  "find_loop [] n ch i = None"
| "find_loop (c # m) n ch i =
     (if c = ch then Some i else if i + 1 = n then None else find_loop m n ch (i + 1))"

definition find_char :: "str \<Rightarrow> char \<Rightarrow> nat option" where
  "find_char s ch = (if m_len s > 0 then find_loop (mem s) (m_len s) ch 0 else None)"

fun rfind_loop :: "string \<Rightarrow> char \<Rightarrow> nat \<Rightarrow> nat option" where
  "rfind_loop m ch 0 = None"
| "rfind_loop m ch (Suc i) =
     (if m ! i = ch then Some i else if i = 0 then None else rfind_loop m ch i)"

text \<open>The search from the end begins at \<open>(int) m_len\<close>, which is negative from \<open>2 ^ 31\<close> on.\<close>

definition rfind_char :: "str \<Rightarrow> char \<Rightarrow> nat option result" where
  "rfind_char s ch =
     (if m_len s = 0 then Inr None
      else if m_len s < 2 ^ 31 then Inr (rfind_loop (mem s) ch (m_len s))
      else if m_len s = 2 ^ 31 then Inl IntegerOverflow
      else Inl OutOfBoundsRead)"

text \<open>\<open>for (; (p = strchr(p, str[0])) != nullptr; p++) if (strncmp(p, &str[0], len) == 0) return p - m_cstr;\<close>
  The scan goes to the terminator of the storage, not to the end of the view.\<close>

fun find_str_loop :: "string \<Rightarrow> string \<Rightarrow> nat \<Rightarrow> nat \<Rightarrow> nat option" where
  "find_str_loop [] pat n i = (if cur pat = NUL \<and> strncmp_eq [] pat n then Some i else None)"
| "find_str_loop (c # m) pat n i =
     (if c = cur pat \<and> strncmp_eq (c # m) pat n then Some i
      else if c = NUL then None
      else find_str_loop m pat n (i + 1))"

definition find_str :: "str \<Rightarrow> str \<Rightarrow> nat option" where
  "find_str s pat =
     (if str_empty s then None
      else if str_empty pat then Some 0
      else find_str_loop (mem s) (mem pat) (m_len pat) 0)"

definition substr :: "str \<Rightarrow> nat \<Rightarrow> nat \<Rightarrow> bool \<Rightarrow> str" where
  "substr s from nchars zc =
     (let fits = sub64 (m_len s) from;
          n = (if nchars \<noteq> 0 then nchars else fits)
      in if n \<noteq> 0 \<and> fits \<ge> n then
           let tmp = of_view (map_option (drop from) (m_cstr s)) n False
           in if zc then tmp else dup tmp
         else null_str)"

definition chunk :: "str \<Rightarrow> char \<Rightarrow> bool \<Rightarrow> str result" where
  "chunk s ch backwards =
     rbind (if backwards then rfind_char s ch else Inr (find_char s ch)) (\<lambda>pos.
     case pos of
       None \<Rightarrow> Inr null_str
     | Some from \<Rightarrow> Inr (of_view (map_option (drop from) (m_cstr s)) (m_len s - from) False))"

text \<open>\<open>for (; pos != npos; pos = substr(0, pos).rfind(str[0]))\<close>: the loop of \<open>rfind\<close> on a string, with
  fuel; \<open>None\<close> is running out of it.\<close>

fun rfind_str_loop :: "nat \<Rightarrow> str \<Rightarrow> str \<Rightarrow> nat option result \<Rightarrow> nat option result option" where
  "rfind_str_loop 0 s pat pos = None"
| "rfind_str_loop (Suc fuel) s pat (Inl e) = Some (Inl e)"
| "rfind_str_loop (Suc fuel) s pat (Inr None) = Some (Inr None)"
| "rfind_str_loop (Suc fuel) s pat (Inr (Some p)) =
     (if starts_with (substr s p 0 True) pat False then Some (Inr (Some p))
      else rfind_str_loop fuel s pat (rfind_char (substr s 0 p True) (cur (mem pat))))"

definition rfind_str :: "nat \<Rightarrow> str \<Rightarrow> str \<Rightarrow> nat option result option" where
  "rfind_str fuel s pat =
     (if str_empty s then Some (Inr None)
      else if str_empty pat then Some (Inr (Some 0))
      else rfind_str_loop fuel s pat (rfind_char s (cur (mem pat))))"

text \<open>\<open>from\<close> is unsigned, so the test \<open>from < 0\<close> never holds: a longer part makes the view
  start before the string.\<close>

definition endswith :: "str \<Rightarrow> string option \<Rightarrow> bool result" where
  "endswith s part =
     (case part of
        None \<Rightarrow> Inr False
      | Some p \<Rightarrow>
          let tmp = of_cstr (Some p); from = sub64 (m_len s) (m_len tmp)
          in if from > m_len s then Inl OutOfBoundsRead
             else Inr (str_eq (substr s from 0 True) tmp))"

definition ishex :: "str \<Rightarrow> int \<Rightarrow> bool" where
  "ishex s check =
     (if check < 0 then list_all (\<lambda>c. c \<in> set ''0123456789abcdef'') (text_of s)
      else if check > 0 then list_all (\<lambda>c. c \<in> set ''0123456789ABCDEF'') (text_of s)
      else list_all (\<lambda>c. c \<in> set ''0123456789abcdefABCDEF'') (text_of s))"

definition char_at :: "str \<Rightarrow> nat \<Rightarrow> char result" where
  "char_at s i = (if i < m_len s then Inr (mem s ! i) else Inl IndexOutOfBounds)"

definition front_char :: "str \<Rightarrow> char" where
  "front_char s = (if str_empty s then NUL else mem s ! 0)"

definition back_char :: "str \<Rightarrow> char" where
  "back_char s = (if str_empty s then NUL else mem s ! (m_len s - 1))"

section \<open>Stripping\<close>

fun skip_fwd :: "string \<Rightarrow> char \<Rightarrow> nat \<Rightarrow> nat result" where
  "skip_fwd [] c i = (if c = NUL then Inl OutOfBoundsRead else Inr i)"
| "skip_fwd (x # m) c i = (if c = x then skip_fwd m c (i + 1) else Inr i)"

text \<open>\<open>while (strip == *e) e--; e++\<close>, from the last character; the loop has no lower bound.\<close>

fun skip_back :: "string \<Rightarrow> char \<Rightarrow> nat \<Rightarrow> nat result" where
  "skip_back m c 0 = Inl OutOfBoundsRead"
| "skip_back m c (Suc e) = (if c = m ! e then skip_back m c e else Inr (Suc e))"

definition strip :: "str \<Rightarrow> char \<Rightarrow> bool \<Rightarrow> string result" where
  "strip s c ends =
     (if m_cstr s = None then Inl NullDereference
      else
        rbind (skip_fwd (mem s) c 0) (\<lambda>from.
        rbind (skip_back (mem s) c (m_len s)) (\<lambda>to.
        let piece = take (to - from) (drop from (mem s)) in
        Inr (if ends then piece else List.filter (\<lambda>x. x \<noteq> c) piece))))"

section \<open>Splitting\<close>

text \<open>\<open>strstr\<close>: the offset of the first occurrence before the terminator. With the empty delimiter
  the sources walk to the terminator instead.\<close>

fun strstr :: "string \<Rightarrow> string \<Rightarrow> nat option" where
  "strstr [] d = (if d = [] then Some 0 else None)"
| "strstr (c # m) d =
     (if strncmp_eq (c # m) d (length d) then Some 0
      else if c = NUL then None
      else map_option Suc (strstr m d))"

definition cmp :: "string \<Rightarrow> string \<Rightarrow> nat option" where
  "cmp p d = (if d = [] then Some (length (c_str p)) else strstr p d)"

definition delim_len :: "string \<Rightarrow> nat" where
  "delim_len d = (if d = [] then 1 else length d)"

text \<open>\<open>parts\<close>: pointers are offsets into the memory; \<open>eptr\<close> is the length. Every round moves
  \<open>ptr\<close>, so the number of characters left is fuel enough.\<close>

fun parts_loop :: "nat \<Rightarrow> string \<Rightarrow> nat \<Rightarrow> string \<Rightarrow> nat \<Rightarrow> (string list \<times> nat) option" where
  "parts_loop 0 m eptr d ptr = None"
| "parts_loop (Suc fuel) m eptr d ptr =
     (case cmp (drop ptr m) d of
        None \<Rightarrow> Some ([], ptr)
      | Some k \<Rightarrow>
          if ptr + k < eptr then
            map_option (\<lambda>(out, p). (take k (drop ptr m) # out, p))
              (parts_loop fuel m eptr d (ptr + k + delim_len d))
          else Some ([], ptr))"

definition parts :: "str \<Rightarrow> string option \<Rightarrow> string list option result" where
  "parts s delim =
     (if m_cstr s = None \<and> delim \<noteq> None \<and> delim \<noteq> Some [] then Inl NullDereference
      else Inr
        (map_option (\<lambda>(out, ptr).
           if ptr < m_len s then out @ [take (m_len s - ptr) (drop ptr (mem s))] else out)
         (case delim of
            None \<Rightarrow> Some ([], 0)
          | Some d \<Rightarrow> parts_loop (Suc (m_len s)) (mem s) (m_len s) d 0)))"

text \<open>\<open>split\<close> differs in its loop: it goes on while \<open>cmp\<close> finds something, makes no progress
  when what it finds is the end of the string, and does not stop at the end of the view.\<close>

fun split_loop :: "nat \<Rightarrow> string \<Rightarrow> nat \<Rightarrow> string \<Rightarrow> nat \<Rightarrow> nat \<Rightarrow> (string list \<times> nat) option" where
  "split_loop 0 m eptr d ap ptr = None"
| "split_loop (Suc fuel) m eptr d ap ptr =
     (case cmp (drop ap m) d of
        None \<Rightarrow> Some ([], ptr)
      | Some k \<Rightarrow>
          if ap + k \<noteq> eptr then
            map_option (\<lambda>(out, p). (take (ap + k - ptr) (drop ptr m) # out, p))
              (split_loop fuel m eptr d (ap + k + delim_len d) (ap + k + delim_len d))
          else split_loop fuel m eptr d (ap + k) ptr)"

text \<open>What is left after the last delimiter; past the end of the view its length wraps and the
  copy reads out of bounds.\<close>

definition last_piece :: "string list \<Rightarrow> string \<Rightarrow> nat \<Rightarrow> nat \<Rightarrow> string list result" where
  "last_piece out m len ptr =
     (if ptr = len then Inr out
      else if ptr > len then Inl OutOfBoundsRead
      else Inr (out @ [take (len - ptr) (drop ptr m)]))"

definition split :: "nat \<Rightarrow> str \<Rightarrow> string option \<Rightarrow> string list result option" where
  "split fuel s delim =
     (if m_cstr s = None \<and> delim \<noteq> None \<and> delim \<noteq> Some [] then Some (Inl NullDereference)
      else
        map_option (\<lambda>(out, ptr). last_piece out (mem s) (m_len s) ptr)
         (case delim of
            None \<Rightarrow> Some ([], 0)
          | Some d \<Rightarrow> split_loop fuel (mem s) (m_len s) d 0 0))"

text \<open>\<open>tokenize\<close> also overwrites the first byte of every delimiter it finds in the string itself.\<close>

fun tokenize_loop :: "nat \<Rightarrow> string \<Rightarrow> nat \<Rightarrow> string \<Rightarrow> nat \<Rightarrow> nat \<Rightarrow> (string list \<times> nat \<times> string) option" where
  "tokenize_loop 0 m eptr d ap ptr = None"
| "tokenize_loop (Suc fuel) m eptr d ap ptr =
     (case cmp (drop ap m) d of
        None \<Rightarrow> Some ([], ptr, m)
      | Some k \<Rightarrow>
          if ap + k \<noteq> eptr then
            map_option (\<lambda>(out, p, m'). (take (ap + k - ptr) (drop ptr m) # out, p, m'))
              (tokenize_loop fuel (m[ap + k := NUL]) eptr d (ap + k + delim_len d) (ap + k + delim_len d))
          else tokenize_loop fuel m eptr d (ap + k) ptr)"

definition tokenize :: "nat \<Rightarrow> str \<Rightarrow> string option \<Rightarrow> (string list \<times> str) result option" where
  "tokenize fuel s delim =
     (if \<not> m_own s then Some (Inl UnsupportedOperation)
      else if m_cstr s = None \<and> delim \<noteq> None \<and> delim \<noteq> Some [] then Some (Inl NullDereference)
      else
        map_option (\<lambda>(out, ptr, m).
            rbind (last_piece out m (m_len s) ptr) (\<lambda>ps. Inr (ps, s\<lparr>m_cstr := map_option (\<lambda>_. m) (m_cstr s)\<rparr>)))
         (case delim of
            None \<Rightarrow> Some ([], 0, mem s)
          | Some d \<Rightarrow> tokenize_loop fuel (mem s) (m_len s) d 0 0))"

section \<open>Numbers\<close>

definition digit_value :: "char \<Rightarrow> nat option" where
  "digit_value c =
     (if is_digit c then Some (ord c - 48)
      else if is_lower c then Some (ord c - 87)
      else if is_upper c then Some (ord c - 55)
      else None)"

definition digit_of :: "nat \<Rightarrow> char \<Rightarrow> nat option" where
  "digit_of base c = (case digit_value c of Some v \<Rightarrow> if v < base then Some v else None | None \<Rightarrow> None)"

fun read_digits :: "nat \<Rightarrow> string \<Rightarrow> nat \<Rightarrow> nat \<times> string" where
  "read_digits base [] acc = (acc, [])"
| "read_digits base (c # s) acc =
     (case digit_of base c of Some v \<Rightarrow> read_digits base s (acc * base + v) | None \<Rightarrow> (acc, c # s))"

text \<open>\<open>strtoll\<close> in the C locale: the value and the rest of the string, \<open>None\<close> when \<open>errno\<close> is set
  (value out of range of \<open>long long\<close>); without digits the rest is the whole string.\<close>

definition strip_0x :: "nat \<Rightarrow> string \<Rightarrow> nat \<times> string" where
  "strip_0x base s =
     (let hex = length s > 2 \<and> s ! 0 = CHR ''0'' \<and> s ! 1 \<in> {CHR ''x'', CHR ''X''} \<and> is_xdigit (s ! 2)
      in if (base = 0 \<or> base = 16) \<and> hex then (16, drop 2 s)
         else if base = 0 then (if cur s = CHR ''0'' then (8, s) else (10, s))
         else (base, s))"

definition strtoll :: "string \<Rightarrow> nat \<Rightarrow> (int \<times> string) option" where
  "strtoll s base =
     (let t = dropWhile is_space s;
          neg = (cur t = CHR ''-'');
          u = (if cur t = CHR ''-'' \<or> cur t = CHR ''+'' then tl t else t);
          (b, v) = strip_0x base u;
          (n, rest) = read_digits b v 0;
          val = (if neg then - int n else int n)
      in if rest = v then Some (0, s)
         else if val < - (2 ^ 63) \<or> val > 2 ^ 63 - 1 then None
         else Some (val, rest))"

text \<open>\<open>ep\<close> points into the local copy, so the test \<open>str.data() == ep\<close> never holds; only the
  character at \<open>ep\<close> is checked. \<open>&str[0]\<close> of the empty string raises.\<close>

definition strtonum :: "str \<Rightarrow> nat \<Rightarrow> int \<Rightarrow> int \<Rightarrow> int result" where
  "strtonum s base mn mx =
     (if m_len s > 19 then Inl OutOfRange
      else if mn > mx then Inl OutOfRange
      else
        rbind (char_at s 0) (\<lambda>_.
        case strtoll (c_str (text_of s)) base of
          None \<Rightarrow> Inl InvalidArguments
        | Some (l, ep) \<Rightarrow>
            if cur ep \<noteq> CHR ''.'' \<and> cur ep \<noteq> NUL then Inl InvalidArguments
            else if l < mn then Inl OutOfRange
            else if l > mx then Inl OutOfRange
            else Inr l))"

section \<open>Lemmas\<close>

lemma length_text: "str_ok s \<Longrightarrow> length (text_of s) = m_len s"
  by (simp add: str_ok_def text_of_def)

lemma whole_ok: "whole s \<Longrightarrow> str_ok s" and whole_text: "whole s \<Longrightarrow> text_of s = mem s"
  by (simp_all add: whole_def str_ok_def text_of_def)

lemma whole_cases:
  "whole s \<Longrightarrow> str_empty s \<longleftrightarrow> mem s = []"
  by (auto simp: whole_def str_empty_def mem_def split: option.splits)

lemma find_loop_spec:
  "0 < k \<Longrightarrow> k \<le> length m \<Longrightarrow>
   find_loop m (i + k) ch i =
     (if ch \<in> set (take k m) then Some (i + length (takeWhile (\<lambda>c. c \<noteq> ch) m)) else None)"
proof (induction m arbitrary: i k)
  case (Cons c m)
  show ?case
  proof (cases "c = ch \<or> k = 1")
    case True
    then show ?thesis using Cons.prems by (cases k) auto
  next
    case False
    then have "0 < k - 1" "k - 1 \<le> length m" "i + k = Suc i + (k - 1)" using Cons.prems by auto
    with Cons.IH [of "k - 1" "Suc i"] False Cons.prems show ?thesis
      by (cases k) auto
  qed
qed simp

lemma find_char_spec:
  assumes "str_ok s"
  shows "find_char s ch =
    (if ch \<in> set (text_of s) then Some (length (takeWhile (\<lambda>c. c \<noteq> ch) (mem s))) else None)"
proof (cases "m_len s = 0")
  case True
  then show ?thesis by (simp add: find_char_def text_of_def)
next
  case False
  then show ?thesis using assms find_loop_spec [of "m_len s" "mem s" 0 ch]
    by (simp add: find_char_def text_of_def str_ok_def)
qed

lemma rfind_loop_spec:
  "n \<le> length m \<Longrightarrow>
   (case rfind_loop m ch n of
      None \<Rightarrow> ch \<notin> set (take n m)
    | Some i \<Rightarrow> i < n \<and> m ! i = ch \<and> (\<forall>j. i < j \<and> j < n \<longrightarrow> m ! j \<noteq> ch))"
proof (induction n)
  case (Suc n)
  show ?case
  proof (cases "m ! n = ch")
    case True
    then show ?thesis by auto
  next
    case False
    have "take (Suc n) m = take n m @ [m ! n]" using Suc.prems by (simp add: take_Suc_conv_app_nth)
    with False Suc show ?thesis
      by (cases "n = 0") (auto split: option.splits simp: less_Suc_eq)
  qed
qed simp

lemma rfind_char_Some:
  assumes "str_ok s" "rfind_char s ch = Inr (Some i)"
  shows "i < m_len s" "mem s ! i = ch" "\<And>j. i < j \<Longrightarrow> j < m_len s \<Longrightarrow> mem s ! j \<noteq> ch"
  using assms rfind_loop_spec [of "m_len s" "mem s" ch]
  by (auto simp: rfind_char_def str_ok_def split: if_splits)

lemma rfind_char_None:
  assumes "str_ok s" "rfind_char s ch = Inr None"
  shows "ch \<notin> set (text_of s)"
  using assms rfind_loop_spec [of "m_len s" "mem s" ch]
  by (auto simp: rfind_char_def str_ok_def text_of_def split: if_splits)

lemma strncmp_eq_full: "length s = length t \<Longrightarrow> NUL \<notin> set s \<Longrightarrow> strncmp_eq s t (length s) \<longleftrightarrow> s = t"
proof (induction s arbitrary: t)
  case (Cons c s)
  then show ?case by (cases t) auto
qed simp

lemma str_eq_iff:
  assumes "whole a" "whole b"
  shows "str_eq a b \<longleftrightarrow> text_of a = text_of b"
  using assms strncmp_eq_full [of "mem a" "mem b"]
  by (auto simp: str_eq_def whole_cases whole_text) (auto simp: whole_def)

lemma starts_with_iff:
  assumes "str_ok s" "NUL \<notin> set (mem s)" "whole pat"
  shows "starts_with s pat False \<longleftrightarrow> take (m_len pat) (text_of s) = mem pat"
proof -
  have "NUL \<notin> set (mem pat)" "length (mem pat) = m_len pat" using assms(3) by (auto simp: whole_def)
  with strncmp_eq_prefix [of "mem pat" "mem s"] length_text [OF assms(1)] assms(1) show ?thesis
    by (auto simp: starts_with_def text_of_def str_ok_def min_def not_less dest: arg_cong [where f = length])
qed

section \<open>Substrings and the search from the end\<close>

lemma u32_len: "n \<le> m_len s \<Longrightarrow> str_ok s \<Longrightarrow> u32 n = n"
  by (simp add: str_ok_def)

lemma mem_view [simp]: "mem (of_view p n own) = (case p of None \<Rightarrow> [] | Some m \<Rightarrow> m)"
  by (simp add: mem_def of_view_def)

lemma m_len_view [simp]: "m_len (of_view p n own) = u32 n"
  by (simp add: of_view_def)

lemma mem_Some: "0 < m_len s \<Longrightarrow> str_ok s \<Longrightarrow> m_cstr s = Some (mem s)"
  by (cases "m_cstr s") (auto simp: mem_def str_ok_def)

lemma substr_in:
  assumes "str_ok s" "0 < n" "from + n \<le> m_len s"
  shows "substr s from n True = of_view (Some (drop from (mem s))) n False"
proof -
  have "sub64 (m_len s) from = m_len s - from" using assms by (intro sub64_le) (auto simp: str_ok_def)
  with assms show ?thesis by (simp add: substr_def Let_def mem_Some)
qed

lemma substr_rest:
  assumes "str_ok s" "from < m_len s"
  shows "substr s from 0 True = of_view (Some (drop from (mem s))) (m_len s - from) False"
proof -
  have "sub64 (m_len s) from = m_len s - from" using assms by (intro sub64_le) (auto simp: str_ok_def)
  with assms mem_Some [of s] show ?thesis by (simp add: substr_def Let_def)
qed

lemma view_ok:
  assumes "str_ok s" "from + n \<le> m_len s"
  shows "str_ok (of_view (Some (drop from (mem s))) n own)"
    and "text_of (of_view (Some (drop from (mem s))) n own) = take n (drop from (text_of s))"
  using assms by (auto simp: str_ok_def text_of_def drop_take min_def)

definition occurs_at :: "str \<Rightarrow> str \<Rightarrow> nat \<Rightarrow> bool" where
  "occurs_at s pat p \<longleftrightarrow> p + m_len pat \<le> m_len s \<and> take (m_len pat) (drop p (mem s)) = mem pat"

definition last_occurrence :: "str \<Rightarrow> str \<Rightarrow> nat option \<Rightarrow> bool" where
  "last_occurrence s pat r =
     (case r of None \<Rightarrow> (\<forall>q < m_len s. \<not> occurs_at s pat q)
      | Some p \<Rightarrow> occurs_at s pat p \<and> (\<forall>q < m_len s. p < q \<longrightarrow> \<not> occurs_at s pat q))"

lemma starts_at:
  assumes "whole s" "whole pat" "p < m_len s"
  shows "starts_with (substr s p 0 True) pat False \<longleftrightarrow> occurs_at s pat p"
proof -
  let ?v = "of_view (Some (drop p (mem s))) (m_len s - p) False"
  have ok: "str_ok s" "NUL \<notin> set (mem s)" "length (mem s) = m_len s" "length (mem pat) = m_len pat"
    using assms by (auto simp: whole_def str_ok_def)
  have v: "str_ok ?v" "text_of ?v = drop p (mem s)" "NUL \<notin> set (mem ?v)"
    using view_ok [OF ok(1), of p "m_len s - p" False] assms ok
    by (auto simp: whole_text dest: in_set_dropD)
  have "starts_with (substr s p 0 True) pat False \<longleftrightarrow> take (m_len pat) (drop p (mem s)) = mem pat"
    using substr_rest [OF ok(1) assms(3)] starts_with_iff [OF v(1,3) assms(2)] v(2) by simp
  moreover have "p + m_len pat \<le> m_len s" if "take (m_len pat) (drop p (mem s)) = mem pat"
    using arg_cong [OF that, of length] ok assms(3) by simp
  ultimately show ?thesis by (auto simp: occurs_at_def)
qed

lemma occurs_first:
  "whole pat \<Longrightarrow> 0 < m_len pat \<Longrightarrow> p < m_len s \<Longrightarrow> whole s \<Longrightarrow> occurs_at s pat p \<Longrightarrow> mem s ! p = cur (mem pat)"
  by (cases "mem pat"; cases "drop p (mem s)")
     (auto simp: occurs_at_def whole_def take_Cons' nth_via_drop)

lemma rfind_prev:
  assumes "whole s" "m_len s < 2 ^ 31" "0 < p" "p < m_len s"
  shows "rfind_char (substr s 0 p True) c = Inr (rfind_loop (mem s) c p)"
proof -
  have "str_ok s" using assms by (simp add: whole_ok)
  with substr_in [of s p 0] assms show ?thesis
    by (simp add: rfind_char_def str_ok_def)
qed

lemma rfind_zero: "whole s \<Longrightarrow> 0 < m_len s \<Longrightarrow> rfind_char (substr s 0 0 True) c = rfind_char s c"
  using substr_rest [of s 0] by (simp add: whole_ok rfind_char_def str_ok_def whole_def)

lemma rfind_str_loop_finds:
  assumes "whole s" "whole pat" "0 < m_len pat" and small: "m_len s < 2 ^ 31"
    and occ: "mem s ! 0 \<noteq> cur (mem pat) \<or> (\<exists>q < m_len s. occurs_at s pat q)"
  shows "p < m_len s \<Longrightarrow> mem s ! p = cur (mem pat) \<Longrightarrow> \<forall>q < m_len s. p < q \<longrightarrow> \<not> occurs_at s pat q \<Longrightarrow>
    p + 2 \<le> fuel \<Longrightarrow> \<exists>r. rfind_str_loop fuel s pat (Inr (Some p)) = Some (Inr r) \<and> last_occurrence s pat r"
proof (induction p arbitrary: fuel rule: less_induct)
  case (less p)
  then obtain f where f: "fuel = Suc f" by (cases fuel) auto
  show ?case
  proof (cases "occurs_at s pat p")
    case True
    then show ?thesis using starts_at [OF assms(1,2) less.prems(1)] less.prems(3)
      by (simp add: f last_occurrence_def)
  next
    case no: False
    then have p: "0 < p"
      using occ less.prems by (metis gr0I linorder_neqE_nat)
    have len: "p \<le> length (mem s)" using assms(1) less.prems(1) by (simp add: whole_def)
    show ?thesis
    proof (cases "rfind_loop (mem s) (cur (mem pat)) p")
      case None
      then have "\<forall>q < p. mem s ! q \<noteq> cur (mem pat)"
        using rfind_loop_spec [OF len, of "cur (mem pat)"] len by (auto simp: in_set_conv_nth)
      then have "\<forall>q < m_len s. \<not> occurs_at s pat q"
        using no less.prems(1,3) occurs_first [OF assms(2,3) _ assms(1)] by (metis linorder_neqE_nat)
      moreover have "rfind_str_loop f s pat (Inr None) = Some (Inr None)" using less.prems(4) f by (cases f) auto
      ultimately show ?thesis
        using None no starts_at [OF assms(1,2) less.prems(1)] rfind_prev [OF assms(1) small p less.prems(1)]
        by (simp add: f last_occurrence_def)
    next
      case (Some i)
      then have i: "i < p" "mem s ! i = cur (mem pat)" "\<forall>j. i < j \<and> j < p \<longrightarrow> mem s ! j \<noteq> cur (mem pat)"
        using rfind_loop_spec [OF len, of "cur (mem pat)"] by auto
      then have "\<forall>q < m_len s. i < q \<longrightarrow> \<not> occurs_at s pat q"
        using no less.prems(1,3) occurs_first [OF assms(2,3) _ assms(1)] by (metis linorder_neqE_nat)
      with less.IH [OF i(1), of f] i less.prems(1,4) f
      obtain r where "rfind_str_loop f s pat (Inr (Some i)) = Some (Inr r)" "last_occurrence s pat r" by auto
      then show ?thesis
        using Some no starts_at [OF assms(1,2) less.prems(1)] rfind_prev [OF assms(1) small p less.prems(1)]
        by (simp add: f)
    qed
  qed
qed

lemma rfind_str_loop_stuck:
  assumes "whole s" "whole pat" "0 < m_len pat" "0 < m_len s" and small: "m_len s < 2 ^ 31"
    and "mem s ! 0 = cur (mem pat)" "\<forall>q < m_len s. \<not> occurs_at s pat q"
  shows "p < m_len s \<Longrightarrow> rfind_str_loop fuel s pat (Inr (Some p)) = None"
proof (induction fuel arbitrary: p)
  case (Suc fuel)
  have found: "\<exists>i < m_len s. rfind_loop (mem s) (cur (mem pat)) k = Some i" if "0 < k" "k \<le> m_len s" for k
    using rfind_loop_spec [of k "mem s" "cur (mem pat)"] assms(1,6) that
    by (auto simp: whole_def in_set_conv_nth split: option.splits)
  obtain i where "i < m_len s" "rfind_char (substr s 0 p True) (cur (mem pat)) = Inr (Some i)"
  proof (cases "p = 0")
    case True
    then show ?thesis using that found [of "m_len s"] rfind_zero [OF assms(1,4)] assms(4) small
      by (auto simp: rfind_char_def)
  next
    case False
    then show ?thesis using that found [of p] rfind_prev [OF assms(1) small _ Suc.prems] Suc.prems by auto
  qed
  with Suc starts_at [OF assms(1,2) Suc.prems] assms(7) show ?case by simp
qed simp

section \<open>Splitting and stripping\<close>

definition free_of :: "string \<Rightarrow> string \<Rightarrow> bool" where
  "free_of d x \<longleftrightarrow> (\<forall>j \<le> length x. take (length d) (drop j x) \<noteq> d)"

lemma strstr_spec:
  assumes "d \<noteq> []" "NUL \<notin> set d" "NUL \<notin> set m"
  shows "case strstr m d of
      None \<Rightarrow> free_of d m
    | Some k \<Rightarrow> k + length d \<le> length m \<and> take (length d) (drop k m) = d \<and> free_of d (take (k + length d - 1) m)"
  using assms(3)
proof (induction m)
  case Nil
  then show ?case using assms(1) by (simp add: free_of_def)
next
  case (Cons c m)
  have pre: "strncmp_eq (c # m) d (length d) \<longleftrightarrow> take (length d) (c # m) = d"
    by (rule strncmp_eq_prefix [OF assms(2)])
  show ?case
  proof (cases "take (length d) (c # m) = d")
    case True
    have "length (take (length d) (c # m)) = length d" by (simp only: True)
    then have "length d \<le> length (c # m)" by simp
    moreover have "free_of d (take (length d - 1) (c # m))"
      using assms(1) by (cases d) (auto simp: free_of_def min_def dest!: arg_cong [where f = length] split: if_splits)
    ultimately show ?thesis using True pre by simp
  next
    case no: False
    show ?thesis
    proof (cases "strstr m d")
      case None
      with Cons have "free_of d m" by simp
      then have "free_of d (c # m)" using no unfolding free_of_def
        by (metis Suc_le_mono drop0 drop_Suc_Cons length_Cons not0_implies_Suc)
      then show ?thesis using None no pre Cons.prems by auto
    next
      case (Some k)
      with Cons have k: "k + length d \<le> length m" "take (length d) (drop k m) = d"
          "free_of d (take (k + length d - 1) m)" by auto
      have dl: "0 < length d" using assms(1) by simp
      have "take (length d) (drop j (take (k + length d) (c # m))) \<noteq> d"
        if "j \<le> length (take (k + length d) (c # m))" for j
      proof (cases j)
        case 0
        have "length (take (length d) (take (k + length d) (c # m))) = length d"
          using k(1) by simp
        then show ?thesis using no 0 by (simp add: min_def)
      next
        case (Suc i)
        have "k + length d = Suc (k + length d - 1)" using dl by simp
        then have "drop j (take (k + length d) (c # m)) = drop i (take (k + length d - 1) m)"
          using Suc by (metis take_Suc_Cons drop_Suc_Cons)
        moreover have "i \<le> length (take (k + length d - 1) m)" using that Suc k(1) dl by auto
        ultimately show ?thesis using k(3) unfolding free_of_def by simp
      qed
      then have "free_of d (take (k + length d) (c # m))" by (simp add: free_of_def)
      then show ?thesis using Some no pre Cons.prems k by auto
    qed
  qed
qed

lemma free_of_take: "free_of d x \<Longrightarrow> free_of d (take k x)"
proof (unfold free_of_def, intro allI impI notI)
  fix j assume *: "\<forall>j \<le> length x. take (length d) (drop j x) \<noteq> d" "j \<le> length (take k x)"
    "take (length d) (drop j (take k x)) = d"
  have "length (take (length d) (drop j (take k x))) = length d" using * by simp
  then have "length d \<le> min (length x) k - j" by (simp add: min_def split: if_splits)
  then have "take (length d) (drop j (take k x)) = take (length d) (drop j x)"
    by (simp add: drop_take)
  with * show False by auto
qed

lemma parts_loop_spec:
  assumes "d \<noteq> []" "NUL \<notin> set d" "NUL \<notin> set m"
  shows "ptr \<le> length m \<Longrightarrow> length m - ptr < fuel \<Longrightarrow>
    \<exists>out p. parts_loop fuel m (length m) d ptr = Some (out, p) \<and>
      split_loop fuel m (length m) d ptr ptr = Some (out, p) \<and> p \<le> length m \<and>
      drop ptr m = concat (map (\<lambda>x. x @ d) out) @ drop p m \<and>
      list_all (free_of d) out \<and> free_of d (drop p m)"
proof (induction fuel arbitrary: ptr)
  case (Suc fuel)
  have nn: "NUL \<notin> set (drop ptr m)" using assms(3) by (auto dest: in_set_dropD)
  note spec = strstr_spec [OF assms(1,2) nn]
  show ?case
  proof (cases "strstr (drop ptr m) d")
    case None
    then show ?thesis using spec Suc.prems assms(1) by (auto simp: cmp_def)
  next
    case (Some k)
    with spec Suc.prems have k: "ptr + k + length d \<le> length m" "take (length d) (drop (ptr + k) m) = d"
        "free_of d (take (k + length d - 1) (drop ptr m))" by (auto simp: add.commute)
    have dl: "0 < length d" using assms(1) by simp
    have "k \<le> k + length d - 1" using dl by linarith
    then have "take k (drop ptr m) = take k (take (k + length d - 1) (drop ptr m))"
      by (simp only: take_take min_absorb1)
    then have free: "free_of d (take k (drop ptr m))" using free_of_take [OF k(3)] by metis
    have less: "length m - (ptr + k + length d) < fuel" using Suc.prems k(1) dl by linarith
    obtain out p where IH: "parts_loop fuel m (length m) d (ptr + k + length d) = Some (out, p)"
        "split_loop fuel m (length m) d (ptr + k + length d) (ptr + k + length d) = Some (out, p)"
        "p \<le> length m" "drop (ptr + k + length d) m = concat (map (\<lambda>x. x @ d) out) @ drop p m"
        "list_all (free_of d) out" "free_of d (drop p m)"
      using Suc.IH [of "ptr + k + length d"] k(1) less by blast
    have "drop ptr m = take k (drop ptr m) @ take (length d) (drop (ptr + k) m) @ drop (ptr + k + length d) m"
      by (metis append_take_drop_id drop_drop add.commute)
    then have "drop ptr m = take k (drop ptr m) @ d @ drop (ptr + k + length d) m" using k(2) by simp
    with IH(4) have "drop ptr m = concat (map (\<lambda>x. x @ d) (take k (drop ptr m) # out)) @ drop p m" by simp
    moreover have "ptr + k < length m" using k(1) dl by linarith
    ultimately show ?thesis using Some IH free assms(1) by (simp add: cmp_def delim_len_def)
  qed
qed simp

lemma skip_fwd_spec:
  "\<exists>x \<in> set m. x \<noteq> c \<Longrightarrow> skip_fwd m c i = Inr (i + length (takeWhile (\<lambda>x. x = c) m))"
proof (induction m arbitrary: i)
  case (Cons x m)
  then show ?case by (cases "x = c") simp_all
qed simp

lemma skip_back_spec:
  "n \<le> length m \<Longrightarrow> \<exists>x \<in> set (take n m). x \<noteq> c \<Longrightarrow>
   skip_back m c n = Inr (n - length (takeWhile (\<lambda>x. x = c) (rev (take n m))))"
proof (induction n)
  case (Suc n)
  then have "rev (take (Suc n) m) = m ! n # rev (take n m)" by (simp add: take_Suc_conv_app_nth)
  with Suc show ?case by (auto simp: Suc_diff_le take_Suc_conv_app_nth)
qed simp

lemma skip_back_all: "n \<le> length m \<Longrightarrow> \<forall>x \<in> set (take n m). x = c \<Longrightarrow> skip_back m c n = Inl OutOfBoundsRead"
  by (induction n) (auto simp: take_Suc_conv_app_nth)

definition trim :: "char \<Rightarrow> string \<Rightarrow> string" where
  "trim c t = rev (dropWhile (\<lambda>x. x = c) (rev (dropWhile (\<lambda>x. x = c) t)))"

lemma takeWhile_trim:
  assumes "\<exists>x \<in> set t. x \<noteq> c"
  defines "a \<equiv> length (takeWhile (\<lambda>x. x = c) t)" and "b \<equiv> length (takeWhile (\<lambda>x. x = c) (rev t))"
  shows "take (length t - b - a) (drop a t) = trim c t" and "a + b < length t"
proof -
  have split: "t = takeWhile (\<lambda>x. x = c) t @ dropWhile (\<lambda>x. x = c) t" by simp
  let ?u = "dropWhile (\<lambda>x. x = c) t"
  have u: "drop a t = ?u" unfolding a_def by (simp add: dropWhile_eq_drop)
  have ne: "\<exists>x \<in> set ?u. x \<noteq> c"
    using assms(1) by (metis Un_iff set_append set_takeWhileD split)
  have "rev t = rev ?u @ rev (takeWhile (\<lambda>x. x = c) t)" by (metis rev_append split)
  then have b: "b = length (takeWhile (\<lambda>x. x = c) (rev ?u))"
    unfolding b_def using ne by (metis (mono_tags, lifting) set_rev takeWhile_append1)
  have "rev ?u = takeWhile (\<lambda>x. x = c) (rev ?u) @ dropWhile (\<lambda>x. x = c) (rev ?u)" by simp
  then have len: "length ?u = b + length (dropWhile (\<lambda>x. x = c) (rev ?u))"
    unfolding b by (metis length_append length_rev)
  moreover have "dropWhile (\<lambda>x. x = c) (rev ?u) \<noteq> []" using ne by auto
  moreover have "length t = a + length ?u" unfolding a_def by (metis length_append split)
  ultimately show "a + b < length t" by simp
  have "rev (take (length ?u - b) ?u) = drop b (rev ?u)" by (simp add: rev_take len)
  then have "take (length ?u - b) ?u = trim c t"
    unfolding trim_def b dropWhile_eq_drop by (metis rev_rev_ident)
  then show "take (length t - b - a) (drop a t) = trim c t"
    using \<open>length t = a + length ?u\<close> u by (simp add: diff_commute)
qed

section \<open>Numbers\<close>

fun dec_digits :: "nat \<Rightarrow> string \<Rightarrow> string" where
  "dec_digits n acc =
     (if n < 10 then char_of (48 + n) # acc else dec_digits (n div 10) (char_of (48 + n mod 10) # acc))"

declare dec_digits.simps [simp del]

lemma digit_of_char: "d < 10 \<Longrightarrow> digit_of 10 (char_of (48 + d)) = Some d"
  by (simp add: digit_of_def digit_value_def is_digit_def of_char_of)

lemma read_dec_digits:
  "\<exists>k. \<forall>m. read_digits 10 (dec_digits n acc) m = read_digits 10 acc (m * 10 ^ k + n) \<and> n < 10 ^ k"
proof (induction n acc rule: dec_digits.induct)
  case (1 n acc)
  show ?case
  proof (cases "n < 10")
    case True
    then show ?thesis
      by (intro exI [of _ 1]) (subst dec_digits.simps, simp add: digit_of_char)
  next
    case False
    then obtain k where k: "\<And>m. read_digits 10 (dec_digits (n div 10) (char_of (48 + n mod 10) # acc)) m =
        read_digits 10 (char_of (48 + n mod 10) # acc) (m * 10 ^ k + n div 10) \<and> n div 10 < 10 ^ k"
      using "1.IH" by blast
    have "(m * 10 ^ k + n div 10) * 10 + n mod 10 = m * 10 ^ Suc k + n" for m :: nat
      by (simp add: algebra_simps)
    moreover have "n < 10 ^ Suc k" using k by (simp add: div_less_iff_less_mult mult.commute)
    ultimately show ?thesis using False k
      by (intro exI [of _ "Suc k"]) (subst dec_digits.simps, simp add: digit_of_char algebra_simps)
  qed
qed

lemma dec_digits_chars: "set acc \<subseteq> {c. is_digit c} \<Longrightarrow> set (dec_digits n acc) \<subseteq> {c. is_digit c}"
proof (induction n acc rule: dec_digits.induct)
  case (1 n acc)
  have "is_digit (char_of (48 + m mod 10))" for m :: nat by (simp add: is_digit_def of_char_of)
  from this [of n] show ?case using 1 by (subst dec_digits.simps) auto
qed

lemma dec_digits_ne: "dec_digits n acc \<noteq> []"
  by (induction n acc rule: dec_digits.induct) (subst dec_digits.simps, simp)

lemma dec_digits_length: "n < 10 ^ Suc k \<Longrightarrow> length (dec_digits n acc) \<le> Suc k + length acc"
proof (induction n acc arbitrary: k rule: dec_digits.induct)
  case (1 n acc)
  show ?case
  proof (cases "n < 10")
    case True
    then show ?thesis by (subst dec_digits.simps) simp
  next
    case False
    then obtain k' where "k = Suc k'" using "1.prems" by (cases k) auto
    moreover have "n div 10 < 10 ^ Suc k'" using "1.prems" calculation by (simp add: div_less_iff_less_mult mult.commute)
    ultimately show ?thesis using False "1.IH" [of k'] by (subst dec_digits.simps) simp
  qed
qed

definition dec_string :: "int \<Rightarrow> string" where
  "dec_string i = (if i < 0 then CHR ''-'' # dec_digits (nat (- i)) [] else dec_digits (nat i) [])"

lemma digits_read: "read_digits 10 (dec_digits n []) 0 = (n, [])"
  using read_dec_digits [of n "[]"] by auto

lemma digit_facts: "is_digit c \<Longrightarrow> \<not> is_space c \<and> c \<noteq> CHR ''-'' \<and> c \<noteq> CHR ''+'' \<and> c \<noteq> NUL"
  by (auto simp: is_digit_def is_space_def)

lemma dec_string_parse:
  assumes "- (2 ^ 63) \<le> i" "i < 2 ^ 63"
  shows "strtoll (dec_string i) 10 = Some (i, [])" and "NUL \<notin> set (dec_string i)"
proof -
  obtain c cs where d: "dec_digits (nat \<bar>i\<bar>) [] = c # cs" using dec_digits_ne by (metis neq_Nil_conv)
  then have "is_digit c" "set (c # cs) \<subseteq> {c. is_digit c}" using dec_digits_chars [of "[]" "nat \<bar>i\<bar>"] by auto
  then have c: "\<not> is_space c" "c \<noteq> CHR ''-''" "c \<noteq> CHR ''+''" "NUL \<notin> set (c # cs)"
    using digit_facts by auto
  have "read_digits 10 (c # cs) 0 = (nat \<bar>i\<bar>, [])" using digits_read [of "nat \<bar>i\<bar>"] d by simp
  with c d assms show "strtoll (dec_string i) 10 = Some (i, [])" "NUL \<notin> set (dec_string i)"
    by (auto simp: strtoll_def dec_string_def strip_0x_def Let_def is_space_def)
qed

lemma dec_string_length: "\<bar>i\<bar> < 10 ^ 18 \<Longrightarrow> length (dec_string i) \<le> 19 \<and> dec_string i \<noteq> []"
  using dec_digits_length [of "nat \<bar>i\<bar>" 17 "[]"] dec_digits_ne
  by (auto simp: dec_string_def nat_less_iff)

section \<open>Properties\<close>

lemma dup_text: "str_ok s \<Longrightarrow> text_of (dup s) = text_of s"
  by (cases "m_cstr s")
     (auto simp: dup_def duplicate_def text_of_def str_ok_def of_cstr_def mem_def of_view_def)

lemma null_text [simp]: "text_of null_str = []"
  by (simp add: text_of_def null_str_def mem_def)

lemma substr_text:
  assumes "str_ok s" "from + n \<le> m_len s" "0 < n"
  shows "text_of (substr s from n zc) = take n (drop from (text_of s))"
proof -
  have "substr s from n zc = (if zc then substr s from n True else dup (substr s from n True))"
    using assms mem_Some [of s] by (auto simp: substr_def Let_def null_str_def dup_def of_cstr_def)
  then show ?thesis
    using substr_in [OF assms(1,3,2)] view_ok [OF assms(1,2), of False] by (simp add: dup_text)
qed

text \<open>C27: \<open>substr\<close>. For a start inside the string it is the requested piece, the rest of the string
  when no length is given, and the empty string when the piece does not fit. For a start \<open>k\<close> characters
  past the end it is not the empty string that its documentation promises: the unsigned subtraction
  wraps, every length below \<open>2 ^ 64 - k\<close> fits, and the result of a zero copy is a view that starts
  at that position, outside the string. It has as many characters as the length that is given (its low
  32 bits), and without one, for \<open>k\<close> below \<open>2 ^ 32\<close>, \<open>2 ^ 32 - k\<close> of them, which is up to four gigabytes.\<close>

theorem substr_spec:
  assumes "str_ok s" "m_cstr s = Some m" "from < 2 ^ 64"
  shows "(from \<le> m_len s \<longrightarrow>
            text_of (substr s from n zc) =
              (if n = 0 then drop from (text_of s)
               else if from + n \<le> m_len s then take n (drop from (text_of s)) else [])) \<and>
         (m_len s < from \<longrightarrow>
            (let k = from - m_len s; start = drop from m in
             substr s from n True =
               (if n = 0 then \<lparr>m_cstr = Some start, m_len = u32 (2 ^ 64 - k), m_own = False\<rparr>
                else if n \<le> 2 ^ 64 - k then \<lparr>m_cstr = Some start, m_len = u32 n, m_own = False\<rparr>
                else null_str) \<and>
             (k < 2 ^ 32 \<longrightarrow> u32 (2 ^ 64 - k) = 2 ^ 32 - k)))"
proof (intro conjI impI)
  assume le: "from \<le> m_len s"
  have fits: "sub64 (m_len s) from = m_len s - from"
    using assms le by (intro sub64_le) (auto simp: str_ok_def)
  have nofit: "substr s from n zc = null_str" if "0 < n" "\<not> from + n \<le> m_len s"
    using that le fits by (simp add: substr_def)
  have all: "substr s from 0 zc = (if from = m_len s then null_str else substr s from (m_len s - from) zc)"
    using le fits by (simp add: substr_def)
  show "text_of (substr s from n zc) =
      (if n = 0 then drop from (text_of s)
       else if from + n \<le> m_len s then take n (drop from (text_of s)) else [])"
    using nofit all le substr_text [OF assms(1), of "from" n zc] substr_text [OF assms(1), of "from" "m_len s - from" zc]
      length_text [OF assms(1)] by (auto simp: min_def)
next
  assume past: "m_len s < from"
  then obtain k where k: "from = m_len s + k" "0 < k" "k < 2 ^ 64"
    using assms(3) by (metis add_diff_inverse_nat diff_le_self le_less_trans less_imp_le not_less zero_less_diff)
  have "int (m_len s) - int from = - int k" by (simp add: k(1))
  moreover have "(- int k) mod 2 ^ 64 = 2 ^ 64 - int k" using k by (simp add: zmod_zminus1_eq_if)
  ultimately have fits: "sub64 (m_len s) from = 2 ^ 64 - k" using k by (simp add: sub64_def)
  have pos: "2 ^ 64 - k \<noteq> 0" using k by simp
  have "substr s from n True =
     (if n = 0 then \<lparr>m_cstr = Some (drop from m), m_len = u32 (2 ^ 64 - k), m_own = False\<rparr>
      else if n \<le> 2 ^ 64 - k then \<lparr>m_cstr = Some (drop from m), m_len = u32 n, m_own = False\<rparr>
      else null_str)"
    unfolding substr_def Let_def fits of_view_def using pos assms(2) by (simp del: power_numeral)
  moreover have "u32 (2 ^ 64 - k) = 2 ^ 32 - k" if "k < 2 ^ 32"
  proof -
    have "2 ^ 64 - k = (2 ^ 32 - k) + (2 ^ 32 - 1) * 2 ^ 32" using that by simp
    then have "u32 (2 ^ 64 - k) = u32 (2 ^ 32 - k)" by (simp only: u32_def mod_mult_self1)
    then show ?thesis using k(2) that by (simp add: u32_id)
  qed
  ultimately show "let k = from - m_len s; start = drop from m in
      substr s from n True =
        (if n = 0 then \<lparr>m_cstr = Some start, m_len = u32 (2 ^ 64 - k), m_own = False\<rparr>
         else if n \<le> 2 ^ 64 - k then \<lparr>m_cstr = Some start, m_len = u32 n, m_own = False\<rparr>
         else null_str) \<and>
      (k < 2 ^ 32 \<longrightarrow> u32 (2 ^ 64 - k) = 2 ^ 32 - k)"
    unfolding Let_def k(1) add_diff_cancel_left' by blast
qed

definition lit :: "string \<Rightarrow> str" where
  "lit t = of_cstr (Some t)"

lemma lit_whole: "NUL \<notin> set t \<Longrightarrow> length t < 2 ^ 32 \<Longrightarrow> whole (lit t)"
  by (simp add: lit_def of_cstr_def whole_def mem_def c_str_id)

theorem substr_spec_witness:
  "text_of (substr (lit ''hello'') 1 3 False) = ''ell'' \<and> m_len (substr (lit ''hello'') 6 0 True) = 2 ^ 32 - 1 \<and>
   m_len (substr (lit ''hello'') 6 3 True) = 3"
  using substr_spec [of "lit ''hello''" "''hello''" 1 3 False] substr_spec [of "lit ''hello''" "''hello''" 6 0 False]
    substr_spec [of "lit ''hello''" "''hello''" 6 3 False]
  by (simp add: lit_def of_cstr_def str_ok_def mem_def c_str_def text_of_def u32_def)

text \<open>C28: the search from the end for a string. Below \<open>2 ^ 31\<close> characters it ends exactly when the pattern
  occurs or does not share its first character with the string, and then it returns the position of the
  last occurrence (\<open>npos\<close> when there is none). Otherwise it never ends: at position 0, \<open>substr(0, 0)\<close> is
  the whole string again. From \<open>2 ^ 31\<close> characters on the search begins at a negative position: its
  behaviour is undefined.\<close>

theorem rfind_str_spec:
  assumes "whole s" "whole pat" "0 < m_len s" "0 < m_len pat"
  shows "if 2 ^ 31 \<le> m_len s then \<exists>e \<in> {IntegerOverflow, OutOfBoundsRead}. \<forall>fuel. rfind_str (Suc fuel) s pat = Some (Inl e)
     else if mem s ! 0 \<noteq> mem pat ! 0 \<or> (\<exists>q < m_len s. occurs_at s pat q)
     then \<exists>r. rfind_str (m_len s + 2) s pat = Some (Inr r) \<and> last_occurrence s pat r
     else \<forall>fuel. rfind_str fuel s pat = None"
proof -
  have ne: "\<not> str_empty s" "\<not> str_empty pat" using assms by (auto simp: whole_cases) (auto simp: whole_def)
  have c: "mem pat ! 0 = cur (mem pat)" using assms(2,4) by (cases "mem pat") (auto simp: whole_def)
  have ok: "str_ok s" using assms(1) by (rule whole_ok)
  note first = occurs_first [OF assms(2,4) _ assms(1)]
  consider (large) "2 ^ 31 \<le> m_len s"
    | (none) "m_len s < 2 ^ 31" "rfind_char s (cur (mem pat)) = Inr None"
    | (some) p where "m_len s < 2 ^ 31" "rfind_char s (cur (mem pat)) = Inr (Some p)"
    using assms(3) by (cases "m_len s < 2 ^ 31"; cases "rfind_loop (mem s) (cur (mem pat)) (m_len s)")
      (auto simp: rfind_char_def)
  then show ?thesis
  proof cases
    case large
    then show ?thesis using ne by (auto simp: rfind_str_def rfind_char_def)
  next
    case none
    then have no: "\<forall>q < m_len s. mem s ! q \<noteq> cur (mem pat)"
      using rfind_char_None [OF ok none(2)] assms(1) by (auto simp: whole_text in_set_conv_nth whole_def)
    then have "\<forall>q < m_len s. \<not> occurs_at s pat q" using first by blast
    then show ?thesis using none no assms(3) ne c
      by (auto simp: rfind_str_def last_occurrence_def)
  next
    case (some p)
    note p = rfind_char_Some [OF ok some(2)]
    have later: "\<forall>q < m_len s. p < q \<longrightarrow> \<not> occurs_at s pat q" using first p(3) by blast
    show ?thesis
    proof (cases "mem s ! 0 \<noteq> cur (mem pat) \<or> (\<exists>q < m_len s. occurs_at s pat q)")
      case True
      with rfind_str_loop_finds [OF assms(1,2,4) some(1) True p(1,2) later, of "m_len s + 2"] p(1)
      show ?thesis using some ne c by (simp add: rfind_str_def)
    next
      case False
      then show ?thesis
        using rfind_str_loop_stuck [OF assms(1,2,4,3) some(1) _ _ p(1)] some ne c by (simp add: rfind_str_def)
    qed
  qed
qed

theorem rfind_str_spec_witness: "\<forall>fuel. rfind_str fuel (lit ''ab'') (lit ''ac'') = None"
proof -
  have "\<not> occurs_at (lit ''ab'') (lit ''ac'') q" if "q < 2" for q
    using that less_2_cases [of q] by (auto simp: occurs_at_def lit_def of_cstr_def mem_def c_str_def)
  moreover have "m_len (lit ''ab'') = 2" "m_len (lit ''ac'') = 2" "mem (lit ''ab'') ! 0 = mem (lit ''ac'') ! 0"
    by (simp_all add: lit_def of_cstr_def mem_def c_str_def)
  ultimately show ?thesis
    using rfind_str_spec [OF lit_whole lit_whole, of "''ab''" "''ac''"] by (simp split: if_splits)
qed

text \<open>C39: \<open>parts\<close> and \<open>split\<close> of a string by a nonempty delimiter: they end and agree; the string is
  the pieces, each followed by the delimiter, and a last piece; no piece contains the delimiter; only
  an empty last piece is dropped. By the empty delimiter \<open>parts\<close> gives the whole string, and \<open>split\<close>
  never ends.\<close>

theorem parts_spec:
  assumes "whole s" "m_cstr s \<noteq> None" "NUL \<notin> set d"
  shows "(d \<noteq> [] \<longrightarrow>
           (\<exists>out lst. text_of s = concat (map (\<lambda>x. x @ d) out) @ lst \<and>
              list_all (free_of d) out \<and> free_of d lst \<and>
              parts s (Some d) = Inr (Some (if lst = [] then out else out @ [lst])) \<and>
              split (Suc (m_len s)) s (Some d) = Some (Inr (if lst = [] then out else out @ [lst])))) \<and>
         (d = [] \<longrightarrow>
           parts s (Some d) = Inr (Some (if text_of s = [] then [] else [text_of s])) \<and>
           (\<forall>fuel. split fuel s (Some d) = None))"
proof (intro conjI impI allI)
  have m: "length (mem s) = m_len s" "NUL \<notin> set (mem s)" "text_of s = mem s"
    using assms(1) by (auto simp: whole_def whole_text)
  {
    assume "d \<noteq> []"
    then obtain out p where l: "parts_loop (Suc (m_len s)) (mem s) (m_len s) d 0 = Some (out, p)"
        "split_loop (Suc (m_len s)) (mem s) (m_len s) d 0 0 = Some (out, p)" "p \<le> m_len s"
        "mem s = concat (map (\<lambda>x. x @ d) out) @ drop p (mem s)" "list_all (free_of d) out"
        "free_of d (drop p (mem s))"
      using parts_loop_spec [OF _ assms(3) m(2), of 0 "Suc (m_len s)"] m(1) by auto
    then show "\<exists>out lst. text_of s = concat (map (\<lambda>x. x @ d) out) @ lst \<and>
              list_all (free_of d) out \<and> free_of d lst \<and>
              parts s (Some d) = Inr (Some (if lst = [] then out else out @ [lst])) \<and>
              split (Suc (m_len s)) s (Some d) = Some (Inr (if lst = [] then out else out @ [lst]))"
      using assms(2) m
      by (intro exI [of _ out] exI [of _ "drop p (mem s)"])
         (auto simp: parts_def split_def last_piece_def simp del: parts_loop.simps split_loop.simps)
  }
  {
    assume d: "d = []"
    have c: "c_str (mem s) = mem s" using m(2) by (rule c_str_id)
    then show "parts s (Some d) = Inr (Some (if text_of s = [] then [] else [text_of s]))"
      using d m assms(2) by (auto simp: parts_def cmp_def)
    show "split fuel s (Some d) = None" for fuel
    proof -
      have stop: "cmp (drop (m_len s) (mem s)) [] = Some 0" using m(1) by (simp add: cmp_def c_str_def)
      have "split_loop f (mem s) (m_len s) [] (m_len s) 0 = None" for f
        by (induction f) (simp_all add: stop)
      then have "split_loop fuel (mem s) (m_len s) [] 0 0 = None"
        using c m(1) by (cases fuel) (simp_all add: cmp_def)
      then show ?thesis using d assms(2) by (simp add: split_def)
    qed
  }
qed

theorem parts_spec_witness:
  "(\<exists>out lst. text_of (lit ''a,b'') = concat (map (\<lambda>x. x @ '','') out) @ lst \<and>
      list_all (free_of '','') out \<and> free_of '','' lst \<and>
      parts (lit ''a,b'') (Some '','') = Inr (Some (if lst = [] then out else out @ [lst])) \<and>
      split (Suc (m_len (lit ''a,b''))) (lit ''a,b'') (Some '','') =
        Some (Inr (if lst = [] then out else out @ [lst]))) \<and>
   (\<forall>fuel. split fuel (lit ''a,b'') (Some []) = None)"
  using parts_spec [OF lit_whole, of "''a,b''" "'',''"] parts_spec [OF lit_whole, of "''a,b''" "[]"]
  by (simp add: lit_def of_cstr_def)

text \<open>\<open>strip\<close> on a string with some other character: at the ends only, it is the string without
  the runs of the character at both ends; everywhere, it is the string without the character. A
  nonempty string of nothing but that character makes the scan from the end run below the start of
  the string.\<close>

theorem strip_spec:
  assumes "whole s" "m_cstr s \<noteq> None"
  shows "if \<exists>x \<in> set (text_of s). x \<noteq> c
     then strip s c True = Inr (trim c (text_of s)) \<and>
          strip s c False = Inr (List.filter (\<lambda>x. x \<noteq> c) (text_of s))
     else is_ok (strip s c ends) = False"
proof (cases "\<exists>x \<in> set (text_of s). x \<noteq> c")
  case True
  let ?t = "text_of s"
  have m: "mem s = ?t" "m_len s = length ?t" using assms(1) by (auto simp: whole_def whole_text)
  let ?a = "length (takeWhile (\<lambda>x. x = c) ?t)" and ?b = "length (takeWhile (\<lambda>x. x = c) (rev ?t))"
  have "skip_fwd ?t c 0 = Inr ?a" using skip_fwd_spec [OF True] by simp
  moreover have "skip_back ?t c (length ?t) = Inr (length ?t - ?b)"
    using skip_back_spec [of "length ?t" ?t c] True by simp
  moreover have "take (length ?t - ?b - ?a) (drop ?a ?t) = trim c ?t" by (rule takeWhile_trim [OF True])
  moreover have "List.filter (\<lambda>x. x \<noteq> c) (trim c ?t) = List.filter (\<lambda>x. x \<noteq> c) ?t"
  proof -
    have "List.filter (\<lambda>x. x \<noteq> c) (dropWhile (\<lambda>x. x = c) u) = List.filter (\<lambda>x. x \<noteq> c) u" for u
      by (induction u) auto
    then show ?thesis by (metis trim_def rev_filter rev_rev_ident)
  qed
  ultimately show ?thesis using True assms(2) m by (simp add: strip_def)
next
  case False
  have "skip_back (mem s) c (m_len s) = Inl OutOfBoundsRead"
    using assms(1) False by (intro skip_back_all) (auto simp: whole_def text_of_def)
  then show ?thesis using False assms(2) by (cases "skip_fwd (mem s) c 0") (auto simp: strip_def)
qed

theorem strip_spec_witness:
  "strip (lit ''  a b '') (CHR '' '') True = Inr (trim (CHR '' '') (text_of (lit ''  a b ''))) \<and>
   is_ok (strip (lit ''  '') (CHR '' '') True) = False"
  using strip_spec [OF lit_whole, of "''  a b ''" "CHR '' ''" True] strip_spec [OF lit_whole, of "''  ''" "CHR '' ''" True]
  by (simp add: lit_def of_cstr_def text_of_def mem_def c_str_def)

text \<open>C38: \<open>strtonum\<close> in base 10 reads back every number of at most 18 digits that its text
  printed, refuses it exactly when it is outside the given range, and whatever it returns is in
  range.\<close>

theorem strtonum_spec:
  assumes "\<bar>i\<bar> < 10 ^ 18" "mn \<le> mx"
  shows "strtonum (lit (dec_string i)) 10 mn mx = (if mn \<le> i \<and> i \<le> mx then Inr i else Inl OutOfRange) \<and>
    (\<forall>s base l. strtonum s base mn mx = Inr l \<longrightarrow> mn \<le> l \<and> l \<le> mx \<and> 0 < m_len s \<and> m_len s \<le> 19)"
proof
  have i: "- (2 ^ 63) \<le> i" "i < 2 ^ 63" using assms(1) by auto
  note parse = dec_string_parse [OF i]
  have len: "length (dec_string i) \<le> 19" "dec_string i \<noteq> []" using dec_string_length [OF assms(1)] by auto
  have "whole (lit (dec_string i))" using parse(2) len by (intro lit_whole) auto
  then have t: "text_of (lit (dec_string i)) = dec_string i" "m_len (lit (dec_string i)) = length (dec_string i)"
    by (auto simp: whole_text whole_def) (auto simp: lit_def of_cstr_def mem_def)
  show "strtonum (lit (dec_string i)) 10 mn mx = (if mn \<le> i \<and> i \<le> mx then Inr i else Inl OutOfRange)"
    using assms(2) len parse t c_str_id [OF parse(2)] by (simp add: strtonum_def char_at_def)
next
  show "\<forall>s base l. strtonum s base mn mx = Inr l \<longrightarrow> mn \<le> l \<and> l \<le> mx \<and> 0 < m_len s \<and> m_len s \<le> 19"
    by (auto simp: strtonum_def char_at_def rbind_Inr_iff split: if_splits option.splits prod.splits)
qed

theorem strtonum_spec_witness: "strtonum (lit (dec_string (-42))) 10 (-100) 100 = Inr (-42)"
  using strtonum_spec [of "-42" "-100" 100] by simp

end
