(* ===== verification/Wire.thy ===== *)
theory Wire
  imports Buffer_Store
begin

text \<open>
  The wire serialisation of \<open>libs/base\<close>: \<open>VarInt\<close> (\<open>varint.hpp\<close>, \<open>varint.cpp\<close>), the \<open>Wire\<close>
  operators (\<open>wire.hpp\<close>) and the boards they write to and read from (\<open>Breadboard\<close>, \<open>HeapBoard\<close>;
  \<open>wire.cpp\<close>). The operators are templates over the C++ type written: the types they cover are
  the datatype \<open>wty\<close>, the values \<open>wval\<close>, and an operator is a function of both. Numbers of the code
  (\<open>size_t\<close>, \<open>uint64_t\<close>) are naturals below \<open>2 ^ 64\<close>; the host is little endian. A \<open>Data\<close> has a size of
  32 bits, to which its constructors cut the size they are given, and the elements of a vector are
  read in a loop whose counter is an \<open>int\<close>.
\<close>

section \<open>Byte orders\<close>

fun le_bytes :: "nat \<Rightarrow> nat \<Rightarrow> bytes" where
  "le_bytes 0 v = []"
| "le_bytes (Suc n) v = of_nat (v mod 256) # le_bytes n (v div 256)"

primrec le_value :: "bytes \<Rightarrow> nat" where
  "le_value [] = 0"
| "le_value (b # bs) = unat b + 256 * le_value bs"

lemma length_le_bytes [simp]: "length (le_bytes n v) = n"
  by (induction n arbitrary: v) simp_all

lemma le_value_bytes: "v < 256 ^ n \<Longrightarrow> le_value (le_bytes n v) = v"
proof (induction n arbitrary: v)
  case (Suc n)
  then have "v div 256 < 256 ^ n" by (simp add: div_less_iff_less_mult mult.commute)
  with Suc.IH [of "v div 256"] show ?case by (simp add: unat_of_nat take_bit_eq_mod)
qed simp

lemma le_value_less: "le_value bs < 256 ^ length bs"
proof (induction bs)
  case (Cons b bs)
  have "unat b < 256" by (rule unat_byte_less)
  with Cons show ?case by simp
qed simp

section \<open>VarInt\<close>

text \<open>The eight bytes of \<open>mData\<close>, big endian.\<close>

type_synonym varint = bytes

definition vi_write :: "nat \<Rightarrow> varint" where
  "vi_write v = rev (le_bytes 8 v)"

text \<open>\<open>read<T>\<close> for a type of \<open>n\<close> bytes.\<close>

definition vi_read :: "nat \<Rightarrow> varint \<Rightarrow> nat" where
  "vi_read n d = le_value (rev d) mod 256 ^ n"

fun shift_count :: "nat \<Rightarrow> nat" where
  "shift_count v = (if v > 0 then Suc (shift_count (v div 256)) else 0)"

declare shift_count.simps [simp del]

definition vi_length :: "varint \<Rightarrow> nat" where
  "vi_length d = shift_count (vi_read 8 d)"

definition vi_eq :: "varint \<Rightarrow> varint \<Rightarrow> bool" where
  "vi_eq a b \<longleftrightarrow> le_value a = le_value b"

lemma vi_read_write: "v < 2 ^ 64 \<Longrightarrow> vi_read 8 (vi_write v) = v"
  using le_value_bytes [of v 8] by (simp add: vi_read_def vi_write_def)

lemma shift_count_bounds: "v < 256 ^ shift_count v \<and> (v < 256 ^ n \<longrightarrow> shift_count v \<le> n)"
proof (induction v arbitrary: n rule: shift_count.induct)
  case (1 v)
  show ?case
  proof (cases "v > 0")
    case True
    with 1 have "v div 256 < 256 ^ shift_count (v div 256)" by blast
    then have "v < 256 ^ shift_count v" using True
      by (subst shift_count.simps) (simp add: div_less_iff_less_mult mult.commute)
    moreover have "shift_count v \<le> n" if "v < 256 ^ n"
    proof (cases n)
      case 0
      then show ?thesis using that True by simp
    next
      case (Suc m)
      then have "v div 256 < 256 ^ m" using that by (simp add: div_less_iff_less_mult mult.commute)
      then show ?thesis using 1 True Suc by (subst shift_count.simps) simp
    qed
    ultimately show ?thesis by blast
  qed (simp add: shift_count.simps)
qed

section \<open>Boards\<close>

text \<open>\<open>sink\<close> is the memory, \<open>H\<close> the read offset, \<open>T\<close> the write offset, \<open>M\<close> the declared size.\<close>

record board =
  sink :: "bytes option"
  bH :: nat
  bT :: nat
  bM :: nat

definition new_board :: "bytes \<Rightarrow> board" where
  "new_board buf = \<lparr>sink = Some buf, bH = 0, bT = 0, bM = length buf\<rparr>"

definition board_size :: "board \<Rightarrow> nat" where
  "board_size b = sub64 (bT b) (bH b)"

definition forward :: "bytes \<Rightarrow> board \<Rightarrow> board result" where
  "forward e b =
     (if sub64 (bM b) (bT b) < length e then Inl BufferOutOfMemory
      else rbind (poke (sink b) (bT b) e) (\<lambda>d. Inr (b\<lparr>sink := d, bT := bT b + length e\<rparr>)))"

definition peek_bytes :: "bytes option \<Rightarrow> nat \<Rightarrow> nat \<Rightarrow> bytes result" where
  "peek_bytes s off n =
     (if n = 0 then Inr []
      else case s of
        None \<Rightarrow> Inl NullDereference
      | Some d \<Rightarrow> if off + n \<le> length d then Inr (take n (drop off d)) else Inl OutOfBoundsRead)"

definition backward :: "nat \<Rightarrow> board \<Rightarrow> (bytes \<times> board) result" where
  "backward es b =
     (if es \<le> sub64 (bT b) (bH b) then
        rbind (peek_bytes (sink b) (bH b) es) (\<lambda>bs. Inr (bs, b\<lparr>bH := bH b + es\<rparr>))
      else Inl BufferOutOfMemory)"

definition move :: "nat \<Rightarrow> board \<Rightarrow> bool \<times> board" where
  "move n b = (if board_size b \<ge> n then (True, b\<lparr>bH := bH b + n\<rparr>) else (False, b))"

definition board_reset :: "board \<Rightarrow> board" where
  "board_reset b = b\<lparr>bH := 0, bT := 0\<rparr>"

definition raw :: "board \<Rightarrow> bytes result" where
  "raw b = peek_bytes (sink b) (bH b) (board_size b)"

definition to_hex_str :: "allocator \<Rightarrow> board \<Rightarrow> buffer \<Rightarrow> buffer result" where
  "to_hex_str al b ob =
     rbind (raw b) (\<lambda>tmp.
     rbind (reserve al (length tmp * 2 + 2) ob) (\<lambda>ob1.
     rbind (if capacity ob1 < 2 * length tmp then Inr [] else hexstr_loop tmp False) (\<lambda>s.
     rbind (poke (m_data ob1) (m_offset ob1) (bytes_of_string s)) (\<lambda>d.
     seek (int (length s)) (ob1\<lparr>m_data := d\<rparr>)))))"

definition from_hex_str :: "string \<Rightarrow> board \<Rightarrow> (bool \<times> board) result" where
  "from_hex_str str b =
     (if length str div 2 > sub64 (bM b) (bT b) then Inr (False, b)
      else
        rbind (bytes_into str (sink b \<noteq> None) (sub64 (bM b) (bT b))) (\<lambda>bs.
        rbind (poke (sink b) (bT b) bs) (\<lambda>d.
        Inr (True, b\<lparr>sink := d, bT := bT b + length str div 2\<rparr>))))"

definition board_ok :: "board \<Rightarrow> bool" where
  "board_ok b \<longleftrightarrow> bH b \<le> bT b \<and> bT b \<le> bM b \<and> bM b < 2 ^ 64 \<and>
     (case sink b of None \<Rightarrow> bM b = 0 | Some d \<Rightarrow> bM b \<le> length d)"

definition unread :: "board \<Rightarrow> bytes" where
  "unread b = (case sink b of None \<Rightarrow> [] | Some d \<Rightarrow> take (bT b - bH b) (drop (bH b) d))"

definition board_room :: "board \<Rightarrow> nat" where
  "board_room b = bM b - bT b"

lemma length_unread: "board_ok b \<Longrightarrow> length (unread b) = bT b - bH b"
  by (auto simp: board_ok_def unread_def split: option.splits)

lemma board_sub64: "board_ok b \<Longrightarrow> sub64 (bM b) (bT b) = board_room b \<and> sub64 (bT b) (bH b) = bT b - bH b"
  by (auto simp: board_ok_def board_room_def)

lemma forward_fits:
  assumes "board_ok b" "length e \<le> board_room b"
  shows "\<exists>b'. forward e b = Inr b' \<and> board_ok b' \<and> unread b' = unread b @ e \<and>
    board_room b' = board_room b - length e"
proof (cases "sink b")
  case None
  then show ?thesis using assms board_sub64 [OF assms(1)]
    by (auto simp: forward_def poke_def board_ok_def board_room_def unread_def)
next
  case (Some d)
  have le: "bH b \<le> bT b" "bT b + length e \<le> bM b" "bM b \<le> length d" "bM b < 2 ^ 64"
    using assms Some by (auto simp: board_ok_def board_room_def)
  let ?d = "take (bT b) d @ e @ drop (bT b + length e) d"
  have p: "poke (Some d) (bT b) e = Inr (Some ?d)" using le by (auto simp: poke_def)
  let ?b = "b\<lparr>sink := Some ?d, bT := bT b + length e\<rparr>"
  have "forward e b = Inr ?b"
    using Some p assms(2) board_sub64 [OF assms(1)] by (simp add: forward_def)
  moreover have "board_ok ?b" using le by (simp add: board_ok_def)
  moreover have "unread ?b = unread b @ e"
  proof -
    let ?u = "take (bT b - bH b) (drop (bH b) d)"
    have u: "length ?u = bT b - bH b" using le by simp
    have "drop (bH b) ?d = ?u @ e @ drop (bT b + length e) d" using le by (simp add: drop_take)
    moreover have "bT b + length e - bH b = length ?u + length e" using le u by simp
    ultimately have "take (bT b + length e - bH b) (drop (bH b) ?d) = ?u @ e"
      by (simp only: take_append) simp
    then show ?thesis using Some by (simp add: unread_def)
  qed
  ultimately show ?thesis by (auto simp: board_room_def)
qed

interpretation board: byte_sink "\<lambda>b e. forward e b" unread board_room board_ok
  by unfold_locales (use forward_fits in fastforce)

lemma backward_ok:
  assumes "board_ok b" "unread b = bs @ rest"
  shows "\<exists>b'. backward (length bs) b = Inr (bs, b') \<and> board_ok b' \<and> unread b' = rest \<and>
    board_room b' = board_room b"
proof -
  have len: "length bs + length rest = bT b - bH b" using length_unread [OF assms(1)] assms(2) by simp
  let ?b = "b\<lparr>bH := bH b + length bs\<rparr>"
  have ok: "board_ok ?b" using assms(1) len by (auto simp: board_ok_def split: option.splits)
  have "peek_bytes (sink b) (bH b) (length bs) = Inr bs \<and> unread ?b = rest"
  proof (cases "sink b")
    case None
    then show ?thesis using assms by (auto simp: unread_def peek_bytes_def)
  next
    case (Some d)
    have d: "take (bT b - bH b) (drop (bH b) d) = bs @ rest" using assms(2) Some by (simp add: unread_def)
    have "bH b + length bs \<le> length d" using assms(1) Some len by (auto simp: board_ok_def)
    moreover have "take (length bs) (drop (bH b) d) = take (length bs) (take (bT b - bH b) (drop (bH b) d))"
      using len by (simp add: min_def)
    then have "take (length bs) (drop (bH b) d) = bs" by (simp add: d)
    moreover have "take (bT b - (bH b + length bs)) (drop (bH b + length bs) d) = drop (length bs) (take (bT b - bH b) (drop (bH b) d))"
      by (simp add: drop_take add.commute)
    then have "take (bT b - (bH b + length bs)) (drop (bH b + length bs) d) = rest" by (simp add: d)
    ultimately show ?thesis using Some by (simp add: unread_def peek_bytes_def)
  qed
  with ok len board_sub64 [OF assms(1)] show ?thesis by (simp add: backward_def board_room_def)
qed

section \<open>Wire operators\<close>

text \<open>The types the operators are instantiated at. \<open>WStruct meta fields\<close> is a structure, each field
  with its \<open>unwire\<close> attribute; \<open>meta\<close> tells a class with generated \<open>toWire\<close>/\<open>fromWire\<close>
  (\<open>metaToWire\<close>, \<open>metaFromWire\<close>) from an \<open>iod::sio\<close>.\<close>

datatype wty =
    TVarInt
  | TData
  | TNum nat
  | TNullable wty
  | TVec wty
  | TStruct bool "(bool \<times> wty) list"

datatype wval =
    WVarInt nat
  | WData bytes
  | WNum nat
  | WNull
  | WSome wval
  | WVec "wval list"
  | WStruct "wval list"

definition is_filter_on :: "bool \<Rightarrow> bool" where
  "is_filter_on always \<longleftrightarrow> \<not> always"

text \<open>\<open>!m.attributes().has(var(unwire)) || ...\<close>: with \<open>isFilterOn()\<close> for a meta class, with \<open>always\<close> for
  an \<open>sio\<close>.\<close>

definition wired :: "bool \<Rightarrow> bool \<Rightarrow> bool \<Rightarrow> bool" where
  "wired always meta unwire \<longleftrightarrow> \<not> unwire \<or> (if meta then is_filter_on always else always)"

definition put_varint :: "nat \<Rightarrow> board \<Rightarrow> board result" where
  "put_varint v b =
     (let vi = vi_write v; sz = vi_length vi in
      rbind (forward [of_nat sz] b) (forward (take sz (le_bytes 8 (vi_read 8 vi)))))"

text \<open>Reading pulls up to 255 bytes into a \<open>uint64_t\<close>.\<close>

definition get_varint :: "board \<Rightarrow> (nat \<times> board) result" where
  "get_varint b =
     rbind (backward 1 b) (\<lambda>(s, b1).
     let sz = unat (hd s) in
     rbind (backward sz b1) (\<lambda>(bs, b2).
     if sz > 8 then Inl OutOfBoundsWrite else Inr (vi_read 8 (vi_write (le_value bs)), b2)))"

definition put_data :: "bytes \<Rightarrow> board \<Rightarrow> board result" where
  "put_data d b = rbind (put_varint (length d) b) (forward d)"

text \<open>A \<open>Data\<close> read back is left as it was (empty) when its size is 0; otherwise all its bytes are
  consumed, and the constructor keeps the low 32 bits of their number.\<close>

definition get_data :: "board \<Rightarrow> (bytes \<times> board) result" where
  "get_data b = rbind (get_varint b) (\<lambda>(sz, b1). 
       if sz \<noteq> 0 then rbind (backward sz b1) (\<lambda>(bs, b2). Inr (take (u32 sz) bs, b2)) else Inr ([], b1))"

definition put_num :: "nat \<Rightarrow> nat \<Rightarrow> board \<Rightarrow> board result" where
  "put_num n v b = forward (take n (le_bytes 8 v)) b"

definition get_num :: "nat \<Rightarrow> board \<Rightarrow> (nat \<times> board) result" where
  "get_num n b = rbind (backward n b) (\<lambda>(bs, b1). Inr (le_value bs, b1))"

fun put_val :: "bool \<Rightarrow> wty \<Rightarrow> wval \<Rightarrow> board \<Rightarrow> board result"
  and put_vec :: "bool \<Rightarrow> wty \<Rightarrow> wval list \<Rightarrow> board \<Rightarrow> board result"
  and put_fields :: "bool \<Rightarrow> bool \<Rightarrow> (bool \<times> wty) list \<Rightarrow> wval list \<Rightarrow> board \<Rightarrow> board result" where
  "put_val al TVarInt (WVarInt v) b = put_varint v b"
| "put_val al TData (WData d) b = put_data d b"
| "put_val al (TNum n) (WNum v) b = put_num n v b"
| "put_val al (TNullable t) WNull b = put_num 1 0 b"
| "put_val al (TNullable t) (WSome v) b = rbind (put_num 1 1 b) (put_val al t v)"
| "put_val al (TVec t) (WVec vs) b = rbind (put_varint (length vs) b) (put_vec al t vs)"
| "put_val al (TStruct meta fs) (WStruct vs) b = put_fields al meta fs vs b"
| "put_val al _ _ b = Inl InvalidArguments"
| "put_vec al t [] b = Inr b"
| "put_vec al t (v # vs) b = rbind (put_val al t v b) (put_vec al t vs)"
| "put_fields al meta ((u, t) # fs) (v # vs) b =
     rbind (if wired al meta u then put_val al t v b else Inr b) (put_fields al meta fs vs)"
| "put_fields al meta _ _ b = Inr b"

text \<open>What a C++ default construction of the type holds.\<close>

fun default_val :: "wty \<Rightarrow> wval" where
  "default_val TVarInt = WVarInt 0"
| "default_val TData = WData []"
| "default_val (TNum n) = WNum 0"
| "default_val (TNullable t) = WNull"
| "default_val (TVec t) = WVec []"
| "default_val (TStruct meta fs) = WStruct (map (\<lambda>(u, t). default_val t) fs)"

text \<open>\<open>for (int i = 0; i < entries; i++)\<close>: the comparison is one of 64-bit numbers, and after \<open>2 ^ 31\<close>
  elements the counter overflows.\<close>

fun get_val :: "bool \<Rightarrow> wty \<Rightarrow> board \<Rightarrow> (wval \<times> board) result"
  and get_vec :: "bool \<Rightarrow> wty \<Rightarrow> nat \<Rightarrow> board \<Rightarrow> (wval list \<times> board) result"
  and get_fields :: "bool \<Rightarrow> bool \<Rightarrow> (bool \<times> wty) list \<Rightarrow> board \<Rightarrow> (wval list \<times> board) result" where
  "get_val al TVarInt b = rbind (get_varint b) (\<lambda>(v, b1). Inr (WVarInt v, b1))"
| "get_val al TData b = rbind (get_data b) (\<lambda>(d, b1). Inr (WData d, b1))"
| "get_val al (TNum n) b = rbind (get_num n b) (\<lambda>(v, b1). Inr (WNum v, b1))"
| "get_val al (TNullable t) b =
     rbind (get_num 1 b) (\<lambda>(s, b1).
       if s \<noteq> 0 then rbind (get_val al t b1) (\<lambda>(v, b2). Inr (WSome v, b2)) else Inr (WNull, b1))"
| "get_val al (TVec t) b =
     rbind (get_varint b) (\<lambda>(n, b1). rbind (get_vec al t (min n (2 ^ 31)) b1) (\<lambda>(vs, b2).
       if n < 2 ^ 31 then Inr (WVec vs, b2) else Inl IntegerOverflow))"
| "get_val al (TStruct meta fs) b = rbind (get_fields al meta fs b) (\<lambda>(vs, b1). Inr (WStruct vs, b1))"
| "get_vec al t 0 b = Inr ([], b)"
| "get_vec al t (Suc n) b =
     rbind (get_val al t b) (\<lambda>(v, b1). rbind (get_vec al t n b1) (\<lambda>(vs, b2). Inr (v # vs, b2)))"
| "get_fields al meta [] b = Inr ([], b)"
| "get_fields al meta ((u, t) # fs) b =
     rbind (if wired al meta u then get_val al t b else Inr (default_val t, b)) (\<lambda>(v, b1).
     rbind (get_fields al meta fs b1) (\<lambda>(vs, b2). Inr (v # vs, b2)))"

definition max_varint :: "nat \<Rightarrow> nat" where
  "max_varint v = 1 + vi_length (vi_write v)"

fun max_byte_size :: "wty \<Rightarrow> wval \<Rightarrow> nat"
  and max_fields :: "(bool \<times> wty) list \<Rightarrow> wval list \<Rightarrow> nat" where
  "max_byte_size TVarInt (WVarInt v) = max_varint v"
| "max_byte_size TData (WData d) = max_varint (length d) + length d"
| "max_byte_size (TNum n) (WNum v) = n"
| "max_byte_size (TNullable t) (WSome v) = 1 + max_byte_size t v"
| "max_byte_size (TNullable t) _ = 1"
| "max_byte_size (TVec t) (WVec vs) = max_varint (length vs) + sum_list (map (max_byte_size t) vs)"
| "max_byte_size (TStruct meta fs) (WStruct vs) = max_fields fs vs"
| "max_byte_size _ _ = 0"
| "max_fields ((u, t) # fs) (v # vs) = max_byte_size t v + max_fields fs vs"
| "max_fields _ _ = 0"

section \<open>The format, as byte strings\<close>

definition enc_varint :: "nat \<Rightarrow> bytes" where
  "enc_varint v = of_nat (shift_count v) # le_bytes (shift_count v) v"

fun enc_val :: "bool \<Rightarrow> wty \<Rightarrow> wval \<Rightarrow> bytes"
  and enc_fields :: "bool \<Rightarrow> bool \<Rightarrow> (bool \<times> wty) list \<Rightarrow> wval list \<Rightarrow> bytes" where
  "enc_val al TVarInt (WVarInt v) = enc_varint v"
| "enc_val al TData (WData d) = enc_varint (length d) @ d"
| "enc_val al (TNum n) (WNum v) = le_bytes n v"
| "enc_val al (TNullable t) (WSome v) = 1 # enc_val al t v"
| "enc_val al (TNullable t) _ = [0]"
| "enc_val al (TVec t) (WVec vs) = enc_varint (length vs) @ concat (map (enc_val al t) vs)"
| "enc_val al (TStruct meta fs) (WStruct vs) = enc_fields al meta fs vs"
| "enc_val al _ _ = []"
| "enc_fields al meta ((u, t) # fs) (v # vs) =
     (if wired al meta u then enc_val al t v else []) @ enc_fields al meta fs vs"
| "enc_fields al meta _ _ = []"

text \<open>Values of a type: numbers in range, a \<open>Data\<close> within its 32-bit size, vectors below the range of the
  \<open>int\<close> that counts them when they are read; a field that is not written is
  as default construction leaves it.\<close>

fun has_type :: "bool \<Rightarrow> wval \<Rightarrow> wty \<Rightarrow> bool"
  and have_types :: "bool \<Rightarrow> bool \<Rightarrow> wval list \<Rightarrow> (bool \<times> wty) list \<Rightarrow> bool" where
  "has_type al (WVarInt v) TVarInt \<longleftrightarrow> v < 2 ^ 64"
| "has_type al (WData d) TData \<longleftrightarrow> length d < 2 ^ 32"
| "has_type al (WNum v) (TNum n) \<longleftrightarrow> n \<le> 8 \<and> v < 256 ^ n"
| "has_type al WNull (TNullable t) \<longleftrightarrow> True"
| "has_type al (WSome v) (TNullable t) \<longleftrightarrow> has_type al v t"
| "has_type al (WVec vs) (TVec t) \<longleftrightarrow> length vs < 2 ^ 31 \<and> list_all (\<lambda>v. has_type al v t) vs"
| "has_type al (WStruct vs) (TStruct meta fs) \<longleftrightarrow> have_types al meta vs fs"
| "has_type al _ _ \<longleftrightarrow> False"
| "have_types al meta [] [] \<longleftrightarrow> True"
| "have_types al meta (v # vs) ((u, t) # fs) \<longleftrightarrow>
     (if wired al meta u then has_type al v t else v = default_val t) \<and> have_types al meta vs fs"
| "have_types al meta _ _ \<longleftrightarrow> False"

lemma shift_count_8: "v < 2 ^ 64 \<Longrightarrow> shift_count v \<le> 8"
  using shift_count_bounds [of v 8] by simp

lemma take_le_bytes: "k \<le> n \<Longrightarrow> take k (le_bytes n v) = le_bytes k v"
proof (induction n v arbitrary: k rule: le_bytes.induct)
  case (2 n v)
  then show ?case by (cases k) simp_all
qed simp

lemma enc_varint_eq:
  "v < 2 ^ 64 \<Longrightarrow> vi_length (vi_write v) = shift_count v \<and>
   take (vi_length (vi_write v)) (le_bytes 8 (vi_read 8 (vi_write v))) = le_bytes (shift_count v) v"
  by (simp add: vi_length_def vi_read_write take_le_bytes shift_count_8)

lemma put_varint_ok:
  assumes "board_ok b" "v < 2 ^ 64" "length (enc_varint v) \<le> board_room b"
  shows "\<exists>b'. put_varint v b = Inr b' \<and> board_ok b' \<and> unread b' = unread b @ enc_varint v \<and>
    board_room b' = board_room b - length (enc_varint v)"
  using board.put_put [OF assms(1), of "[of_nat (shift_count v)]" "le_bytes (shift_count v) v"]
    assms(2,3) enc_varint_eq [OF assms(2)]
  by (auto simp: put_varint_def Let_def enc_varint_def)

lemma put_data_ok:
  assumes "board_ok b" "length d < 2 ^ 32" "length (enc_varint (length d) @ d) \<le> board_room b"
  shows "\<exists>b'. put_data d b = Inr b' \<and> board_ok b' \<and> unread b' = unread b @ enc_varint (length d) @ d \<and>
    board_room b' = board_room b - length (enc_varint (length d) @ d)"
proof -
  obtain b1 where b1: "put_varint (length d) b = Inr b1" "board_ok b1"
      "unread b1 = unread b @ enc_varint (length d)" "board_room b1 = board_room b - length (enc_varint (length d))"
    using put_varint_ok [OF assms(1), of "length d"] assms(2,3) by auto
  with forward_fits [OF b1(2), of d] assms(3) show ?thesis by (auto simp: put_data_def)
qed

lemma put_num_ok:
  assumes "board_ok b" "n \<le> 8" "n \<le> board_room b"
  shows "\<exists>b'. put_num n v b = Inr b' \<and> board_ok b' \<and> unread b' = unread b @ le_bytes n v \<and>
    board_room b' = board_room b - n"
  using forward_fits [OF assms(1), of "le_bytes n v"] assms by (simp add: put_num_def take_le_bytes)

lemma le_bytes_1: "le_bytes (Suc 0) 0 = [0]" "le_bytes (Suc 0) (Suc 0) = [1]"
  by simp_all

text \<open>The operators refine the format: with room for it, \<open>put_val\<close> appends the encoding.\<close>

lemma put_val_refines:
  "board_ok b \<Longrightarrow> has_type al v t \<Longrightarrow> length (enc_val al t v) \<le> board_room b \<Longrightarrow>
    \<exists>b'. put_val al t v b = Inr b' \<and> board_ok b' \<and> unread b' = unread b @ enc_val al t v \<and>
      board_room b' = board_room b - length (enc_val al t v)"
  "board_ok b \<Longrightarrow> list_all (\<lambda>v. has_type al v t) vs \<Longrightarrow>
    length (concat (map (enc_val al t) vs)) \<le> board_room b \<Longrightarrow>
    \<exists>b'. put_vec al t vs b = Inr b' \<and> board_ok b' \<and> unread b' = unread b @ concat (map (enc_val al t) vs) \<and>
      board_room b' = board_room b - length (concat (map (enc_val al t) vs))"
  "board_ok b \<Longrightarrow> have_types al meta vs fs \<Longrightarrow> length (enc_fields al meta fs vs) \<le> board_room b \<Longrightarrow>
    \<exists>b'. put_fields al meta fs vs b = Inr b' \<and> board_ok b' \<and> unread b' = unread b @ enc_fields al meta fs vs \<and>
      board_room b' = board_room b - length (enc_fields al meta fs vs)"
proof (induction al t v b and al t vs b and al meta fs vs b rule: put_val_put_vec_put_fields.induct)
  case (1 al v b)
  then show ?case using put_varint_ok by simp
next
  case (2 al d b)
  then show ?case using put_data_ok by simp
next
  case (3 al n v b)
  then show ?case using put_num_ok [of b n v] by simp
next
  case (4 al t b)
  then show ?case using put_num_ok [of b 1 0] by (simp add: le_bytes_1 del: le_bytes.simps)
next
  case (5 al t v b)
  obtain b1 where "put_num 1 1 b = Inr b1" "board_ok b1" "unread b1 = unread b @ [1]"
      "board_room b1 = board_room b - 1"
    using put_num_ok [OF "5.prems"(1), of 1 1] "5.prems"(3) by (auto simp: le_bytes_1 simp del: le_bytes.simps)
  with "5.IH" [of b1] "5.prems" show ?case by auto
next
  case (6 al t vs b)
  obtain b1 where "put_varint (length vs) b = Inr b1" "board_ok b1"
      "unread b1 = unread b @ enc_varint (length vs)" "board_room b1 = board_room b - length (enc_varint (length vs))"
    using put_varint_ok [OF "6.prems"(1), of "length vs"] "6.prems" by auto
  with "6.IH" [of b1] "6.prems" show ?case by auto
next
  case (10 al t v vs b)
  obtain b1 where "put_val al t v b = Inr b1" "board_ok b1" "unread b1 = unread b @ enc_val al t v"
      "board_room b1 = board_room b - length (enc_val al t v)"
    using "10.IH"(1) "10.prems" by auto
  with "10.IH"(2) [of b1] "10.prems" show ?case by auto
next
  case (11 al meta u t fs v vs b)
  obtain b1 where "(if wired al meta u then put_val al t v b else Inr b) = Inr b1" "board_ok b1"
      "unread b1 = unread b @ (if wired al meta u then enc_val al t v else [])"
      "board_room b1 = board_room b - length (if wired al meta u then enc_val al t v else [])"
    using "11.IH"(1) "11.prems" by (auto split: if_splits)
  with "11.IH"(2) [of b1] "11.prems" show ?case by (auto split: if_splits)
qed auto

lemma get_varint_ok:
  assumes "board_ok b" "v < 2 ^ 64" "unread b = enc_varint v @ rest"
  shows "\<exists>b'. get_varint b = Inr (v, b') \<and> board_ok b' \<and> unread b' = rest \<and> board_room b' = board_room b"
proof -
  have k: "shift_count v \<le> 8" by (rule shift_count_8 [OF assms(2)])
  have "unread b = [of_nat (shift_count v)] @ (le_bytes (shift_count v) v @ rest)"
    using assms(3) by (simp add: enc_varint_def)
  then obtain b1 where b1: "backward 1 b = Inr ([of_nat (shift_count v)], b1)" "board_ok b1"
      "unread b1 = le_bytes (shift_count v) v @ rest" "board_room b1 = board_room b"
    using backward_ok [OF assms(1), of "[of_nat (shift_count v)]"] by auto
  have "unat (of_nat (shift_count v) :: byte) = shift_count v"
    using k by (simp add: unat_of_nat take_bit_eq_mod)
  moreover obtain b2 where "backward (shift_count v) b1 = Inr (le_bytes (shift_count v) v, b2)" "board_ok b2"
      "unread b2 = rest" "board_room b2 = board_room b1"
    using backward_ok [OF b1(2,3)] by auto
  moreover have "le_value (le_bytes (shift_count v) v) = v"
    using shift_count_bounds by (intro le_value_bytes) blast
  ultimately show ?thesis using b1 k assms(2)
    by (simp add: get_varint_def Let_def vi_read_write)
qed

lemma get_data_ok:
  assumes "board_ok b" "length d < 2 ^ 32" "unread b = enc_varint (length d) @ d @ rest"
  shows "\<exists>b'. get_data b = Inr (d, b') \<and> board_ok b' \<and> unread b' = rest \<and> board_room b' = board_room b"
proof -
  obtain b1 where "get_varint b = Inr (length d, b1)" "board_ok b1" "unread b1 = d @ rest"
      "board_room b1 = board_room b"
    using get_varint_ok [OF assms(1) _ assms(3)] assms(2) by auto
  with backward_ok [of b1 d rest] assms(2) show ?thesis by (auto simp: get_data_def)
qed

lemma get_num_ok:
  assumes "board_ok b" "v < 256 ^ n" "unread b = le_bytes n v @ rest"
  shows "\<exists>b'. get_num n b = Inr (v, b') \<and> board_ok b' \<and> unread b' = rest \<and> board_room b' = board_room b"
  using backward_ok [OF assms(1,3)] le_value_bytes [OF assms(2)] by (auto simp: get_num_def)

lemma get_vec_get_n: "get_vec al t n b = get_n (get_val al t) n b"
  by (induction n arbitrary: b) auto

lemma get_val_inverse:
  "has_type al v t \<Longrightarrow> board_ok b \<Longrightarrow> unread b = enc_val al t v @ rest \<Longrightarrow>
    \<exists>b'. get_val al t b = Inr (v, b') \<and> board_ok b' \<and> unread b' = rest \<and> board_room b' = board_room b"
  "have_types al meta vs fs \<Longrightarrow> board_ok b \<Longrightarrow> unread b = enc_fields al meta fs vs @ rest \<Longrightarrow>
    \<exists>b'. get_fields al meta fs b = Inr (vs, b') \<and> board_ok b' \<and> unread b' = rest \<and> board_room b' = board_room b"
proof (induction al v t and al meta vs fs arbitrary: b rest and b rest rule: has_type_have_types.induct)
  case (1 al v)
  then show ?case using get_varint_ok [of b v rest] by auto
next
  case (2 al d)
  then show ?case using get_data_ok [of b d rest] by auto
next
  case (3 al v n)
  then show ?case using get_num_ok [of b v n rest] by auto
next
  case (4 al t)
  then show ?case using get_num_ok [of b 0 1 rest] by auto
next
  case (5 al v t)
  obtain b1 where "get_num 1 b = Inr (1, b1)" "board_ok b1" "unread b1 = enc_val al t v @ rest"
      "board_room b1 = board_room b"
    using get_num_ok [of b 1 1 "enc_val al t v @ rest"] "5.prems" by auto
  with "5.IH" [of b1 rest] "5.prems"(1) show ?case by auto
next
  case (6 al vs t)
  have "prefix_codec (enc_val al t) (get_val al t) unread (\<lambda>b'. board_ok b' \<and> board_room b' = board_room b) (\<lambda>v. v \<in> set vs)"
    using "6.IH" "6.prems"(1) by unfold_locales (fastforce simp: list_all_iff)
  note vec = prefix_codec.get_n_enc [OF this, of vs _ rest]
  obtain b1 where "get_varint b = Inr (length vs, b1)" "board_ok b1"
      "unread b1 = concat (map (enc_val al t) vs) @ rest" "board_room b1 = board_room b"
    using get_varint_ok [of b "length vs" "concat (map (enc_val al t) vs) @ rest"] "6.prems" by auto
  with vec [of b1] "6.prems"(1) show ?case by (auto simp: list_all_iff get_vec_get_n min_def)
next
  case (7 al vs meta fs)
  have "\<exists>b'. get_fields al meta fs b = Inr (vs, b') \<and> board_ok b' \<and> unread b' = rest \<and> board_room b' = board_room b"
    using "7.IH" [of b rest] "7.prems" by simp
  then show ?case by auto
next
  case (10 al meta v vs u t fs)
  obtain b1 where "(if wired al meta u then get_val al t b else Inr (default_val t, b)) = Inr (v, b1)"
      "board_ok b1" "unread b1 = enc_fields al meta fs vs @ rest" "board_room b1 = board_room b"
  proof (cases "wired al meta u")
    case True
    then show ?thesis using that "10.IH"(1) [of b "enc_fields al meta fs vs @ rest"] "10.prems" by auto
  next
    case False
    then show ?thesis using that "10.prems" by auto
  qed
  with "10.IH"(2) [of b1 rest] "10.prems"(1) show ?case by auto
qed auto

text \<open>Each reader undoes its writer's encoding: the numbers, the byte strings and the values.\<close>

interpretation varint_codec: prefix_codec enc_varint get_varint unread "\<lambda>b. board_ok b \<and> board_room b = r" "\<lambda>v. v < 2 ^ 64" for r
  by unfold_locales (use get_varint_ok in blast)

interpretation data_codec: prefix_codec "\<lambda>d. enc_varint (length d) @ d" get_data unread
    "\<lambda>b. board_ok b \<and> board_room b = r" "\<lambda>d. length d < 2 ^ 32" for r
  by unfold_locales (use get_data_ok in fastforce)

interpretation value_codec: prefix_codec "enc_val al t" "get_val al t" unread
    "\<lambda>b. board_ok b \<and> board_room b = r" "\<lambda>v. has_type al v t" for al t r
  by unfold_locales (use get_val_inverse(1) in blast)

lemma max_varint_eq: "v < 2 ^ 64 \<Longrightarrow> max_varint v = length (enc_varint v)"
  by (simp add: max_varint_def enc_varint_eq enc_varint_def)

lemma sum_list_bound: "(\<And>x. x \<in> set xs \<Longrightarrow> length (f x) \<le> g x) \<Longrightarrow> length (concat (map f xs)) \<le> sum_list (map g xs)"
  by (induction xs) (auto simp: add_mono)

lemma enc_val_max:
  "has_type al v t \<Longrightarrow> length (enc_val al t v) \<le> max_byte_size t v"
  "have_types al meta vs fs \<Longrightarrow> length (enc_fields al meta fs vs) \<le> max_fields fs vs"
proof (induction al v t and al meta vs fs rule: has_type_have_types.induct)
  case (6 al vs t)
  have "length (concat (map (enc_val al t) vs)) \<le> sum_list (map (max_byte_size t) vs)"
    using 6 by (intro sum_list_bound) (auto simp: list_all_iff)
  with 6 show ?case by (simp add: max_varint_eq)
qed (auto simp: max_varint_eq split: if_splits)

section \<open>HeapBoard\<close>

record heap_board = board +
  hb_own :: bool

definition malloc :: "allocator \<Rightarrow> nat \<Rightarrow> bytes option" where
  "malloc al n = (if can_alloc al n then Some (replicate n (junk al)) else None)"

definition hb_new :: "allocator \<Rightarrow> nat \<Rightarrow> heap_board" where
  "hb_new al n = \<lparr>sink = malloc al n, bH = 0, bT = 0, bM = n, hb_own = True\<rparr>"

definition hb_view :: "bytes option \<Rightarrow> nat \<Rightarrow> bool \<Rightarrow> heap_board" where
  "hb_view buf n own = \<lparr>sink = buf, bH = 0, bT = n, bM = n, hb_own = own\<rparr>"

definition hb_move :: "heap_board \<Rightarrow> heap_board \<times> heap_board" where
  "hb_move hb = (hb, \<lparr>sink = None, bH = 0, bT = 0, bM = 0, hb_own = False\<rparr>)"

definition hb_clear :: "heap_board \<Rightarrow> heap_board" where
  "hb_clear hb =
     (let hb1 = (if hb_own hb \<and> sink hb \<noteq> None
                 then hb\<lparr>bM := bT hb, bH := bT hb, hb_own := False\<rparr> else hb)
      in hb1\<lparr>sink := None\<rparr>)"

definition write_mem :: "bytes option \<Rightarrow> bytes \<Rightarrow> bytes option result" where
  "write_mem d bs = poke d 0 bs"

definition copyfrom :: "allocator \<Rightarrow> bytes option \<Rightarrow> nat \<Rightarrow> heap_board \<Rightarrow> heap_board result" where
  "copyfrom al d sz hb =
     (if d \<noteq> None \<and> sz > 0 then
        rbind (peek_bytes d 0 sz) (\<lambda>bs.
        rbind (write_mem (malloc al sz) bs) (\<lambda>m.
        Inr ((hb_clear hb)\<lparr>sink := m, bM := sz, hb_own := True, bH := 0, bT := sz\<rparr>)))
      else Inr hb)"

definition seal :: "allocator \<Rightarrow> heap_board \<Rightarrow> (bool \<times> heap_board) result" where
  "seal al hb =
     (let tmp = sub64 (bT hb) (bH hb) in
      if hb_own hb \<and> tmp \<noteq> 0 \<and> tmp < bM hb - bM hb div 2 then
        rbind (peek_bytes (sink hb) (bH hb) tmp) (\<lambda>bs.
        rbind (write_mem (malloc al tmp) bs) (\<lambda>td.
        Inr (True, (hb_clear hb)\<lparr>sink := td, hb_own := True, bM := bM hb, bT := bT hb, bH := bH hb\<rparr>)))
      else Inr (False, hb))"

text \<open>The released data: the bytes at the start of the storage, as many as the 32-bit size of a \<open>Data\<close>
  says, and whether they are owned.\<close>

definition hb_release :: "allocator \<Rightarrow> heap_board \<Rightarrow> ((bytes \<times> bool) \<times> heap_board) result" where
  "hb_release al hb =
     (if sub64 (bT hb) (bH hb) \<noteq> 0 then
        rbind (seal al hb) (\<lambda>(_, hb1).
        rbind (peek_bytes (sink hb1) 0 (u32 (sub64 (bT hb1) (bH hb1)))) (\<lambda>bs.
        Inr ((bs, hb_own hb1), hb_clear (hb1\<lparr>hb_own := False\<rparr>))))
      else Inr (([], False), hb))"

definition on_board :: "(board \<Rightarrow> board result) \<Rightarrow> heap_board \<Rightarrow> heap_board result" where
  "on_board f hb = rbind (f (board.truncate hb)) (\<lambda>b. Inr (board.extend b \<lparr>hb_own = hb_own hb\<rparr>))"

primrec put_zeros :: "nat \<Rightarrow> board \<Rightarrow> board result" where
  "put_zeros 0 b = Inr b"
| "put_zeros (Suc n) b = rbind (put_num 1 0 b) (put_zeros n)"

definition serialize :: "allocator \<Rightarrow> wty \<Rightarrow> wval \<Rightarrow> nat \<Rightarrow> bytes result" where
  "serialize al t v off =
     rbind (on_board (\<lambda>b. rbind (put_zeros off b) (put_val False t v))
              (hb_new al (max_byte_size t v + min off 16))) (\<lambda>hb.
     rbind (hb_release al hb) (\<lambda>((bs, own), _). Inr bs))"

definition parse :: "wty \<Rightarrow> bytes \<Rightarrow> wval result" where
  "parse t d =
     rbind (get_val False t (board.truncate (hb_view (Some d) (length d) False))) (\<lambda>(v, _). Inr v)"

lemma hb_new_ok:
  assumes "can_alloc al n" "n < 2 ^ 64"
  shows "board_ok (board.truncate (hb_new al n))" "unread (board.truncate (hb_new al n)) = []"
    "board_room (board.truncate (hb_new al n)) = n"
  using assms by (simp_all add: hb_new_def malloc_def board.truncate_def board_ok_def unread_def board_room_def)

lemma put_zeros_ok:
  "board_ok b \<Longrightarrow> n \<le> board_room b \<Longrightarrow>
   \<exists>b'. put_zeros n b = Inr b' \<and> board_ok b' \<and> unread b' = unread b @ replicate n 0 \<and> board_room b' = board_room b - n"
proof (induction n arbitrary: b)
  case (Suc n)
  obtain b1 where "put_num 1 0 b = Inr b1" "board_ok b1" "unread b1 = unread b @ [0]" "board_room b1 = board_room b - 1"
    using put_num_ok [OF Suc.prems(1), of 1 0] Suc.prems(2) by (auto simp: le_bytes_1 simp del: le_bytes.simps)
  with Suc.IH [of b1] Suc.prems show ?case by auto
qed simp

text \<open>The write and read offsets of a board that only wrote.\<close>

lemma forward_H: "forward e b = Inr b' \<Longrightarrow> bH b' = bH b"
  by (auto simp: forward_def rbind_Inr_iff split: if_splits)

lemma put_varint_H: "put_varint v b = Inr b' \<Longrightarrow> bH b' = bH b"
  by (auto simp: put_varint_def rbind_Inr_iff Let_def dest!: forward_H)

lemma put_val_H:
  "put_val al t v b = Inr b' \<Longrightarrow> bH b' = bH b"
  "put_vec al t vs b = Inr b' \<Longrightarrow> bH b' = bH b"
  "put_fields al meta fs vs b = Inr b' \<Longrightarrow> bH b' = bH b"
proof (induction al t v b and al t vs b and al meta fs vs b arbitrary: b' and b' and b'
    rule: put_val_put_vec_put_fields.induct)
  case (11 al meta u t fs v vs b)
  then show ?case by (fastforce simp: rbind_Inr_iff split: if_splits)
qed (auto simp: rbind_Inr_iff put_data_def put_num_def dest!: put_varint_H forward_H)

lemma put_zeros_H: "put_zeros n b = Inr b' \<Longrightarrow> bH b' = bH b"
  by (induction n arbitrary: b) (auto simp: rbind_Inr_iff put_num_def dest!: forward_H)

lemma write_fresh: "can_alloc al (length bs) \<Longrightarrow> write_mem (malloc al (length bs)) bs = Inr (Some bs)"
  by (simp add: write_mem_def malloc_def poke_def)

lemma extend_sel [simp]:
  "sink (board.extend b r) = sink b" "bH (board.extend b r) = bH b" "bT (board.extend b r) = bT b"
  "bM (board.extend b r) = bM b" "hb_own (board.extend b \<lparr>hb_own = own\<rparr>) = own"
  by (simp_all add: board.extend_def)

lemma hb_release_unread:
  assumes "board_ok b" "bH b = 0" "bT b < 2 ^ 32" "\<And>n. n < 2 ^ 64 \<Longrightarrow> can_alloc al n"
  shows "\<exists>own hb'. hb_release al (board.extend b \<lparr>hb_own = True\<rparr>) = Inr ((unread b, own), hb')"
proof (cases "bT b = 0")
  case True
  then show ?thesis using assms by (auto simp: hb_release_def unread_def sub64_def split: option.splits)
next
  case False
  let ?hb = "board.extend b \<lparr>hb_own = True\<rparr>"
  obtain d where d: "sink b = Some d" "bT b \<le> length d" "bT b < 2 ^ 64"
    using assms(1) False by (cases "sink b") (auto simp: board_ok_def)
  have u: "unread b = take (bT b) d" "length (unread b) = bT b"
    using d assms(2) by (simp_all add: unread_def)
  have n: "sub64 (bT b) (bH b) = bT b" using assms(2) d by simp
  have p: "peek_bytes (sink b) (bH b) (bT b) = Inr (unread b)" "peek_bytes (sink b) 0 (bT b) = Inr (unread b)"
    using d assms(2) False u by (simp_all add: peek_bytes_def)
  have w: "write_mem (malloc al (bT b)) (unread b) = Inr (Some (unread b))"
    using write_fresh [of al "unread b"] assms(4) u d(3) by simp
  have q: "peek_bytes (Some (unread b)) 0 (bT b) = Inr (unread b)"
    using u by (simp add: peek_bytes_def)
  obtain sealed hb1 where s: "seal al ?hb = Inr (sealed, hb1)" "peek_bytes (sink hb1) 0 (bT b) = Inr (unread b)"
      "bT hb1 = bT b" "bH hb1 = bH b"
    using n p w q False by (cases "bT b < bM b - bM b div 2") (auto simp: seal_def Let_def)
  then show ?thesis using n False assms(3) by (auto simp: hb_release_def)
qed

section \<open>Properties\<close>

text \<open>C4: a board is a first-in-first-out queue of typed values: with room for \<open>maxByteSize\<close> of a
  well-typed value (byte strings below the 4 GB of a \<open>Data\<close>, vectors below \<open>2 ^ 31\<close> elements), writing it succeeds, keeps the board well formed and what was unread, and once
  that is consumed reading the type gives back the value and leaves nothing.\<close>

theorem wire_fifo:
  assumes "board_ok b" "has_type al v t" "max_byte_size t v \<le> board_room b"
  shows "\<exists>b' b1 b2. put_val al t v b = Inr b' \<and> board_ok b' \<and> board_room b - max_byte_size t v \<le> board_room b' \<and>
     move (board_size b) b' = (True, b1) \<and> get_val al t b1 = Inr (v, b2) \<and> board_ok b2 \<and> unread b2 = []"
proof -
  note len = enc_val_max(1) [OF assms(2)]
  have room: "length (enc_val al t v) \<le> board_room b" using len assms(3) by (rule le_trans)
  obtain b' where b': "put_val al t v b = Inr b'" "board_ok b'" "unread b' = unread b @ enc_val al t v"
      "board_room b' = board_room b - length (enc_val al t v)"
    using put_val_refines(1) [OF assms(1,2) room] by blast
  have n: "board_size b = length (unread b)" "board_size b' = length (unread b')"
    using length_unread [OF assms(1)] length_unread [OF b'(2)] board_sub64 [OF assms(1)] board_sub64 [OF b'(2)]
    by (simp_all add: board_size_def)
  then have m: "move (board_size b) b' = (True, b'\<lparr>bH := bH b' + board_size b\<rparr>)"
    using b'(3) by (simp add: move_def)
  obtain b1 where b1: "backward (length (unread b)) b' = Inr (unread b, b1)" "board_ok b1" "unread b1 = enc_val al t v @ []"
    using backward_ok [OF b'(2,3)] by auto
  then have "b1 = b'\<lparr>bH := bH b' + board_size b\<rparr>"
    using n by (auto simp: backward_def rbind_Inr_iff split: if_splits)
  moreover obtain b2 where "get_val al t b1 = Inr (v, b2)" "board_ok b2" "unread b2 = []"
    using value_codec.get_enc [OF assms(2) _ b1(3)] b1(2) by blast
  ultimately show ?thesis using b' m len diff_le_mono2 by metis
qed

definition sample_type :: wty where
  "sample_type = TStruct False [(False, TNum 4), (True, TData), (False, TVec (TNullable TVarInt))]"

definition sample_value :: wval where
  "sample_value = WStruct [WNum 70000, WData [], WVec [WSome (WVarInt 300), WNull]]"

lemma sample_shift: "shift_count 300 = 2" "shift_count (Suc (Suc 0)) = 1" "shift_count 0 = 0"
  by (simp_all add: shift_count.simps)

lemma sample_sizes: "max_byte_size sample_type sample_value = 12" "has_type False sample_value sample_type"
  by (simp_all add: sample_type_def sample_value_def max_varint_eq enc_varint_def sample_shift wired_def)

theorem wire_fifo_witness:
  "\<exists>b' b1 b2. put_val False sample_type sample_value (new_board (replicate 64 0)) = Inr b' \<and> board_ok b' \<and>
     board_room (new_board (replicate 64 0)) - max_byte_size sample_type sample_value \<le> board_room b' \<and>
     move (board_size (new_board (replicate 64 0))) b' = (True, b1) \<and>
     get_val False sample_type b1 = Inr (sample_value, b2) \<and> board_ok b2 \<and> unread b2 = []"
  by (rule wire_fifo) (simp_all add: sample_sizes new_board_def board_ok_def board_room_def)

text \<open>C14: \<open>HeapBoard::serialize\<close> never runs out of the board it sizes with \<open>maxByteSize\<close> when at most
  16 bytes of prefix are asked for and both together stay below the 4 GB of a \<open>Data\<close> (the vectors below
  \<open>2 ^ 31\<close> elements, memory always to be had); what it releases is the prefix of zeros and the encoding, and
  \<open>parse\<close> on the part after the prefix gives the value back.\<close>

theorem serialize_parse:
  assumes "has_type False v t" "off \<le> 16" "max_byte_size t v + off < 2 ^ 32" "\<forall>n < 2 ^ 64. can_alloc al n"
  shows "\<exists>bs. serialize al t v off = Inr bs \<and> take off bs = replicate off 0 \<and> parse t (drop off bs) = Inr v"
proof -
  let ?n = "max_byte_size t v + off"
  let ?b = "board.truncate (hb_new al ?n)"
  note len = enc_val_max(1) [OF assms(1)]
  have n: "?n < 2 ^ 64" using assms(2,3) by simp
  note new = hb_new_ok [OF assms(4) [rule_format, OF n] n]
  obtain b1 where b1: "put_zeros off ?b = Inr b1" "board_ok b1" "unread b1 = replicate off 0"
      "board_room b1 = max_byte_size t v"
    using put_zeros_ok [OF new(1), of off] new by auto
  obtain b2 where b2: "put_val False t v b1 = Inr b2" "board_ok b2" "unread b2 = replicate off 0 @ enc_val False t v"
    using put_val_refines(1) [OF b1(2) assms(1)] b1 len by auto
  have "bH ?b = 0" by (simp add: hb_new_def board.truncate_def)
  then have "bH b2 = 0" using put_val_H(1) [OF b2(1)] put_zeros_H [OF b1(1)] by simp
  have "length (unread b2) < 2 ^ 32" using b2(3) len assms(3) by simp
  with length_unread [OF b2(2)] \<open>bH b2 = 0\<close> have size: "bT b2 < 2 ^ 32" by simp
  obtain own hb' where "hb_release al (board.extend b2 \<lparr>hb_own = True\<rparr>) = Inr ((unread b2, own), hb')"
    using hb_release_unread [OF b2(2) \<open>bH b2 = 0\<close> size] assms(4) by blast
  moreover have "on_board (\<lambda>b. rbind (put_zeros off b) (put_val False t v)) (hb_new al ?n)
      = Inr (board.extend b2 \<lparr>hb_own = True\<rparr>)"
    using b1(1) b2(1) by (simp add: on_board_def) (simp add: hb_new_def)
  ultimately have ser: "serialize al t v off = Inr (unread b2)"
    using assms(2) by (simp add: serialize_def)
  let ?v = "board.truncate (hb_view (Some (enc_val False t v)) (length (enc_val False t v)) False)"
  have "board_ok ?v" "unread ?v = enc_val False t v @ []"
    using len assms(3) by (simp_all add: hb_view_def board.truncate_def board_ok_def unread_def)
  then obtain b3 where "get_val False t ?v = Inr (v, b3)" using get_val_inverse(1) [OF assms(1)] by blast
  then have "parse t (enc_val False t v) = Inr v" by (simp add: parse_def)
  with ser b2(3) show ?thesis by simp
qed

theorem serialize_parse_witness:
  "\<exists>bs. serialize alloc_any sample_type sample_value 2 = Inr bs \<and> take 2 bs = replicate 2 0 \<and>
     parse sample_type (drop 2 bs) = Inr sample_value"
  by (rule serialize_parse) (simp_all add: sample_sizes alloc_any_def)

text \<open>C36: reading a \<open>VarInt\<close> trusts the size byte it is sent: up to 8 it is the little-endian value of
  that many bytes, more than 8 (and as many bytes unread) is a write past the eight-byte variable
  they are copied into, and a short input is the board's own error.\<close>

theorem get_varint_spec:
  assumes "board_ok b" "unread b = s # us"
  shows "if length us < unat s then get_varint b = Inl BufferOutOfMemory
     else if 8 < unat s then get_varint b = Inl OutOfBoundsWrite
     else \<exists>b'. get_varint b = Inr (le_value (take (unat s) us), b') \<and> board_ok b' \<and> unread b' = drop (unat s) us"
proof -
  obtain b1 where b1: "backward 1 b = Inr ([s], b1)" "board_ok b1" "unread b1 = us"
    using backward_ok [OF assms(1), of "[s]" us] assms(2) by auto
  have size1: "sub64 (bT b1) (bH b1) = length us" using length_unread [OF b1(2)] board_sub64 [OF b1(2)] b1(3) by simp
  show ?thesis
  proof (cases "length us < unat s")
    case True
    then show ?thesis using b1 size1 by (simp add: get_varint_def Let_def backward_def)
  next
    case False
    then have len: "length (take (unat s) us) = unat s" by simp
    have us: "unread b1 = take (unat s) us @ drop (unat s) us" using b1(3) by simp
    obtain b2 where b2: "backward (unat s) b1 = Inr (take (unat s) us, b2)" "board_ok b2" "unread b2 = drop (unat s) us"
      using backward_ok [OF b1(2) us] unfolding len by blast
    have "le_value (take (unat s) us) < 2 ^ 64" if "unat s \<le> 8"
    proof -
      have "le_value (take (unat s) us) < 256 ^ unat s" using le_value_less [of "take (unat s) us"] len by simp
      also have "(256 :: nat) ^ unat s \<le> 256 ^ 8" using that by (intro power_increasing) auto
      finally show ?thesis by simp
    qed
    then show ?thesis using False b1(1) b2 by (simp add: get_varint_def Let_def vi_read_write)
  qed
qed

theorem get_varint_spec_witness:
  "get_varint \<lparr>sink = Some (9 # replicate 9 0), bH = 0, bT = 10, bM = 10\<rparr> = Inl OutOfBoundsWrite"
  using get_varint_spec [of "\<lparr>sink = Some (9 # replicate 9 0), bH = 0, bT = 10, bM = 10\<rparr>" 9 "replicate 9 0"]
  by (simp add: board_ok_def unread_def)

text \<open>\<open>seal\<close> moves the unread bytes to a smaller allocation but keeps the offsets and the
  declared size: the next nonempty write that the board's own check lets through is out of bounds.\<close>

theorem seal_then_write:
  assumes "board_ok (board.truncate hb)" "\<forall>n < 2 ^ 64. can_alloc al n"
    and "seal al hb = Inr (True, hb')" "e \<noteq> []" "length e \<le> board_room (board.truncate hb)"
  shows "on_board (forward e) hb' = Inl OutOfBoundsWrite"
proof -
  let ?n = "sub64 (bT hb) (bH hb)"
  from assms(3) obtain bs td where s: "peek_bytes (sink hb) (bH hb) ?n = Inr bs" "?n \<noteq> 0"
      "write_mem (malloc al ?n) bs = Inr td"
      "hb' = (hb_clear hb)\<lparr>sink := td, hb_own := True, bM := bM hb, bT := bT hb, bH := bH hb\<rparr>"
    by (auto simp: seal_def Let_def rbind_Inr_iff split: if_splits)
  have ok: "bH hb \<le> bT hb" "bT hb \<le> bM hb" "bM hb < 2 ^ 64" "length e \<le> bM hb - bT hb"
    using assms(1,5) by (auto simp: board_ok_def board.truncate_def board_room_def)
  then have n: "?n = bT hb - bH hb" by simp
  have "length bs = ?n" using s(1,2) by (auto simp: peek_bytes_def split: if_splits option.splits)
  then have "td = Some bs" using write_fresh [of al bs] assms(2) s(3) n ok by simp
  moreover have "\<not> bT hb + length e \<le> length bs" using \<open>length bs = ?n\<close> n assms(4) by (cases e) auto
  moreover have "sub64 (bM hb) (bT hb) = bM hb - bT hb" using ok by simp
  ultimately show ?thesis using s(4) ok assms(4)
    by (simp add: on_board_def forward_def board.truncate_def poke_def)
qed

theorem seal_then_write_witness:
  "on_board (forward [7]) ((hb_new alloc_any 8)\<lparr>sink := Some [1], bT := 1\<rparr>) = Inl OutOfBoundsWrite"
proof -
  let ?hb = "(hb_new alloc_any 8)\<lparr>sink := Some (replicate 8 1), bT := 1\<rparr>"
  have "seal alloc_any ?hb = Inr (True, (hb_new alloc_any 8)\<lparr>sink := Some [1], bT := 1\<rparr>)"
    by (simp add: seal_def hb_new_def Let_def peek_bytes_def write_mem_def malloc_def alloc_any_def poke_def hb_clear_def)
  then show ?thesis
    by (rule seal_then_write [rotated 2])
       (simp_all add: hb_new_def board_ok_def board.truncate_def board_room_def alloc_any_def)
qed

end
