(* ===== verification/Utf8.thy ===== *)
theory Utf8
  imports Suil_Prelude
begin

text \<open>
  The Unicode layer of \<open>libs/base/src/json.cpp\<close>: validation, reading and writing of one UTF-8
  character, UTF-16 surrogate pairs. A C string is the list of its characters; reading at its end
  reads the terminator. Code points are naturals (\<open>uchar_t\<close> has 32 bits and the values stay below
  \<open>0x110000\<close>).
\<close>

definition byte_at :: "string \<Rightarrow> nat \<Rightarrow> nat" where
  "byte_at s i = ord (cur (drop i s))"

definition utf8_validate_cz :: "string \<Rightarrow> nat" where
  "utf8_validate_cz s =
     (let c = byte_at s 0; c1 = byte_at s 1; c2 = byte_at s 2; c3 = byte_at s 3 in
      if c \<le> 0x7F then 1
      else if c \<le> 0xC1 then 0
      else if c \<le> 0xDF then
        (if (0xC0 AND c1) \<noteq> 0x80 then 0 else 2)
      else if c \<le> 0xEF then
        (if c = 0xE0 \<and> c1 < 0xA0 then 0
         else if c = 0xED \<and> c1 > 0x9F then 0
         else if (c1 AND 0xC0) \<noteq> 0x80 then 0
         else if (c2 AND 0xC0) \<noteq> 0x80 then 0
         else 3)
      else if c \<le> 0xF4 then
        (if c = 0xF0 \<and> c1 < 0x90 then 0
         else if c = 0xF4 \<and> c1 > 0x8F then 0
         else if (c1 AND 0xC0) \<noteq> 0x80 then 0
         else if (c2 AND 0xC0) \<noteq> 0x80 then 0
         else if (c3 AND 0xC0) \<noteq> 0x80 then 0
         else 4)
      else 0)"

lemma utf8_len_cases: "utf8_validate_cz s \<in> {0, 1, 2, 3, 4}"
  by (simp add: utf8_validate_cz_def Let_def)

function utf8_validate :: "string \<Rightarrow> bool" where
  "utf8_validate s =
     (if cur s = NUL then True
      else if utf8_validate_cz s = 0 then False
      else utf8_validate (drop (utf8_validate_cz s) s))"
  by auto
termination
proof (relation "measure length", goal_cases)
  case (2 s)
  then have "s \<noteq> []" by auto
  with 2 show ?case by simp
qed simp

declare utf8_validate.simps [simp del]

definition utf8_read_char :: "string \<Rightarrow> (nat \<times> nat) result" where
  "utf8_read_char s =
     (let c0 = byte_at s 0; c1 = byte_at s 1; c2 = byte_at s 2; c3 = byte_at s 3 in
      if utf8_validate_cz s = 0 then Inl InvalidArguments
      else if c0 \<le> 0x7F then Inr (c0, 1)
      else if c0 \<le> 0xDF then
        Inr (push_bit 6 (c0 AND 0x1F) OR (c1 AND 0x3F), 2)
      else if c0 \<le> 0xEF then
        Inr (push_bit 12 (c0 AND 0xF) OR push_bit 6 (c1 AND 0x3F) OR (c2 AND 0x3F), 3)
      else
        Inr (push_bit 18 (c0 AND 0x7) OR push_bit 12 (c1 AND 0x3F) OR push_bit 6 (c2 AND 0x3F)
             OR (c3 AND 0x3F), 4))"

definition is_scalar :: "nat \<Rightarrow> bool" where
  "is_scalar u \<longleftrightarrow> u \<le> 0x10FFFF \<and> \<not> (0xD800 \<le> u \<and> u \<le> 0xDFFF)"

definition utf8_write_char :: "nat \<Rightarrow> string result" where
  "utf8_write_char u =
     (if \<not> is_scalar u then Inl IndexOutOfBounds
      else if u \<le> 0x7F then Inr [char_of u]
      else if u \<le> 0x7FF then
        Inr (map char_of [0xC0 OR drop_bit 6 u, 0x80 OR (u AND 0x3F)])
      else if u \<le> 0xFFFF then
        Inr (map char_of [0xE0 OR drop_bit 12 u, 0x80 OR (drop_bit 6 u AND 0x3F), 0x80 OR (u AND 0x3F)])
      else
        Inr (map char_of [0xF0 OR drop_bit 18 u, 0x80 OR (drop_bit 12 u AND 0x3F),
                          0x80 OR (drop_bit 6 u AND 0x3F), 0x80 OR (u AND 0x3F)]))"

definition from_surrogate_pair :: "nat \<Rightarrow> nat \<Rightarrow> nat option" where
  "from_surrogate_pair uc lc =
     (if 0xD800 \<le> uc \<and> uc \<le> 0xDBFF \<and> 0xDC00 \<le> lc \<and> lc \<le> 0xDFFF
      then Some (0x10000 + (push_bit 10 (uc AND 0x3FF) OR (lc AND 0x3FF)))
      else None)"

definition to_surrogate_pair :: "nat \<Rightarrow> (nat \<times> nat) result" where
  "to_surrogate_pair u =
     (if \<not> (0x10000 \<le> u \<and> u \<le> 0x10FFFF) then Inl IndexOutOfBounds
      else let n = u - 0x10000 in
        Inr ((drop_bit 10 n AND 0x3FF) OR 0xD800, (n AND 0x3FF) OR 0xDC00))"

section \<open>Bits as arithmetic\<close>

lemma and_masks:
  "(n :: nat) AND 0x3F = n mod 64" "(n :: nat) AND 0x1F = n mod 32" "(n :: nat) AND 0xF = n mod 16"
  "(n :: nat) AND 0x7 = n mod 8" "(n :: nat) AND 0x3FF = n mod 1024"
  using take_bit_eq_mask [of 6 n] take_bit_eq_mask [of 5 n] take_bit_eq_mask [of 4 n]
    take_bit_eq_mask [of 3 n] take_bit_eq_mask [of 10 n]
  by (simp_all add: take_bit_eq_mod mask_eq_exp_minus_1)

lemma and_even: "(n :: nat) AND (2 * m) = 2 * ((n div 2) AND m)"
  by (subst and_nat_rec) simp

lemma and_C0: "(n :: nat) AND 0xC0 = 64 * (n div 64 mod 4)"
proof -
  have "n AND 0xC0 = 64 * (n div 64 AND 3)"
    using and_even [of n 96] and_even [of "n div 2" 48] and_even [of "n div 4" 24] and_even [of "n div 8" 12]
      and_even [of "n div 16" 6] and_even [of "n div 32" 3]
    by (simp add: div_mult2_eq [symmetric])
  then show ?thesis using take_bit_eq_mask [of 2 "n div 64"]
    by (simp add: take_bit_eq_mod mask_eq_exp_minus_1)
qed

lemma cont_iff:
  assumes "n < 256"
  shows "(n AND 0xC0 = (0x80 :: nat)) \<longleftrightarrow> 0x80 \<le> n \<and> n \<le> 0xBF"
    and "(0xC0 AND n = (0x80 :: nat)) \<longleftrightarrow> 0x80 \<le> n \<and> n \<le> 0xBF"
proof -
  have "n div 64 < 4" using assms by simp
  then have "n AND 0xC0 = 64 * (n div 64)" by (simp add: and_C0)
  then have "(n AND 0xC0 = 0x80) \<longleftrightarrow> n div 64 = 2" by simp
  also have "\<dots> \<longleftrightarrow> 0x80 \<le> n \<and> n \<le> 0xBF" by auto
  finally show "(n AND 0xC0 = 0x80) \<longleftrightarrow> 0x80 \<le> n \<and> n \<le> 0xBF"
      "(0xC0 AND n = 0x80) \<longleftrightarrow> 0x80 \<le> n \<and> n \<le> 0xBF"
    by (simp_all add: and.commute)
qed

lemma or_push: "b < 2 ^ k \<Longrightarrow> push_bit k a OR b = 2 ^ k * a + (b :: nat)"
proof -
  assume "b < 2 ^ k"
  then have "take_bit k b = b" by (simp add: take_bit_nat_eq_self_iff)
  moreover have "push_bit k a AND take_bit k b = 0"
    by (rule bit_eqI) (auto simp: bit_simps)
  ultimately have "push_bit k a + b = push_bit k a OR b" by (simp add: disjunctive_add_eq_or)
  then show ?thesis by (metis mult.commute push_bit_eq_mult)
qed

lemma or_heads:
  "b < 64 \<Longrightarrow> 0x80 OR b = 0x80 + (b :: nat)" "b < 32 \<Longrightarrow> 0xC0 OR b = 0xC0 + (b :: nat)"
  "b < 16 \<Longrightarrow> 0xE0 OR b = 0xE0 + (b :: nat)" "b < 8 \<Longrightarrow> 0xF0 OR b = 0xF0 + (b :: nat)"
  "b < 1024 \<Longrightarrow> b OR 0xD800 = 0xD800 + (b :: nat)" "b < 1024 \<Longrightarrow> b OR 0xDC00 = 0xDC00 + (b :: nat)"
  using or_push [of b 6 2] or_push [of b 5 6] or_push [of b 4 14] or_push [of b 3 30]
    or_push [of b 10 54] or_push [of b 10 55]
  by (simp_all add: or.commute push_bit_eq_mult)

section \<open>Characters as code points\<close>

lemma byte_at_simps [simp]:
  "byte_at [] i = 0" "byte_at (c # s) 0 = ord c" "byte_at (c # s) (Suc i) = byte_at s i"
  "byte_at (c # s) 1 = byte_at s 0" "byte_at (c # s) (numeral k) = byte_at s (pred_numeral k)"
  by (simp_all add: byte_at_def numeral_eq_Suc)

lemma byte_at_less [simp]: "byte_at s i < 256"
  by (simp add: byte_at_def)

text \<open>The bytes of a scalar value, by arithmetic.\<close>

definition utf8_bytes :: "nat \<Rightarrow> nat list" where
  "utf8_bytes u =
     (if u \<le> 0x7F then [u]
      else if u \<le> 0x7FF then [0xC0 + u div 64, 0x80 + u mod 64]
      else if u \<le> 0xFFFF then [0xE0 + u div 4096, 0x80 + u div 64 mod 64, 0x80 + u mod 64]
      else [0xF0 + u div 262144, 0x80 + u div 4096 mod 64, 0x80 + u div 64 mod 64, 0x80 + u mod 64])"

lemma utf8_write_char_bytes:
  "utf8_write_char u = (if is_scalar u then Inr (map char_of (utf8_bytes u)) else Inl IndexOutOfBounds)"
proof -
  have "u div 64 < 32" if "u \<le> 0x7FF" using that by simp
  moreover have "u div 4096 < 16" if "u \<le> 0xFFFF" using that by simp
  moreover have "u div 262144 < 8" if "is_scalar u" using that by (auto simp: is_scalar_def)
  ultimately show ?thesis
    by (simp add: utf8_write_char_def utf8_bytes_def and_masks or_heads drop_bit_eq_div)
qed

lemma utf8_bytes_less: "is_scalar u \<Longrightarrow> \<forall>b \<in> set (utf8_bytes u). b < 256"
  by (auto simp: utf8_bytes_def is_scalar_def)

lemma ord_char_of_small: "b < 256 \<Longrightarrow> ord (char_of b) = b"
  by (simp add: of_char_of)

text \<open>What validation accepts, by arithmetic on the lead byte and its continuations.\<close>

definition cont :: "nat \<Rightarrow> bool" where
  "cont b \<longleftrightarrow> 0x80 \<le> b \<and> b \<le> 0xBF"

lemma utf8_validate_cz_cont:
  "utf8_validate_cz s =
     (let c = byte_at s 0; c1 = byte_at s 1; c2 = byte_at s 2; c3 = byte_at s 3 in
      if c \<le> 0x7F then 1
      else if c \<le> 0xC1 then 0
      else if c \<le> 0xDF then (if cont c1 then 2 else 0)
      else if c \<le> 0xEF then
        (if cont c1 \<and> cont c2 \<and> \<not> (c = 0xE0 \<and> c1 < 0xA0) \<and> \<not> (c = 0xED \<and> c1 > 0x9F) then 3 else 0)
      else if c \<le> 0xF4 then
        (if cont c1 \<and> cont c2 \<and> cont c3 \<and> \<not> (c = 0xF0 \<and> c1 < 0x90) \<and> \<not> (c = 0xF4 \<and> c1 > 0x8F)
         then 4 else 0)
      else 0)"
  unfolding utf8_validate_cz_def Let_def cont_iff [OF byte_at_less] cont_def by auto

definition utf8_code :: "string \<Rightarrow> nat" where
  "utf8_code s =
     (let c = byte_at s 0; c1 = byte_at s 1 - 0x80; c2 = byte_at s 2 - 0x80; c3 = byte_at s 3 - 0x80 in
      if c \<le> 0x7F then c
      else if c \<le> 0xDF then (c - 0xC0) * 64 + c1
      else if c \<le> 0xEF then ((c - 0xE0) * 64 + c1) * 64 + c2
      else (((c - 0xF0) * 64 + c1) * 64 + c2) * 64 + c3)"

lemma mod_top: "k * n \<le> b \<Longrightarrow> b < k * n + n \<Longrightarrow> b mod n = b - k * (n :: nat)"
proof -
  assume le: "k * n \<le> b" "b < k * n + n"
  then have "b mod n = (b - k * n + k * n) mod n" by simp
  also have "\<dots> = (b - k * n) mod n" by (rule mod_mult_self1)
  also have "\<dots> = b - k * n" using le by simp
  finally show ?thesis .
qed

lemma cont_mod: "cont b \<Longrightarrow> b mod 64 = b - 0x80"
  using mod_top [of 2 64 b] by (simp add: cont_def)

lemma cont_less: "cont b \<Longrightarrow> b - 0x80 < 64"
  by (auto simp: cont_def)

lemma or_sums:
  "b < 64 \<Longrightarrow> push_bit 6 a OR b = 64 * a + (b :: nat)"
  "b < 4096 \<Longrightarrow> push_bit 12 a OR b = 4096 * a + (b :: nat)"
  "b < 262144 \<Longrightarrow> push_bit 18 a OR b = 262144 * a + (b :: nat)"
  using or_push [of b 6 a] or_push [of b 12 a] or_push [of b 18 a] by simp_all

lemma conts_less:
  "cont b \<Longrightarrow> cont c \<Longrightarrow> 64 * (b - 0x80) + (c - 0x80) < 4096"
  "cont b \<Longrightarrow> cont c \<Longrightarrow> cont d \<Longrightarrow> 4096 * (b - 0x80) + (64 * (c - 0x80) + (d - 0x80)) < 262144"
  by (auto simp: cont_def)

lemma lead_mods:
  "0xC2 \<le> c \<Longrightarrow> c \<le> 0xDF \<Longrightarrow> c mod 32 = c - (0xC0 :: nat)"
  "0xE0 \<le> c \<Longrightarrow> c \<le> 0xEF \<Longrightarrow> c mod 16 = c - (0xE0 :: nat)"
  "0xF0 \<le> c \<Longrightarrow> c \<le> 0xF4 \<Longrightarrow> c mod 8 = c - (0xF0 :: nat)"
  using mod_top [of 6 32 c] mod_top [of 14 16 c] mod_top [of 30 8 c] by simp_all

lemma utf8_read_char_code:
  "utf8_read_char s = (if utf8_validate_cz s = 0 then Inl InvalidArguments else Inr (utf8_code s, utf8_validate_cz s))"
proof (cases "utf8_validate_cz s = 0")
  case True
  then show ?thesis by (simp add: utf8_read_char_def)
next
  case False
  let ?c = "byte_at s 0" and ?c1 = "byte_at s 1" and ?c2 = "byte_at s 2" and ?c3 = "byte_at s 3"
  consider "?c \<le> 0x7F" | "0xC2 \<le> ?c" "?c \<le> 0xDF" "cont ?c1" "utf8_validate_cz s = 2"
    | "0xE0 \<le> ?c" "?c \<le> 0xEF" "cont ?c1" "cont ?c2" "utf8_validate_cz s = 3"
    | "0xF0 \<le> ?c" "?c \<le> 0xF4" "cont ?c1" "cont ?c2" "cont ?c3" "utf8_validate_cz s = 4"
    using False unfolding utf8_validate_cz_cont Let_def by (auto split: if_splits)
  then show ?thesis
  proof cases
    case 1
    then show ?thesis using False by (simp add: utf8_read_char_def utf8_code_def utf8_validate_cz_cont)
  next
    case 2
    then show ?thesis
      by (simp add: utf8_read_char_def utf8_code_def and_masks or_sums cont_mod cont_less conts_less lead_mods Let_def)
  next
    case 3
    then show ?thesis
      by (simp add: utf8_read_char_def utf8_code_def and_masks or_sums cont_mod cont_less conts_less lead_mods Let_def)
  next
    case 4
    then show ?thesis
      by (simp add: utf8_read_char_def utf8_code_def and_masks or_sums cont_mod cont_less conts_less lead_mods Let_def)
  qed
qed

lemma split64: "u = 64 * (u div 64) + u mod (64 :: nat)"
    "u div 64 = 64 * (u div 4096) + u div 64 mod (64 :: nat)"
    "u div 4096 = 64 * (u div 262144) + u div 4096 mod (64 :: nat)"
  using div_mult_mod_eq [of u 64] div_mult_mod_eq [of "u div 64" 64] div_mult_mod_eq [of "u div 4096" 64]
  by (simp_all add: div_mult2_eq [symmetric] del: div_mult_mod_eq mult_div_mod_eq mod_mult_div_eq)

lemma utf8_bytes_valid:
  assumes "is_scalar u"
  defines "w \<equiv> map char_of (utf8_bytes u) :: string"
  shows "utf8_validate_cz (w @ r) = length w" and "utf8_code (w @ r) = u"
proof -
  consider "u \<le> 0x7F" | "0x80 \<le> u" "u \<le> 0x7FF" | "0x800 \<le> u" "u \<le> 0xFFFF" | "0x10000 \<le> u" "u \<le> 0x10FFFF"
    using assms(1) by (force simp: is_scalar_def)
  then have "utf8_validate_cz (w @ r) = length w \<and> utf8_code (w @ r) = u"
  proof cases
    case 1
    then have "w = [char_of u]" by (simp add: w_def utf8_bytes_def)
    then show ?thesis using 1 by (simp add: utf8_validate_cz_cont utf8_code_def ord_char_of_small)
  next
    case 2
    define a b where "a = u div 64" and "b = u mod 64"
    have ab: "u = 64 * a + b" "b < 64" "2 \<le> a" "a < 32" using 2 by (auto simp: a_def b_def)
    then have "w = [char_of (0xC0 + a), char_of (0x80 + b)]" using 2 by (simp add: w_def utf8_bytes_def a_def b_def)
    then show ?thesis using ab by (simp add: utf8_validate_cz_cont utf8_code_def ord_char_of_small cont_def)
  next
    case 3
    define a b c where "a = u div 4096" and "b = u div 64 mod 64" and "c = u mod 64"
    have w: "w = [char_of (0xE0 + a), char_of (0x80 + b), char_of (0x80 + c)]"
      using 3 by (simp add: w_def utf8_bytes_def a_def b_def c_def)
    have u: "u = 4096 * a + 64 * b + c" using split64 [of u] unfolding a_def b_def c_def by linarith
    have abc: "a < 16" "b < 64" "c < 64" using 3 by (auto simp: a_def b_def c_def)
    have "a = 0 \<longrightarrow> 32 \<le> b" "a = 13 \<longrightarrow> b < 32" using u abc 3 assms(1) by (auto simp: is_scalar_def)
    then show ?thesis using u abc unfolding w
      by (auto simp: utf8_validate_cz_cont utf8_code_def ord_char_of_small cont_def)
  next
    case 4
    define a b c d where "a = u div 262144" and "b = u div 4096 mod 64" and "c = u div 64 mod 64" and "d = u mod 64"
    have w: "w = [char_of (0xF0 + a), char_of (0x80 + b), char_of (0x80 + c), char_of (0x80 + d)]"
      using 4 by (simp add: w_def utf8_bytes_def a_def b_def c_def d_def)
    have u: "u = 262144 * a + 4096 * b + 64 * c + d" using split64 [of u] unfolding a_def b_def c_def d_def by linarith
    have abc: "a \<le> 4" "b < 64" "c < 64" "d < 64" using 4 by (auto simp: a_def b_def c_def d_def)
    have "a = 0 \<longrightarrow> 16 \<le> b" "a = 4 \<longrightarrow> b < 16" using u abc 4 by auto
    then show ?thesis using u abc unfolding w
      by (auto simp: utf8_validate_cz_cont utf8_code_def ord_char_of_small cont_def)
  qed
  then show "utf8_validate_cz (w @ r) = length w" "utf8_code (w @ r) = u" by simp_all
qed

lemma divmod64: "u = 64 * q + r \<Longrightarrow> r < 64 \<Longrightarrow> u div 64 = q \<and> u mod 64 = (r :: nat)"
  by simp

lemma all_less_234:
  "(\<forall>i < 2. P i) \<longleftrightarrow> P 0 \<and> P (1 :: nat)"
  "(\<forall>i < 3. P i) \<longleftrightarrow> P 0 \<and> P 1 \<and> P (2 :: nat)"
  "(\<forall>i < 4. P i) \<longleftrightarrow> P 0 \<and> P 1 \<and> P 2 \<and> P (3 :: nat)"
  by (auto simp: numeral_eq_Suc less_Suc_eq)

lemma byte_at_nth: "byte_at s i \<noteq> 0 \<Longrightarrow> i < length s \<and> ord (s ! i) = byte_at s i"
  by (cases "i < length s") (auto simp: byte_at_def cur_def Cons_nth_drop_Suc [symmetric])

lemma take_bytes:
  assumes "\<forall>i < n. byte_at s i \<noteq> 0"
  shows "n \<le> length s" and "map ord (take n s) = map (byte_at s) [0..<n]"
proof -
  have nth: "\<And>i. i < n \<Longrightarrow> i < length s \<and> ord (s ! i) = byte_at s i" using assms byte_at_nth by blast
  then show "n \<le> length s" by (metis not_less not_less_iff_gr_or_eq)
  then show "map ord (take n s) = map (byte_at s) [0..<n]"
    using nth by (auto intro!: nth_equalityI)
qed

lemma map_char_of_ord: "map ord t = bs \<Longrightarrow> t = map char_of bs"
  by (auto simp: comp_def)

text \<open>Every accepted character is the encoding of a scalar value.\<close>

lemma utf8_valid_bytes:
  assumes "cur s \<noteq> NUL" "utf8_validate_cz s = n" "n \<noteq> 0"
  shows "is_scalar (utf8_code s)" "n \<le> length s" "take n s = map char_of (utf8_bytes (utf8_code s))"
    "utf8_code s \<noteq> 0"
proof -
  let ?c = "byte_at s 0" and ?c1 = "byte_at s 1" and ?c2 = "byte_at s 2" and ?c3 = "byte_at s 3"
  let ?u = "utf8_code s"
  have c: "?c \<noteq> 0" using assms(1) ord_inj [of "cur s" NUL] by (auto simp: byte_at_def)
  consider "?c \<le> 0x7F" "n = 1" | "0xC2 \<le> ?c" "?c \<le> 0xDF" "cont ?c1" "n = 2"
    | "0xE0 \<le> ?c" "?c \<le> 0xEF" "cont ?c1" "cont ?c2" "\<not> (?c = 0xE0 \<and> ?c1 < 0xA0)"
        "\<not> (?c = 0xED \<and> ?c1 > 0x9F)" "n = 3"
    | "0xF0 \<le> ?c" "?c \<le> 0xF4" "cont ?c1" "cont ?c2" "cont ?c3" "\<not> (?c = 0xF0 \<and> ?c1 < 0x90)"
        "\<not> (?c = 0xF4 \<and> ?c1 > 0x8F)" "n = 4"
    using assms(2,3) unfolding utf8_validate_cz_cont Let_def by (auto split: if_splits)
  then have "is_scalar ?u \<and> ?u \<noteq> 0 \<and> (\<forall>i < n. byte_at s i \<noteq> 0) \<and> utf8_bytes ?u = map (byte_at s) [0..<n]"
  proof cases
    case 1
    then show ?thesis using c by (auto simp: is_scalar_def utf8_code_def utf8_bytes_def)
  next
    case 2
    define a b where "a = ?c - 0xC0" and "b = ?c1 - 0x80"
    have ab: "?c = 0xC0 + a" "?c1 = 0x80 + b" "2 \<le> a" "a < 32" "b < 64"
      using 2 by (auto simp: a_def b_def cont_def)
    then have u: "?u = 64 * a + b" using 2 by (simp add: utf8_code_def)
    have "?u div 64 = a" "?u mod 64 = b" using ab by (simp_all add: u)
    moreover have "[0..<2] = [0, 1 :: nat]" by (simp add: upt_rec)
    ultimately show ?thesis using ab 2(4) u
      by (auto simp: is_scalar_def utf8_bytes_def all_less_234)
  next
    case 3
    define a b d where "a = ?c - 0xE0" and "b = ?c1 - 0x80" and "d = ?c2 - 0x80"
    have ab: "?c = 0xE0 + a" "?c1 = 0x80 + b" "?c2 = 0x80 + d" "a < 16" "b < 64" "d < 64"
        "a = 0 \<longrightarrow> 32 \<le> b" "a = 13 \<longrightarrow> b < 32"
      using 3 by (auto simp: a_def b_def d_def cont_def)
    then have u: "?u = 4096 * a + 64 * b + d" using 3 by (simp add: utf8_code_def)
    have q: "?u div 64 = 64 * a + b" "?u mod 64 = d"
      using divmod64 [of ?u "64 * a + b" d] ab u by auto
    moreover have "?u div 4096 = a" "?u div 64 mod 64 = b"
      using divmod64 [of "?u div 64" a b] ab q by (auto simp: div_mult2_eq [of ?u 64 64, simplified])
    moreover have "[0..<3] = [0, 1, 2 :: nat]" by (simp add: upt_rec)
    moreover have "?u < 0xD800 \<or> 0xDFFF < ?u"
      using ab u by (cases "a \<le> 12"; cases "a = 13") auto
    moreover have "0x800 \<le> ?u" "?u \<le> 0xFFFF" using ab u by (cases "a = 0"; auto)+
    ultimately show ?thesis using ab 3(7)
      by (auto simp: is_scalar_def utf8_bytes_def all_less_234)
  next
    case 4
    define a b d e where "a = ?c - 0xF0" and "b = ?c1 - 0x80" and "d = ?c2 - 0x80" and "e = ?c3 - 0x80"
    have ab: "?c = 0xF0 + a" "?c1 = 0x80 + b" "?c2 = 0x80 + d" "?c3 = 0x80 + e" "a \<le> 4" "b < 64" "d < 64" "e < 64"
        "a = 0 \<longrightarrow> 16 \<le> b" "a = 4 \<longrightarrow> b < 16"
      using 4 by (auto simp: a_def b_def d_def e_def cont_def)
    then have u: "?u = 262144 * a + 4096 * b + 64 * d + e" using 4 by (simp add: utf8_code_def)
    have q: "?u mod 64 = e" "?u div 64 = 4096 * a + 64 * b + d"
      using divmod64 [of ?u "4096 * a + 64 * b + d" e] ab u by auto
    moreover have q2: "?u div 64 mod 64 = d" "?u div 4096 = 64 * a + b"
      using divmod64 [of "?u div 64" "64 * a + b" d] ab q by (auto simp: div_mult2_eq [of ?u 64 64, simplified])
    moreover have "?u div 4096 mod 64 = b" "?u div 262144 = a"
      using divmod64 [of "?u div 4096" a b] ab q2 by (auto simp: div_mult2_eq [of ?u 4096 64, simplified])
    moreover have "[0..<4] = [0, 1, 2, 3 :: nat]" by (simp add: upt_rec)
    moreover have "is_scalar ?u" "0x10000 \<le> ?u" using ab u by (auto simp: is_scalar_def)
    ultimately show ?thesis using ab 4(8)
      by (simp add: utf8_bytes_def all_less_234)
  qed
  then have all: "is_scalar ?u" "?u \<noteq> 0" "\<forall>i < n. byte_at s i \<noteq> 0" "utf8_bytes ?u = map (byte_at s) [0..<n]"
    by blast+
  show "is_scalar ?u" "?u \<noteq> 0" "n \<le> length s" using all take_bytes(1) by blast+
  show "take n s = map char_of (utf8_bytes ?u)"
    using map_char_of_ord take_bytes(2) [OF all(3)] all(4) by metis
qed

section \<open>Validation of a whole string\<close>

lemma utf8_validate_Nil [simp]: "utf8_validate []"
  by (simp add: utf8_validate.simps)

lemma utf8_validate_step:
  "cur s \<noteq> NUL \<Longrightarrow> utf8_validate_cz s \<noteq> 0 \<Longrightarrow> utf8_validate s \<longleftrightarrow> utf8_validate (drop (utf8_validate_cz s) s)"
  by (subst utf8_validate.simps) simp

lemma utf8_bytes_ne: "utf8_bytes u \<noteq> []"
  by (simp add: utf8_bytes_def)

lemma utf8_bytes_not_0: "is_scalar u \<Longrightarrow> u \<noteq> 0 \<Longrightarrow> \<forall>b \<in> set (utf8_bytes u). b \<noteq> 0 \<and> b < 256"
  using utf8_bytes_less [of u] by (auto simp: utf8_bytes_def)

lemma char_of_NUL_iff: "b < 256 \<Longrightarrow> char_of b = NUL \<longleftrightarrow> b = (0 :: nat)"
proof
  assume "b < 256" "char_of b = NUL"
  then have "ord (char_of b) = ord NUL" by simp
  then show "b = 0" using ord_char_of_small [OF \<open>b < 256\<close>] by simp
qed (use ord_inj [of "char_of b" NUL] in simp)

lemma utf8_validate_bytes:
  assumes "is_scalar u" "u \<noteq> 0"
  shows "utf8_validate (map char_of (utf8_bytes u) @ r) \<longleftrightarrow> utf8_validate r"
    and "NUL \<notin> set (map char_of (utf8_bytes u))"
proof -
  show nul: "NUL \<notin> set (map char_of (utf8_bytes u))"
    using utf8_bytes_not_0 [OF assms] char_of_NUL_iff by fastforce
  have "cur (map char_of (utf8_bytes u) @ r) \<noteq> NUL"
    using nul utf8_bytes_ne [of u] by (cases "utf8_bytes u") auto
  then show "utf8_validate (map char_of (utf8_bytes u) @ r) \<longleftrightarrow> utf8_validate r"
    using utf8_validate_step utf8_bytes_valid(1) [OF assms(1), of r] utf8_bytes_ne [of u] by simp
qed

section \<open>Properties\<close>

text \<open>C12: the reader and the writer of UTF-8 characters are inverse bijections between the Unicode
  scalar values and the accepted byte sequences: what is written for a scalar value, whatever follows
  it, is accepted at its full length and read back; a surrogate or a value past U+10FFFF is refused;
  and a character that is accepted reads as a scalar value whose encoding is exactly the bytes
  consumed (so no overlong form is accepted).\<close>

theorem utf8_bijection:
  "(if is_scalar u
    then \<exists>w. utf8_write_char u = Inr w \<and> length w \<in> {1, 2, 3, 4} \<and>
           utf8_read_char (w @ r) = Inr (u, length w)
    else utf8_write_char u = Inl IndexOutOfBounds) \<and>
   (case utf8_read_char (c # s) of
      Inl e \<Rightarrow> utf8_validate_cz (c # s) = 0
    | Inr (v, n) \<Rightarrow> if c = NUL then v = 0 else is_scalar v \<and> n \<le> length (c # s) \<and> utf8_write_char v = Inr (take n (c # s)))"
proof
  show "if is_scalar u
    then \<exists>w. utf8_write_char u = Inr w \<and> length w \<in> {1, 2, 3, 4} \<and> utf8_read_char (w @ r) = Inr (u, length w)
    else utf8_write_char u = Inl IndexOutOfBounds"
    using utf8_bytes_valid [of u r] utf8_len_cases [of "map char_of (utf8_bytes u) @ r"] utf8_bytes_ne [of u]
    by (auto simp: utf8_write_char_bytes utf8_read_char_code)
  show "case utf8_read_char (c # s) of
      Inl e \<Rightarrow> utf8_validate_cz (c # s) = 0
    | Inr (v, n) \<Rightarrow> if c = NUL then v = 0 else is_scalar v \<and> n \<le> length (c # s) \<and> utf8_write_char v = Inr (take n (c # s))"
    using utf8_valid_bytes [of "c # s" "utf8_validate_cz (c # s)"]
    by (auto simp: utf8_read_char_code utf8_write_char_bytes utf8_code_def)
qed

text \<open>The UTF-16 pairs: every code point past U+FFFF has a pair, which reads back.\<close>

lemma surrogate_roundtrip:
  assumes "0x10000 \<le> u" "u \<le> 0x10FFFF"
  shows "\<exists>uc lc. to_surrogate_pair u = Inr (uc, lc) \<and> 0xD800 \<le> uc \<and> uc \<le> 0xDBFF \<and>
    from_surrogate_pair uc lc = Some u"
proof -
  let ?n = "u - 0x10000"
  define a b where "a = ?n div 1024" and "b = ?n mod 1024"
  have n: "?n = 1024 * a + b" "a < 1024" "b < 1024" using assms by (auto simp: a_def b_def)
  have "to_surrogate_pair u = Inr (0xD800 + a, 0xDC00 + b)"
    using assms n by (simp add: to_surrogate_pair_def Let_def and_masks drop_bit_eq_div or_heads flip: a_def b_def)
  moreover have "(0xD800 + a) mod 1024 = a" "(0xDC00 + b) mod 1024 = b"
    using mod_top [of 54 1024 "0xD800 + a"] mod_top [of 55 1024 "0xDC00 + b"] n by simp_all
  moreover have "push_bit 10 a OR b = 1024 * a + b" using or_push [of b 10 a] n by simp
  ultimately show ?thesis using n assms by (auto simp: from_surrogate_pair_def and_masks)
qed

end
