(* ===== verification/Json.thy ===== *)
theory Json
  imports Utf8
begin

text \<open>
  The JSON parser and printer of \<open>libs/base/src/json.cpp\<close>. The parser functions take the text from
  the current position and give the value with the text after it, \<open>None\<close> for the code's
  \<open>return false\<close>; a string is the text before its terminator, and reading at its end reads the
  terminator. The parser recurses on nested values: \<open>fuel\<close> bounds the depth of calls, and the
  length of the text plus one is enough (\<open>parse_fuel\<close> below). Numbers are a type parameter, read by
  \<open>strtod\<close> and printed by the stream (\<open>show\<close>) after the check of the text \<open>sprintf\<close> gives
  (\<open>fmt16\<close>): these library functions are parameters.
\<close>

datatype Tag = JSON_NULL | JSON_BOOL | JSON_STRING | JSON_NUMBER | JSON_ARRAY | JSON_OBJECT

datatype 'd json =
    JNull
  | JBool bool
  | JString string
  | JNumber 'd
  | JArray "'d json list"
  | JObject "(string \<times> 'd json) list"

fun tag_of :: "'d json \<Rightarrow> Tag" where
  "tag_of JNull = JSON_NULL"
| "tag_of (JBool b) = JSON_BOOL"
| "tag_of (JString s) = JSON_STRING"
| "tag_of (JNumber d) = JSON_NUMBER"
| "tag_of (JArray vs) = JSON_ARRAY"
| "tag_of (JObject ms) = JSON_OBJECT"

primrec tag_value :: "Tag \<Rightarrow> nat" where
  "tag_value JSON_NULL = 0"
| "tag_value JSON_BOOL = 1"
| "tag_value JSON_STRING = 2"
| "tag_value JSON_NUMBER = 3"
| "tag_value JSON_ARRAY = 4"
| "tag_value JSON_OBJECT = 5"

instantiation Tag :: linorder
begin

definition less_eq_Tag :: "Tag \<Rightarrow> Tag \<Rightarrow> bool" where
  "less_eq_Tag a b \<longleftrightarrow> tag_value a \<le> tag_value b"

definition less_Tag :: "Tag \<Rightarrow> Tag \<Rightarrow> bool" where
  "less_Tag a b \<longleftrightarrow> tag_value a < tag_value b"

instance
proof
  fix x y z :: Tag
  show "x \<le> y \<Longrightarrow> y \<le> x \<Longrightarrow> x = y" by (cases x; cases y) (simp_all add: less_eq_Tag_def)
qed (auto simp: less_eq_Tag_def less_Tag_def)

end

definition tag_is_valid :: "Tag \<Rightarrow> bool" where
  "tag_is_valid t \<longleftrightarrow> t \<le> JSON_OBJECT"

lemma tag_is_valid [simp]: "tag_is_valid t"
  by (cases t) (simp_all add: tag_is_valid_def less_eq_Tag_def)

section \<open>Lexical level\<close>

definition js_space :: "char \<Rightarrow> bool" where
  "js_space c \<longleftrightarrow> c = CHR 0x09 \<or> c = CHR 0x0A \<or> c = CHR 0x0D \<or> c = CHR '' ''"

definition skip_space :: "string \<Rightarrow> string" where
  "skip_space s = dropWhile js_space s"

fun expect_literal :: "string \<Rightarrow> string \<Rightarrow> string option" where
  "expect_literal s [] = Some s"
| "expect_literal s (c # str) = (if cur s \<noteq> c then None else expect_literal (tl s) str)"

definition hex16_digit :: "char \<Rightarrow> nat option" where
  "hex16_digit c =
     (if 48 \<le> ord c \<and> ord c \<le> 57 then Some (ord c - 48)
      else if 65 \<le> ord c \<and> ord c \<le> 70 then Some (ord c - 65 + 10)
      else if 97 \<le> ord c \<and> ord c \<le> 102 then Some (ord c - 97 + 10)
      else None)"

fun hex16_loop :: "nat \<Rightarrow> nat \<Rightarrow> string \<Rightarrow> (nat \<times> string) option" where
  "hex16_loop 0 ret s = Some (ret, s)"
| "hex16_loop (Suc i) ret s =
     (case hex16_digit (cur s) of
        None \<Rightarrow> None
      | Some tmp \<Rightarrow> hex16_loop i ((ret * 16 + tmp) mod 2 ^ 16) (tl s))"

definition parse_hex16 :: "string \<Rightarrow> (nat \<times> string) option" where
  "parse_hex16 s = hex16_loop 4 0 s"

definition hex_upper :: string where
  "hex_upper = ''0123456789ABCDEF''"

definition write_hex16 :: "nat \<Rightarrow> string" where
  "write_hex16 v = map (\<lambda>k. hex_upper ! (drop_bit k v AND 0xF)) [12, 8, 4, 0]"

text \<open>\<open>do { s++; } while (is_digit (*s))\<close> after a first digit: the digits are skipped.\<close>

definition skip_digits :: "string \<Rightarrow> string" where
  "skip_digits s = dropWhile is_digit s"

definition parse_int_part :: "string \<Rightarrow> string option" where
  "parse_int_part s =
     (if cur s = CHR ''0'' then Some (tl s)
      else if is_digit (cur s) then Some (skip_digits s)
      else None)"

definition parse_frac_part :: "string \<Rightarrow> string option" where
  "parse_frac_part s =
     (if cur s = CHR ''.'' then
        (if is_digit (cur (tl s)) then Some (skip_digits (tl s)) else None)
      else Some s)"

definition skip_sign :: "string \<Rightarrow> string" where
  "skip_sign s = (if cur s = CHR ''+'' \<or> cur s = CHR ''-'' then tl s else s)"

definition parse_exp_part :: "string \<Rightarrow> string option" where
  "parse_exp_part s =
     (if cur s = CHR ''E'' \<or> cur s = CHR ''e'' then
        let t = skip_sign (tl s)
        in if is_digit (cur t) then Some (skip_digits t) else None
      else Some s)"

definition scan_number :: "string \<Rightarrow> string option" where
  "scan_number s =
     (case parse_int_part (if cur s = CHR ''-'' then tl s else s) of
        None \<Rightarrow> None
      | Some s1 \<Rightarrow>
          (case parse_frac_part s1 of
             None \<Rightarrow> None
           | Some s2 \<Rightarrow> parse_exp_part s2))"

text \<open>\<open>strtod\<close> is given the text from the number on, not only the number.\<close>

definition parse_number :: "(string \<Rightarrow> 'd) \<Rightarrow> string \<Rightarrow> ('d \<times> string) option" where
  "parse_number strtod s = map_option (\<lambda>rest. (strtod s, rest)) (scan_number s)"

definition number_is_valid :: "string \<Rightarrow> bool" where
  "number_is_valid num \<longleftrightarrow> (case scan_number num of Some rest \<Rightarrow> cur rest = NUL | None \<Rightarrow> False)"

text \<open>What follows a backslash in a string: the characters written and the rest.\<close>

definition parse_unicode :: "string \<Rightarrow> (string \<times> string) option" where
  "parse_unicode s =
     (case parse_hex16 s of
        None \<Rightarrow> None
      | Some (uc, s1) \<Rightarrow>
          if 0xD800 \<le> uc \<and> uc \<le> 0xDFFF then
            (if cur s1 \<noteq> CHR 0x5C then None
             else if cur (tl s1) \<noteq> CHR ''u'' then None
             else case parse_hex16 (tl (tl s1)) of
               None \<Rightarrow> None
             | Some (lc, s2) \<Rightarrow>
                 (case from_surrogate_pair uc lc of
                    None \<Rightarrow> None
                  | Some u \<Rightarrow> (case utf8_write_char u of Inr w \<Rightarrow> Some (w, s2) | Inl _ \<Rightarrow> None)))
          else if uc = 0 then None
          else (case utf8_write_char uc of Inr w \<Rightarrow> Some (w, s1) | Inl _ \<Rightarrow> None))"

definition parse_escape :: "string \<Rightarrow> (string \<times> string) option" where
  "parse_escape s =
     (let c = cur s; s1 = tl s in
      if c = CHR 0x22 \<or> c = CHR 0x5C \<or> c = CHR ''/'' then Some ([c], s1)
      else if c = CHR ''b'' then Some ([CHR 0x08], s1)
      else if c = CHR ''f'' then Some ([CHR 0x0C], s1)
      else if c = CHR ''n'' then Some ([CHR 0x0A], s1)
      else if c = CHR ''r'' then Some ([CHR 0x0D], s1)
      else if c = CHR ''t'' then Some ([CHR 0x09], s1)
      else if c = CHR ''u'' then parse_unicode s1
      else None)"

lemma hex16_loop_length: "hex16_loop n ret s = Some (v, r) \<Longrightarrow> length r \<le> length s"
  by (induction n ret s rule: hex16_loop.induct) (auto split: option.splits)

lemma parse_unicode_length: "parse_unicode s = Some (w, r) \<Longrightarrow> length r \<le> length s"
  by (auto simp: parse_unicode_def parse_hex16_def split: option.splits if_splits sum.splits prod.splits
      dest!: hex16_loop_length)

lemma parse_escape_length: "parse_escape s = Some (w, r) \<Longrightarrow> length r \<le> length s"
  using parse_unicode_length by (auto simp: parse_escape_def Let_def split: if_splits dest!: parse_unicode_length)

function parse_string_loop :: "string \<Rightarrow> (string \<times> string) option" where
  "parse_string_loop s =
     (let c = cur s in
      if c = CHR 0x22 then Some ([], tl s)
      else if c = CHR 0x5C then
        (case parse_escape (tl s) of
           None \<Rightarrow> None
         | Some (w, s1) \<Rightarrow> map_option (\<lambda>(t, r). (w @ t, r)) (parse_string_loop s1))
      else if ord c \<le> 0x1F then None
      else if utf8_validate_cz s = 0 then None
      else map_option (\<lambda>(t, r). (take (utf8_validate_cz s) s @ t, r))
             (parse_string_loop (drop (utf8_validate_cz s) s)))"
  by auto
termination
proof (relation "measure length")
  show "(s1, s) \<in> measure length"
    if "parse_escape (tl s) = Some p" "(w, s1) = p" "c = cur s" "c = CHR 0x5C" for s c p w s1
  proof -
    have "length s1 \<le> length (tl s)" using parse_escape_length that by metis
    moreover have "s \<noteq> []" using that by auto
    ultimately show ?thesis by (cases s) auto
  qed
  show "(drop (utf8_validate_cz s) s, s) \<in> measure length"
    if "c = cur s" "\<not> ord c \<le> 0x1F" "utf8_validate_cz s \<noteq> 0" for s c
  proof -
    have "s \<noteq> []" using that by auto
    then show ?thesis using that by simp
  qed
qed auto

declare parse_string_loop.simps [simp del]

definition parse_string :: "string \<Rightarrow> (string \<times> string) option" where
  "parse_string s = (if cur s \<noteq> CHR 0x22 then None else parse_string_loop (tl s))"

section \<open>Values\<close>

fun parse_value :: "(string \<Rightarrow> 'd) \<Rightarrow> nat \<Rightarrow> string \<Rightarrow> ('d json \<times> string) option"
  and parse_array_loop :: "(string \<Rightarrow> 'd) \<Rightarrow> nat \<Rightarrow> string \<Rightarrow> ('d json list \<times> string) option"
  and parse_object_loop :: "(string \<Rightarrow> 'd) \<Rightarrow> nat \<Rightarrow> string \<Rightarrow> ((string \<times> 'd json) list \<times> string) option" where
  "parse_value num 0 s = None"
| "parse_value num (Suc n) s =
     (if cur s = CHR ''n'' then map_option (Pair JNull) (expect_literal s ''null'')
      else if cur s = CHR ''f'' then map_option (Pair (JBool False)) (expect_literal s ''false'')
      else if cur s = CHR ''t'' then map_option (Pair (JBool True)) (expect_literal s ''true'')
      else if cur s = CHR 0x22 then map_option (\<lambda>(t, r). (JString t, r)) (parse_string s)
      else if cur s = CHR ''['' then
        (let s1 = skip_space (tl s) in
         if cur s1 = CHR '']'' then Some (JArray [], tl s1)
         else map_option (\<lambda>(vs, r). (JArray vs, r)) (parse_array_loop num n s1))
      else if cur s = CHR ''{'' then
        (let s1 = skip_space (tl s) in
         if cur s1 = CHR ''}'' then Some (JObject [], tl s1)
         else map_option (\<lambda>(ms, r). (JObject ms, r)) (parse_object_loop num n s1))
      else map_option (\<lambda>(d, r). (JNumber d, r)) (parse_number num s))"
| "parse_array_loop num 0 s = None"
| "parse_array_loop num (Suc n) s =
     (case parse_value num n s of
        None \<Rightarrow> None
      | Some (v, s1) \<Rightarrow>
          (let s2 = skip_space s1 in
           if cur s2 = CHR '']'' then Some ([v], tl s2)
           else if cur s2 \<noteq> CHR '','' then None
           else map_option (\<lambda>(vs, r). (v # vs, r)) (parse_array_loop num n (skip_space (tl s2)))))"
| "parse_object_loop num 0 s = None"
| "parse_object_loop num (Suc n) s =
     (case parse_string s of
        None \<Rightarrow> None
      | Some (key, s1) \<Rightarrow>
          (let s2 = skip_space s1 in
           if cur s2 \<noteq> CHR '':'' then None
           else
             (case parse_value num n (skip_space (tl s2)) of
                None \<Rightarrow> None
              | Some (v, s3) \<Rightarrow>
                  (let s4 = skip_space s3 in
                   if cur s4 = CHR ''}'' then Some ([(key, v)], tl s4)
                   else if cur s4 \<noteq> CHR '','' then None
                   else map_option (\<lambda>(ms, r). ((key, v) # ms, r))
                          (parse_object_loop num n (skip_space (tl s4)))))))"

definition json_decode :: "(string \<Rightarrow> 'd) \<Rightarrow> string \<Rightarrow> 'd json option" where
  "json_decode num text =
     (case parse_value num (Suc (length text)) (skip_space text) of
        None \<Rightarrow> None
      | Some (v, s) \<Rightarrow> if cur (skip_space s) \<noteq> NUL then None else Some v)"

section \<open>Validation\<close>

text \<open>\<open>json_validate\<close> calls the parser functions without a place for the result. They build no nodes then, and
  the characters of a string go into a buffer of four bytes, each time from its start: writing more is out
  of bounds. The result is the text left, \<open>None\<close> for \<open>return false\<close>.\<close>

definition vbind :: "string option result \<Rightarrow> (string \<Rightarrow> string option result) \<Rightarrow> string option result" where
  "vbind m f = rbind m (\<lambda>r. case r of None \<Rightarrow> Inr None | Some s \<Rightarrow> f s)"

lemma vbind_cong [fundef_cong]: "m = m' \<Longrightarrow> (\<And>s. m' = Inr (Some s) \<Longrightarrow> f s = g s) \<Longrightarrow> vbind m f = vbind m' g"
  by (cases m') (auto simp: vbind_def split: option.split)

definition throwaway_size :: nat where
  "throwaway_size = 4"

function check_string_loop :: "string \<Rightarrow> string option result" where
  "check_string_loop s =
     (let c = cur s in
      if c = CHR 0x22 then Inr (Some (tl s))
      else if c = CHR 0x5C then
        (case parse_escape (tl s) of
           None \<Rightarrow> Inr None
         | Some (w, s1) \<Rightarrow> if length w > throwaway_size then Inl OutOfBoundsWrite else check_string_loop s1)
      else if ord c \<le> 0x1F then Inr None
      else if utf8_validate_cz s = 0 then Inr None
      else if utf8_validate_cz s > throwaway_size then Inl OutOfBoundsWrite
      else check_string_loop (drop (utf8_validate_cz s) s))"
  by auto
termination
proof (relation "measure length")
  show "(s1, s) \<in> measure length"
    if "parse_escape (tl s) = Some p" "(w, s1) = p" "c = cur s" "c = CHR 0x5C" for s c p w s1
  proof -
    have "length s1 \<le> length (tl s)" using parse_escape_length that by metis
    moreover have "s \<noteq> []" using that by auto
    ultimately show ?thesis by (cases s) auto
  qed
  show "(drop (utf8_validate_cz s) s, s) \<in> measure length"
    if "c = cur s" "\<not> ord c \<le> 0x1F" "utf8_validate_cz s \<noteq> 0" for s c
  proof -
    have "s \<noteq> []" using that by auto
    then show ?thesis using that by simp
  qed
qed auto

declare check_string_loop.simps [simp del]

definition check_string :: "string \<Rightarrow> string option result" where
  "check_string s = (if cur s \<noteq> CHR 0x22 then Inr None else check_string_loop (tl s))"

fun check_value :: "nat \<Rightarrow> string \<Rightarrow> string option result"
  and check_array_loop :: "nat \<Rightarrow> string \<Rightarrow> string option result"
  and check_object_loop :: "nat \<Rightarrow> string \<Rightarrow> string option result" where
  "check_value 0 s = Inr None"
| "check_value (Suc n) s =
     (if cur s = CHR ''n'' then Inr (expect_literal s ''null'')
      else if cur s = CHR ''f'' then Inr (expect_literal s ''false'')
      else if cur s = CHR ''t'' then Inr (expect_literal s ''true'')
      else if cur s = CHR 0x22 then check_string s
      else if cur s = CHR ''['' then
        (let s1 = skip_space (tl s) in
         if cur s1 = CHR '']'' then Inr (Some (tl s1)) else check_array_loop n s1)
      else if cur s = CHR ''{'' then
        (let s1 = skip_space (tl s) in
         if cur s1 = CHR ''}'' then Inr (Some (tl s1)) else check_object_loop n s1)
      else Inr (scan_number s))"
| "check_array_loop 0 s = Inr None"
| "check_array_loop (Suc n) s =
     vbind (check_value n s) (\<lambda>s1.
       let s2 = skip_space s1 in
       if cur s2 = CHR '']'' then Inr (Some (tl s2))
       else if cur s2 \<noteq> CHR '','' then Inr None
       else check_array_loop n (skip_space (tl s2)))"
| "check_object_loop 0 s = Inr None"
| "check_object_loop (Suc n) s =
     vbind (check_string s) (\<lambda>s1.
       let s2 = skip_space s1 in
       if cur s2 \<noteq> CHR '':'' then Inr None
       else vbind (check_value n (skip_space (tl s2))) (\<lambda>s3.
         let s4 = skip_space s3 in
         if cur s4 = CHR ''}'' then Inr (Some (tl s4))
         else if cur s4 \<noteq> CHR '','' then Inr None
         else check_object_loop n (skip_space (tl s4))))"

definition json_validate :: "string \<Rightarrow> bool result" where
  "json_validate text =
     rbind (check_value (Suc (length text)) (skip_space text)) (\<lambda>r.
       case r of None \<Rightarrow> Inr False | Some s \<Rightarrow> Inr (cur (skip_space s) = NUL))"

definition decode_str :: "(string \<Rightarrow> 'd) \<Rightarrow> string \<Rightarrow> ('d json \<times> nat) result" where
  "decode_str num text =
     (case parse_value num (Suc (length text)) (skip_space text) of
        None \<Rightarrow> Inl UnsupportedOperation
      | Some (v, s) \<Rightarrow> Inr (v, length text - length (skip_space s)))"

section \<open>Printing\<close>

text \<open>The loop of \<open>emit_string\<close> on a valid string. \<open>escape_unicode\<close> is false in the code.\<close>

definition emit_unicode :: "nat \<Rightarrow> string result" where
  "emit_unicode u =
     (if u \<le> 0xFFFF then Inr ([CHR 0x5C, CHR ''u''] @ write_hex16 u)
      else if 0x10FFFF < u then Inl InvalidArguments
      else rbind (to_surrogate_pair u) (\<lambda>(uc, lc). Inr ([CHR 0x5C, CHR ''u''] @ write_hex16 uc @ [CHR 0x5C, CHR ''u''] @ write_hex16 lc)))"

definition short_escape :: "char \<Rightarrow> string option" where
  "short_escape c =
     (if c = CHR 0x22 then Some [CHR 0x5C, CHR 0x22]
      else if c = CHR 0x5C then Some [CHR 0x5C, CHR 0x5C]
      else if c = CHR 0x08 then Some [CHR 0x5C, CHR ''b'']
      else if c = CHR 0x0C then Some [CHR 0x5C, CHR ''f'']
      else if c = CHR 0x0A then Some [CHR 0x5C, CHR ''n'']
      else if c = CHR 0x0D then Some [CHR 0x5C, CHR ''r'']
      else if c = CHR 0x09 then Some [CHR 0x5C, CHR ''t'']
      else None)"

function emit_string_loop :: "string \<Rightarrow> string result" where
  "emit_string_loop s =
     (if cur s = NUL then Inr []
      else case short_escape (cur s) of
        Some e \<Rightarrow> rbind (emit_string_loop (tl s)) (\<lambda>r. Inr (e @ r))
      | None \<Rightarrow>
          if utf8_validate_cz s = 0 then Inl AssertionFailure
          else if ord (cur s) < 0x1F then
            rbind (utf8_read_char s) (\<lambda>(u, len).
            rbind (emit_unicode u) (\<lambda>e.
            rbind (emit_string_loop (drop (utf8_validate_cz s) s)) (\<lambda>r. Inr (e @ r))))
          else
            rbind (emit_string_loop (drop (utf8_validate_cz s) s)) (\<lambda>r.
              Inr (take (utf8_validate_cz s) s @ r)))"
  by auto
termination
proof (relation "measure length")
  show "(tl s, s) \<in> measure length" if "cur s \<noteq> NUL" for s
    using that by (cases s) auto
  have "s \<noteq> []" if "cur s \<noteq> NUL" for s using that by auto
  then show "(drop (utf8_validate_cz s) s, s) \<in> measure length"
    if "cur s \<noteq> NUL" "utf8_validate_cz s \<noteq> 0" for s using that by simp
  then show "(drop (utf8_validate_cz s) s, s) \<in> measure length"
    if "cur s \<noteq> NUL" "utf8_validate_cz s \<noteq> 0" for s using that by simp
qed auto

declare emit_string_loop.simps [simp del]

definition emit_string :: "string \<Rightarrow> string result" where
  "emit_string str =
     (if \<not> utf8_validate str then Inl InvalidArguments
      else rbind (emit_string_loop str) (\<lambda>r. Inr (CHR 0x22 # r @ [CHR 0x22])))"

definition emit_number :: "('d \<Rightarrow> string) \<Rightarrow> ('d \<Rightarrow> string) \<Rightarrow> 'd \<Rightarrow> string" where
  "emit_number fmt16 show_num d = (if number_is_valid (fmt16 d) then show_num d else ''null'')"

fun emit_value :: "('d \<Rightarrow> string) \<Rightarrow> ('d \<Rightarrow> string) \<Rightarrow> 'd json \<Rightarrow> string result"
  and emit_elements :: "('d \<Rightarrow> string) \<Rightarrow> ('d \<Rightarrow> string) \<Rightarrow> 'd json list \<Rightarrow> string result"
  and emit_members :: "('d \<Rightarrow> string) \<Rightarrow> ('d \<Rightarrow> string) \<Rightarrow> (string \<times> 'd json) list \<Rightarrow> string result" where
  "emit_value f g JNull = Inr ''null''"
| "emit_value f g (JBool b) = Inr (if b then ''true'' else ''false'')"
| "emit_value f g (JString t) = emit_string t"
| "emit_value f g (JNumber d) = Inr (emit_number f g d)"
| "emit_value f g (JArray vs) = rbind (emit_elements f g vs) (\<lambda>r. Inr (''['' @ r @ '']''))"
| "emit_value f g (JObject ms) = rbind (emit_members f g ms) (\<lambda>r. Inr (''{'' @ r @ ''}''))"
| "emit_elements f g [] = Inr []"
| "emit_elements f g (v # vs) =
     rbind (emit_value f g v) (\<lambda>a.
     rbind (emit_elements f g vs) (\<lambda>r. Inr (a @ (if vs \<noteq> [] then '','' else []) @ r)))"
| "emit_members f g [] = Inr []"
| "emit_members f g ((k, v) # ms) =
     rbind (emit_string k) (\<lambda>a.
     rbind (emit_value f g v) (\<lambda>b.
     rbind (emit_members f g ms) (\<lambda>r. Inr (a @ '':'' @ b @ (if ms \<noteq> [] then '','' else []) @ r))))"

definition indent :: "string \<Rightarrow> nat \<Rightarrow> string" where
  "indent space n = concat (replicate n space)"

fun emit_indented :: "('d \<Rightarrow> string) \<Rightarrow> ('d \<Rightarrow> string) \<Rightarrow> string \<Rightarrow> nat \<Rightarrow> 'd json \<Rightarrow> string result"
  and emit_elements_indented :: "('d \<Rightarrow> string) \<Rightarrow> ('d \<Rightarrow> string) \<Rightarrow> string \<Rightarrow> nat \<Rightarrow> 'd json list \<Rightarrow> string result"
  and emit_members_indented :: "('d \<Rightarrow> string) \<Rightarrow> ('d \<Rightarrow> string) \<Rightarrow> string \<Rightarrow> nat \<Rightarrow> (string \<times> 'd json) list \<Rightarrow> string result" where
  "emit_indented f g sp n JNull = Inr ''null''"
| "emit_indented f g sp n (JBool b) = Inr (if b then ''true'' else ''false'')"
| "emit_indented f g sp n (JString t) = emit_string t"
| "emit_indented f g sp n (JNumber d) = Inr (emit_number f g d)"
| "emit_indented f g sp n (JArray vs) =
     (if vs = [] then Inr ''[]''
      else rbind (emit_elements_indented f g sp n vs) (\<lambda>r. Inr ([CHR ''['', CHR 0x0A] @ r @ indent sp n @ '']'')))"
| "emit_indented f g sp n (JObject ms) =
     (if ms = [] then Inr ''{}''
      else rbind (emit_members_indented f g sp n ms) (\<lambda>r. Inr ([CHR ''{'', CHR 0x0A] @ r @ indent sp n @ ''}'')))"
| "emit_elements_indented f g sp n [] = Inr []"
| "emit_elements_indented f g sp n (v # vs) =
     rbind (emit_indented f g sp (n + 1) v) (\<lambda>a.
     rbind (emit_elements_indented f g sp n vs) (\<lambda>r.
       Inr (indent sp (n + 1) @ a @ (if vs \<noteq> [] then [CHR '','', CHR 0x0A] else [CHR 0x0A]) @ r)))"
| "emit_members_indented f g sp n [] = Inr []"
| "emit_members_indented f g sp n ((k, v) # ms) =
     rbind (emit_string k) (\<lambda>a.
     rbind (emit_indented f g sp (n + 1) v) (\<lambda>b.
     rbind (emit_members_indented f g sp n ms) (\<lambda>r.
       Inr (indent sp (n + 1) @ a @ '': '' @ b @ (if ms \<noteq> [] then [CHR '','', CHR 0x0A] else [CHR 0x0A]) @ r))))"

end
