(* ===== verification/Json_Grammar.thy ===== *)
theory Json_Grammar
  imports Json
begin

text \<open>
  A declarative grammar of JSON texts, as the reference the parser and the printers of theory
  \<open>Json\<close> are checked against: \<open>jtext v a\<close> says that the text \<open>a\<close> is a JSON text of the value \<open>v\<close>,
  with any white space the standard allows. The number texts are those the parser scans; their
  value is what \<open>strtod\<close> makes of them alone.
\<close>

section \<open>The grammar\<close>

definition white :: "string \<Rightarrow> bool" where
  "white w \<longleftrightarrow> list_all js_space w"

definition escape_pairs :: "(char \<times> char) list" where
  "escape_pairs =
     [(CHR 0x22, CHR 0x22), (CHR 0x5C, CHR 0x5C), (CHR ''/'', CHR ''/''), (CHR 0x08, CHR ''b''),
      (CHR 0x0C, CHR ''f''), (CHR 0x0A, CHR ''n''), (CHR 0x0D, CHR ''r''), (CHR 0x09, CHR ''t'')]"

definition hex4 :: "string \<Rightarrow> nat \<Rightarrow> bool" where
  "hex4 h v \<longleftrightarrow> (\<exists>a b c d x y z w. h = [a, b, c, d] \<and> hex16_digit a = Some x \<and> hex16_digit b = Some y \<and>
     hex16_digit c = Some z \<and> hex16_digit d = Some w \<and> v = ((x * 16 + y) * 16 + z) * 16 + w)"

definition utf8_text :: "nat \<Rightarrow> string" where
  "utf8_text u = map char_of (utf8_bytes u)"

inductive jchar :: "string \<Rightarrow> string \<Rightarrow> bool" where
  raw: "is_scalar u \<Longrightarrow> 0x1F < u \<Longrightarrow> u \<noteq> 0x22 \<Longrightarrow> u \<noteq> 0x5C \<Longrightarrow> jchar (utf8_text u) (utf8_text u)"
| short: "(c, x) \<in> set escape_pairs \<Longrightarrow> jchar [c] [CHR 0x5C, x]"
| unicode: "hex4 h u \<Longrightarrow> is_scalar u \<Longrightarrow> u \<noteq> 0 \<Longrightarrow> jchar (utf8_text u) ([CHR 0x5C, CHR ''u''] @ h)"
| pair: "hex4 h uc \<Longrightarrow> hex4 k lc \<Longrightarrow> from_surrogate_pair uc lc = Some u \<Longrightarrow>
    jchar (utf8_text u) ([CHR 0x5C, CHR ''u''] @ h @ [CHR 0x5C, CHR ''u''] @ k)"

inductive jchars :: "string \<Rightarrow> string \<Rightarrow> bool" where
  nil: "jchars [] []"
| char: "jchar w e \<Longrightarrow> jchars t es \<Longrightarrow> jchars (w @ t) (e @ es)"

definition jstring :: "string \<Rightarrow> string \<Rightarrow> bool" where
  "jstring t a \<longleftrightarrow> (\<exists>e. jchars t e \<and> a = CHR 0x22 # e @ [CHR 0x22])"

text \<open>A number: a sign, an integer without leading zeros, a fraction and an exponent, as the standard has it.\<close>

definition jdigits :: "string \<Rightarrow> bool" where
  "jdigits d \<longleftrightarrow> d \<noteq> [] \<and> list_all is_digit d"

definition jint :: "string \<Rightarrow> bool" where
  "jint i \<longleftrightarrow> i = ''0'' \<or> jdigits i \<and> hd i \<noteq> CHR ''0''"

definition jfrac :: "string \<Rightarrow> bool" where
  "jfrac f \<longleftrightarrow> f = [] \<or> (\<exists>d. f = CHR ''.'' # d \<and> jdigits d)"

definition jexp :: "string \<Rightarrow> bool" where
  "jexp x \<longleftrightarrow> x = [] \<or> (\<exists>e sg d. x = e # sg @ d \<and> e \<in> {CHR ''E'', CHR ''e''} \<and> sg \<in> {[], ''+'', ''-''} \<and> jdigits d)"

definition jnumber :: "string \<Rightarrow> bool" where
  "jnumber n \<longleftrightarrow> (\<exists>m i f x. n = m @ i @ f @ x \<and> m \<in> {[], ''-''} \<and> jint i \<and> jfrac f \<and> jexp x)"

inductive jtext :: "(string \<Rightarrow> 'd) \<Rightarrow> 'd json \<Rightarrow> string \<Rightarrow> bool"
  and jelems :: "(string \<Rightarrow> 'd) \<Rightarrow> 'd json list \<Rightarrow> string \<Rightarrow> bool"
  and jmembers :: "(string \<Rightarrow> 'd) \<Rightarrow> (string \<times> 'd json) list \<Rightarrow> string \<Rightarrow> bool"
  for num :: "string \<Rightarrow> 'd" where
  null: "jtext num JNull ''null''"
| false: "jtext num (JBool False) ''false''"
| true: "jtext num (JBool True) ''true''"
| string: "jstring t a \<Longrightarrow> jtext num (JString t) a"
| number: "jnumber n \<Longrightarrow> jtext num (JNumber (num n)) n"
| array_empty: "white w \<Longrightarrow> jtext num (JArray []) (''['' @ w @ '']'')"
| array: "white w \<Longrightarrow> jelems num vs e \<Longrightarrow> jtext num (JArray vs) (''['' @ w @ e @ '']'')"
| object_empty: "white w \<Longrightarrow> jtext num (JObject []) (''{'' @ w @ ''}'')"
| object: "white w \<Longrightarrow> jmembers num ms e \<Longrightarrow> jtext num (JObject ms) (''{'' @ w @ e @ ''}'')"
| elem: "jtext num v a \<Longrightarrow> white w \<Longrightarrow> jelems num [v] (a @ w)"
| elems: "jtext num v a \<Longrightarrow> white w \<Longrightarrow> white x \<Longrightarrow> jelems num vs e \<Longrightarrow>
    jelems num (v # vs) (a @ w @ '','' @ x @ e)"
| member: "jstring k b \<Longrightarrow> white w \<Longrightarrow> white x \<Longrightarrow> jtext num v a \<Longrightarrow> white y \<Longrightarrow>
    jmembers num [(k, v)] (b @ w @ '':'' @ x @ a @ y)"
| members: "jstring k b \<Longrightarrow> white w \<Longrightarrow> white x \<Longrightarrow> jtext num v a \<Longrightarrow> white y \<Longrightarrow> white z \<Longrightarrow>
    jmembers num ms e \<Longrightarrow> jmembers num ((k, v) # ms) (b @ w @ '':'' @ x @ a @ y @ '','' @ z @ e)"

definition jdocument :: "(string \<Rightarrow> 'd) \<Rightarrow> 'd json \<Rightarrow> string \<Rightarrow> bool" where
  "jdocument num v text \<longleftrightarrow> (\<exists>w a x. white w \<and> jtext num v a \<and> white x \<and> text = w @ a @ x)"

text \<open>What may follow a value.\<close>

definition delim :: "string \<Rightarrow> bool" where
  "delim r \<longleftrightarrow> cur r = NUL \<or> cur r \<in> set '',]}'' \<or> js_space (cur r)"

text \<open>The documented behaviour of \<open>strtod\<close> that is used: a number followed by a delimiter reads as
  the number alone.\<close>

definition strtod_local :: "(string \<Rightarrow> 'd) \<Rightarrow> bool" where
  "strtod_local num \<longleftrightarrow> (\<forall>n r. jnumber n \<longrightarrow> delim r \<longrightarrow> num (n @ r) = num n)"

section \<open>White space and literals\<close>

lemma white_simps [simp]: "white []" "white (c # w) \<longleftrightarrow> js_space c \<and> white w"
    "white (v @ w) \<longleftrightarrow> white v \<and> white w"
  by (auto simp: white_def)

lemma skip_white: "white w \<Longrightarrow> skip_space (w @ s) = skip_space s"
  by (induction w) (simp_all add: skip_space_def)

lemma skip_nonspace: "\<not> js_space (cur s) \<Longrightarrow> skip_space s = s"
  by (cases s) (simp_all add: skip_space_def)

lemma skip_space_split: "\<exists>w. white w \<and> s = w @ skip_space s"
proof (intro exI conjI)
  show "white (takeWhile js_space s)" by (auto simp: white_def list_all_iff dest: set_takeWhileD)
  show "s = takeWhile js_space s @ skip_space s" by (simp add: skip_space_def)
qed

lemma skip_space_cur: "\<not> js_space (cur (skip_space s))"
  by (induction s) (auto simp: skip_space_def js_space_def)

lemma cur_Cons: "cur s = c \<Longrightarrow> c \<noteq> NUL \<Longrightarrow> s = c # tl s"
  by (cases s) auto

lemma expect_literal_append: "NUL \<notin> set l \<Longrightarrow> expect_literal (l @ r) l = Some r"
  by (induction l) auto

lemma expect_literal_split: "NUL \<notin> set l \<Longrightarrow> expect_literal s l = Some r \<Longrightarrow> s = l @ r"
proof (induction s l rule: expect_literal.induct)
  case (2 s c str)
  then show ?case using cur_Cons [of s c] by (auto split: if_splits)
qed simp

section \<open>Numbers\<close>

lemma dropWhile_end: "dropWhile P n = m \<Longrightarrow> (m = [] \<longrightarrow> \<not> P (cur r) \<or> r = []) \<Longrightarrow> dropWhile P (n @ r) = m @ r"
  by (induction n) (auto, cases r, auto)

lemma int_part_append:
  "parse_int_part n = Some m \<Longrightarrow> (m = [] \<longrightarrow> \<not> is_digit (cur r)) \<Longrightarrow> parse_int_part (n @ r) = Some (m @ r)"
  by (cases n) (auto simp: parse_int_part_def skip_digits_def is_digit_def split: if_splits
      intro!: dropWhile_end [THEN trans] dest: dropWhile_end [of is_digit _ _ r])

lemma is_digit_facts: "is_digit c \<Longrightarrow> c \<noteq> CHR ''.'' \<and> c \<noteq> CHR ''E'' \<and> c \<noteq> CHR ''e'' \<and> c \<noteq> CHR ''+'' \<and> c \<noteq> CHR ''-'' \<and> c \<noteq> NUL"
  by (auto simp: is_digit_def)

lemma digits_append:
  "is_digit (cur t) \<Longrightarrow> (skip_digits t = [] \<longrightarrow> \<not> is_digit (cur r)) \<Longrightarrow>
   is_digit (cur (t @ r)) \<and> skip_digits (t @ r) = skip_digits t @ r"
  using dropWhile_end [of is_digit t "skip_digits t" r]
  by (cases t) (auto simp: skip_digits_def is_digit_def)

lemma frac_part_append:
  "parse_frac_part n = Some m \<Longrightarrow> (m = [] \<longrightarrow> \<not> is_digit (cur r) \<and> cur r \<noteq> CHR ''.'') \<Longrightarrow>
   parse_frac_part (n @ r) = Some (m @ r)"
  using digits_append [of "tl n" r]
  by (cases n) (auto simp: parse_frac_part_def split: if_splits)

lemma skip_sign_append: "t \<noteq> [] \<Longrightarrow> skip_sign (t @ r) = skip_sign t @ r"
  by (cases t) (auto simp: skip_sign_def)

lemma skip_sign_split: "\<exists>sg. t = sg @ skip_sign t \<and> (sg = [] \<or> sg = ''+'' \<or> sg = ''-'')"
  by (cases t) (auto simp: skip_sign_def)

lemma skip_sign_digit: "is_digit (cur n) \<Longrightarrow> sg = [] \<or> sg = ''+'' \<or> sg = ''-'' \<Longrightarrow> skip_sign (sg @ n) = n"
  using is_digit_facts [of "cur n"] by (auto simp: skip_sign_def)

lemma exp_part_append:
  assumes "parse_exp_part n = Some m" "m = [] \<longrightarrow> \<not> is_digit (cur r) \<and> cur r \<noteq> CHR ''E'' \<and> cur r \<noteq> CHR ''e''"
  shows "parse_exp_part (n @ r) = Some (m @ r)"
proof (cases n)
  case Nil
  then show ?thesis using assms by (auto simp: parse_exp_part_def split: if_splits)
next
  case (Cons c t)
  show ?thesis
  proof (cases "c = CHR ''E'' \<or> c = CHR ''e''")
    case False
    then show ?thesis using assms Cons by (auto simp: parse_exp_part_def)
  next
    case True
    have d: "is_digit (cur (skip_sign t))" "m = skip_digits (skip_sign t)"
      using assms(1) True Cons by (auto simp: parse_exp_part_def Let_def split: if_splits)
    then have "t \<noteq> []" by (auto simp: is_digit_def skip_sign_def)
    with d digits_append [of "skip_sign t" r] assms(2) True Cons show ?thesis
      by (simp add: parse_exp_part_def Let_def skip_sign_append)
  qed
qed

lemma delim_facts: "delim r \<Longrightarrow> \<not> is_digit (cur r) \<and> cur r \<noteq> CHR ''.'' \<and> cur r \<noteq> CHR ''E'' \<and> cur r \<noteq> CHR ''e''"
  by (auto simp: delim_def is_digit_def js_space_def)

lemma skip_jdigits:
  assumes "jdigits d" "\<not> is_digit (cur r)"
  shows "is_digit (cur (d @ r)) \<and> skip_digits (d @ r) = r"
proof -
  have "dropWhile is_digit (d @ r) = dropWhile is_digit r" using assms(1) by (intro dropWhile_append2) (simp add: jdigits_def list_all_iff)
  moreover have "dropWhile is_digit r = r" using assms(2) by (cases r) simp_all
  ultimately show ?thesis using assms(1) by (cases d) (simp_all add: jdigits_def skip_digits_def)
qed

lemma take_jdigits: "is_digit (cur s) \<Longrightarrow> \<exists>d. s = d @ skip_digits s \<and> jdigits d \<and> hd d = cur s"
  by (intro exI [of _ "takeWhile is_digit s"], cases s)
    (auto simp: jdigits_def skip_digits_def is_digit_def list_all_iff dest: set_takeWhileD)

lemma int_part_iff:
  "\<not> is_digit (cur r) \<Longrightarrow> jint i \<Longrightarrow> parse_int_part (i @ r) = Some r"
  "parse_int_part s = Some r \<Longrightarrow> \<exists>i. s = i @ r \<and> jint i"
proof -
  assume r: "\<not> is_digit (cur r)" and i: "jint i"
  show "parse_int_part (i @ r) = Some r"
  proof (cases "i = ''0''")
    case True
    then show ?thesis by (simp add: parse_int_part_def)
  next
    case False
    then have d: "jdigits i" "hd i \<noteq> CHR ''0''" using i by (auto simp: jint_def)
    then have "cur (i @ r) \<noteq> CHR ''0''" by (cases i) (auto simp: jdigits_def)
    with skip_jdigits [OF d(1) r] show ?thesis by (simp add: parse_int_part_def)
  qed
next
  assume p: "parse_int_part s = Some r"
  show "\<exists>i. s = i @ r \<and> jint i"
  proof (cases "cur s = CHR ''0''")
    case True
    then show ?thesis using p cur_Cons [OF True] by (intro exI [of _ "''0''"]) (auto simp: parse_int_part_def jint_def)
  next
    case False
    then have d: "is_digit (cur s)" "r = skip_digits s" using p by (auto simp: parse_int_part_def split: if_splits)
    then show ?thesis using take_jdigits [OF d(1)] False by (auto simp: jint_def)
  qed
qed

lemma frac_part_iff:
  "\<not> is_digit (cur r) \<Longrightarrow> cur r \<noteq> CHR ''.'' \<Longrightarrow> jfrac f \<Longrightarrow> parse_frac_part (f @ r) = Some r"
  "parse_frac_part s = Some r \<Longrightarrow> \<exists>f. s = f @ r \<and> jfrac f"
proof -
  assume r: "\<not> is_digit (cur r)" "cur r \<noteq> CHR ''.''" and f: "jfrac f"
  show "parse_frac_part (f @ r) = Some r"
    using f skip_jdigits [OF _ r(1)] r(2) by (auto simp: jfrac_def parse_frac_part_def)
next
  assume p: "parse_frac_part s = Some r"
  show "\<exists>f. s = f @ r \<and> jfrac f"
  proof (cases "cur s = CHR ''.''")
    case False
    then show ?thesis using p by (intro exI [of _ "[]"]) (simp add: parse_frac_part_def jfrac_def)
  next
    case True
    then have s: "is_digit (cur (tl s))" "r = skip_digits (tl s)" "s = CHR ''.'' # tl s"
      using p cur_Cons [OF True] by (auto simp: parse_frac_part_def split: if_splits)
    obtain d where "tl s = d @ r" "jdigits d" using take_jdigits [OF s(1)] s(2) by blast
    then show ?thesis using s(3) by (intro exI [of _ "CHR ''.'' # d"]) (auto simp: jfrac_def)
  qed
qed

lemma exp_part_iff:
  "jexp x \<Longrightarrow> parse_exp_part x = Some []"
  "parse_exp_part s = Some r \<Longrightarrow> \<exists>x. s = x @ r \<and> jexp x"
proof -
  have nil: "\<not> is_digit (cur [])" by (simp add: is_digit_def)
  assume x: "jexp x"
  show "parse_exp_part x = Some []"
  proof (cases "x = []")
    case True
    then show ?thesis by (simp add: parse_exp_part_def)
  next
    case False
    then obtain e sg d where d: "x = e # sg @ d" "e \<in> {CHR ''E'', CHR ''e''}" "sg \<in> {[], ''+'', ''-''}" "jdigits d"
      using x by (auto simp: jexp_def)
    have dd: "is_digit (cur d)" "skip_digits d = []" using skip_jdigits [OF d(4) nil] by simp_all
    then have "skip_sign (sg @ d) = d" using skip_sign_digit [OF dd(1), of sg] d(3) by auto
    then show ?thesis using d(1,2) dd by (auto simp: parse_exp_part_def Let_def)
  qed
next
  assume p: "parse_exp_part s = Some r"
  show "\<exists>x. s = x @ r \<and> jexp x"
  proof (cases "cur s = CHR ''E'' \<or> cur s = CHR ''e''")
    case False
    then show ?thesis using p by (intro exI [of _ "[]"]) (simp add: parse_exp_part_def jexp_def)
  next
    case True
    have t: "is_digit (cur (skip_sign (tl s)))" "r = skip_digits (skip_sign (tl s))" "s = cur s # tl s"
      using p True cur_Cons [of s] by (auto simp: parse_exp_part_def Let_def split: if_splits)
    obtain d where d: "skip_sign (tl s) = d @ r" "jdigits d" using take_jdigits [OF t(1)] t(2) by blast
    obtain sg where sg: "tl s = sg @ skip_sign (tl s)" "sg = [] \<or> sg = ''+'' \<or> sg = ''-''"
      using skip_sign_split by blast
    have "s = (cur s # sg @ d) @ r" using t(3) sg(1) d(1) by (metis append_Cons append_assoc)
    moreover have "jexp (cur s # sg @ d)" using True sg(2) d(2) unfolding jexp_def by blast
    ultimately show ?thesis by blast
  qed
qed

text \<open>The scanner accepts the numbers of the standard.\<close>

lemma jnumber_scan: "jnumber n \<longleftrightarrow> scan_number n = Some []"
proof
  assume "jnumber n"
  then obtain m i f x where n: "n = m @ i @ f @ x" "m \<in> {[], ''-''}" "jint i" "jfrac f" "jexp x"
    unfolding jnumber_def by blast
  have x: "\<not> is_digit (cur x) \<and> cur x \<noteq> CHR ''.''" using n(5) by (auto simp: jexp_def is_digit_def)
  have f: "\<not> is_digit (cur (f @ x))" using n(4) x by (auto simp: jfrac_def is_digit_def)
  have "cur (i @ f @ x) \<noteq> CHR ''-''" using n(3) by (cases i) (auto simp: jint_def jdigits_def is_digit_def)
  then have "(if cur n = CHR ''-'' then tl n else n) = i @ f @ x" using n(1,2) by auto
  then show "scan_number n = Some []"
    using int_part_iff(1) [OF f n(3)] frac_part_iff(1) [of x f] x n(4) exp_part_iff(1) [OF n(5)] by (simp add: scan_number_def)
next
  assume s: "scan_number n = Some []"
  let ?n = "if cur n = CHR ''-'' then tl n else n"
  obtain m1 m2 where m: "parse_int_part ?n = Some m1" "parse_frac_part m1 = Some m2" "parse_exp_part m2 = Some []"
    using s by (auto simp: scan_number_def split: option.splits)
  obtain i f x where p: "?n = i @ f @ x" "jint i" "jfrac f" "jexp x"
    using int_part_iff(2) [OF m(1)] frac_part_iff(2) [OF m(2)] exp_part_iff(2) [OF m(3)] by auto
  have "n = (if cur n = CHR ''-'' then ''-'' else []) @ ?n" using cur_Cons [of n "CHR ''-''"] by auto
  then show "jnumber n" using p unfolding jnumber_def by (intro exI [of _ "if cur n = CHR ''-'' then ''-'' else []"] exI [of _ i] exI [of _ f] exI [of _ x]) auto
qed

lemma scan_number_append:
  assumes "jnumber n" "delim r"
  shows "scan_number (n @ r) = Some r"
proof -
  note r = delim_facts [OF assms(2)]
  let ?n = "if cur n = CHR ''-'' then tl n else n"
  obtain m1 m2 where m: "parse_int_part ?n = Some m1" "parse_frac_part m1 = Some m2" "parse_exp_part m2 = Some []"
    using assms(1) by (auto simp: jnumber_scan scan_number_def split: option.splits)
  have "n \<noteq> []" using m(1) by (cases n) (auto simp: parse_int_part_def is_digit_def)
  then have "(if cur (n @ r) = CHR ''-'' then tl (n @ r) else n @ r) = ?n @ r" by (cases n) auto
  moreover have "parse_int_part (?n @ r) = Some (m1 @ r)" using int_part_append [OF m(1)] r by simp
  moreover have "parse_frac_part (m1 @ r) = Some (m2 @ r)" using frac_part_append [OF m(2)] r by simp
  moreover have "parse_exp_part (m2 @ r) = Some ([] @ r)" using exp_part_append [OF m(3)] r by simp
  ultimately show ?thesis by (simp add: scan_number_def)
qed

lemma digits_split:
  assumes "is_digit (cur t)"
  shows "\<exists>n. t = n @ skip_digits t \<and> n \<noteq> [] \<and> cur n = cur t \<and> skip_digits n = []"
proof (intro exI conjI)
  let ?n = "takeWhile is_digit t"
  obtain c t' where t: "t = c # t'" "is_digit c" using assms by (cases t) (auto simp: is_digit_def)
  show "t = ?n @ skip_digits t" by (simp add: skip_digits_def)
  show "?n \<noteq> []" "cur ?n = cur t" using t by simp_all
  show "skip_digits ?n = []" by (auto simp: skip_digits_def dest: set_takeWhileD)
qed

lemma int_part_split:
  assumes "parse_int_part s = Some r"
  shows "\<exists>n. s = n @ r \<and> n \<noteq> [] \<and> parse_int_part n = Some []"
proof (cases "cur s = CHR ''0''")
  case True
  then show ?thesis using assms cur_Cons [OF True] by (intro exI [of _ "''0''"]) (auto simp: parse_int_part_def)
next
  case False
  then have d: "is_digit (cur s)" "r = skip_digits s" using assms by (auto simp: parse_int_part_def split: if_splits)
  obtain n where n: "s = n @ skip_digits s" "n \<noteq> []" "cur n = cur s" "skip_digits n = []"
    using digits_split [OF d(1)] by blast
  then have "parse_int_part n = Some []" using d(1) False by (simp add: parse_int_part_def)
  with n(1,2) d(2) show ?thesis by blast
qed

lemma frac_part_split:
  assumes "parse_frac_part s = Some r"
  shows "\<exists>n. s = n @ r \<and> (n = [] \<or> cur n = CHR ''.'') \<and> parse_frac_part n = Some []"
proof (cases "cur s = CHR ''.''")
  case False
  then show ?thesis using assms by (intro exI [of _ "[]"]) (simp add: parse_frac_part_def)
next
  case True
  then have "is_digit (cur (tl s))" "r = skip_digits (tl s)" "s = CHR ''.'' # tl s"
    using assms cur_Cons [OF True] by (auto simp: parse_frac_part_def split: if_splits)
  moreover obtain n where n: "tl s = n @ skip_digits (tl s)" "cur n = cur (tl s)" "skip_digits n = []"
    using digits_split calculation(1) by blast
  ultimately have "parse_frac_part (CHR ''.'' # n) = Some []" "s = (CHR ''.'' # n) @ r"
    by (simp_all add: parse_frac_part_def)
  then show ?thesis by (intro exI [of _ "CHR ''.'' # n"]) simp
qed

lemma exp_part_split:
  assumes "parse_exp_part s = Some r"
  shows "\<exists>n. s = n @ r \<and> (n = [] \<or> cur n = CHR ''E'' \<or> cur n = CHR ''e'') \<and> parse_exp_part n = Some []"
proof (cases "cur s = CHR ''E'' \<or> cur s = CHR ''e''")
  case False
  then show ?thesis using assms by (intro exI [of _ "[]"]) (simp add: parse_exp_part_def)
next
  case True
  have t: "is_digit (cur (skip_sign (tl s)))" "r = skip_digits (skip_sign (tl s))" "s = cur s # tl s"
    using assms True cur_Cons [of s] by (auto simp: parse_exp_part_def Let_def split: if_splits)
  obtain n where n: "skip_sign (tl s) = n @ r" "cur n = cur (skip_sign (tl s))" "skip_digits n = []"
    using digits_split [OF t(1)] t(2) by auto
  obtain sg where sg: "tl s = sg @ skip_sign (tl s)" "sg = [] \<or> sg = ''+'' \<or> sg = ''-''"
    using skip_sign_split by blast
  have "s = (cur s # sg @ n) @ r" using t(3) sg(1) n(1) by (metis append_Cons append_assoc)
  moreover have "parse_exp_part (cur s # sg @ n) = Some []"
    using True n t(1) skip_sign_digit [OF _ sg(2), of n] by (simp add: parse_exp_part_def Let_def)
  ultimately show ?thesis using True by (intro exI [of _ "cur s # sg @ n"]) auto
qed

lemma scan_number_split:
  assumes "scan_number s = Some r"
  shows "\<exists>n. s = n @ r \<and> n \<noteq> [] \<and> jnumber n"
proof -
  let ?s = "if cur s = CHR ''-'' then tl s else s"
  obtain m1 m2 where m: "parse_int_part ?s = Some m1" "parse_frac_part m1 = Some m2" "parse_exp_part m2 = Some r"
    using assms by (auto simp: scan_number_def split: option.splits)
  obtain n1 where n1: "?s = n1 @ m1" "n1 \<noteq> []" "parse_int_part n1 = Some []" using int_part_split [OF m(1)] by blast
  obtain n2 where n2: "m1 = n2 @ m2" "n2 = [] \<or> cur n2 = CHR ''.''" "parse_frac_part n2 = Some []"
    using frac_part_split [OF m(2)] by blast
  obtain n3 where n3: "m2 = n3 @ r" "n3 = [] \<or> cur n3 = CHR ''E'' \<or> cur n3 = CHR ''e''" "parse_exp_part n3 = Some []"
    using exp_part_split [OF m(3)] by blast
  have c3: "\<not> is_digit (cur n3) \<and> cur n3 \<noteq> CHR ''.''" using n3(2) by (auto simp: is_digit_def)
  have c2: "\<not> is_digit (cur (n2 @ n3))" using n2(2) c3 by (cases n2) (auto simp: is_digit_def)
  have p1: "parse_int_part (n1 @ n2 @ n3) = Some (n2 @ n3)" using int_part_append [OF n1(3)] c2 by simp
  have p2: "parse_frac_part (n2 @ n3) = Some n3" using frac_part_append [OF n2(3)] c3 by simp
  let ?sg = "if cur s = CHR ''-'' then ''-'' else []"
  have n1h: "cur n1 \<noteq> CHR ''-''" using n1(3) by (auto simp: parse_int_part_def is_digit_def split: if_splits)
  have "scan_number (?sg @ n1 @ n2 @ n3) = Some []"
    using p1 p2 n3(3) n1h n1(2) by (auto simp: scan_number_def cur_append)
  moreover have "s = (?sg @ n1 @ n2 @ n3) @ r"
    using n1(1) n2(1) n3(1) cur_Cons [of s "CHR ''-''"] by (auto split: if_splits)
  ultimately show ?thesis using n1(2) by (intro exI [of _ "?sg @ n1 @ n2 @ n3"]) (simp add: jnumber_scan)
qed

section \<open>Strings\<close>

lemma hex16_digit_less: "hex16_digit c = Some v \<Longrightarrow> v < 16"
  by (auto simp: hex16_digit_def split: if_splits)

lemma hex16_digit_NUL [simp]: "hex16_digit NUL = None"
  by (simp add: hex16_digit_def)

lemma parse_hex16_append: "hex4 h v \<Longrightarrow> parse_hex16 (h @ r) = Some (v, r) \<and> v < 65536"
proof -
  assume "hex4 h v"
  then obtain a b c d x y z w where h: "h = [a, b, c, d]" "hex16_digit a = Some x" "hex16_digit b = Some y"
      "hex16_digit c = Some z" "hex16_digit d = Some w" "v = ((x * 16 + y) * 16 + z) * 16 + w"
    unfolding hex4_def by blast
  have "x < 16" "y < 16" "z < 16" "w < 16" using h hex16_digit_less by blast+
  moreover have "hex16_loop (Suc (Suc (Suc (Suc 0)))) 0 (h @ r) = Some (v, r)"
    using h calculation by simp
  moreover have "(4 :: nat) = Suc (Suc (Suc (Suc 0)))" by simp
  ultimately show ?thesis using h(6) by (simp only: parse_hex16_def) simp
qed

lemma hex16_loop_step:
  assumes "hex16_loop (Suc n) acc s = Some (v, r)"
  shows "\<exists>c x t. s = c # t \<and> hex16_digit c = Some x \<and> hex16_loop n ((acc * 16 + x) mod 2 ^ 16) t = Some (v, r)"
  using assms by (cases s) (auto split: option.splits)

lemma parse_hex16_split:
  assumes "parse_hex16 s = Some (v, r)"
  shows "\<exists>h. s = h @ r \<and> hex4 h v"
proof -
  have "hex16_loop (Suc (Suc (Suc (Suc 0)))) 0 s = Some (v, r)"
    using assms by (simp add: parse_hex16_def numeral_eq_Suc)
  then obtain a x t1 where 1: "s = a # t1" "hex16_digit a = Some x"
      "hex16_loop (Suc (Suc (Suc 0))) ((0 * 16 + x) mod 2 ^ 16) t1 = Some (v, r)"
    using hex16_loop_step by blast
  then obtain b y t2 where 2: "t1 = b # t2" "hex16_digit b = Some y"
      "hex16_loop (Suc (Suc 0)) ((((0 * 16 + x) mod 2 ^ 16) * 16 + y) mod 2 ^ 16) t2 = Some (v, r)"
    using hex16_loop_step by blast
  then obtain c z t3 where 3: "t2 = c # t3" "hex16_digit c = Some z"
      "hex16_loop (Suc 0) (((((0 * 16 + x) mod 2 ^ 16) * 16 + y) mod 2 ^ 16 * 16 + z) mod 2 ^ 16) t3 = Some (v, r)"
    using hex16_loop_step by blast
  then obtain d w t4 where 4: "t3 = d # t4" "hex16_digit d = Some w"
      "hex16_loop 0 ((((((0 * 16 + x) mod 2 ^ 16) * 16 + y) mod 2 ^ 16 * 16 + z) mod 2 ^ 16 * 16 + w) mod 2 ^ 16) t4 = Some (v, r)"
    using hex16_loop_step by blast
  have "x < 16" "y < 16" "z < 16" "w < 16" using 1 2 3 4 hex16_digit_less by blast+
  then have "v = ((x * 16 + y) * 16 + z) * 16 + w" "t4 = r" using 4(3) by auto
  then show ?thesis using 1 2 3 4 unfolding hex4_def by (intro exI [of _ "[a, b, c, d]"]) auto
qed

lemma surrogate_scalar: "from_surrogate_pair uc lc = Some u \<Longrightarrow> is_scalar u \<and> 0xFFFF < u \<and> 0xD800 \<le> uc \<and> uc \<le> 0xDFFF"
  using or_push [of "lc mod 1024" 10 "uc mod 1024"]
  by (auto simp: from_surrogate_pair_def is_scalar_def and_masks split: if_splits)

lemma utf8_write_scalar: "is_scalar u \<Longrightarrow> utf8_write_char u = Inr (utf8_text u)"
  by (simp add: utf8_write_char_bytes utf8_text_def)

lemma parse_unicode_scalar:
  "hex4 h u \<Longrightarrow> is_scalar u \<Longrightarrow> u \<noteq> 0 \<Longrightarrow> parse_unicode (h @ s) = Some (utf8_text u, s)"
proof -
  assume u: "hex4 h u" "is_scalar u" "u \<noteq> 0"
  then have "\<not> (0xD800 \<le> u \<and> u \<le> 0xDFFF)" by (simp add: is_scalar_def)
  then show ?thesis using parse_hex16_append [of h u s] u by (auto simp: parse_unicode_def utf8_write_scalar)
qed

lemma parse_unicode_pair:
  "hex4 h uc \<Longrightarrow> hex4 k lc \<Longrightarrow> from_surrogate_pair uc lc = Some u \<Longrightarrow>
   parse_unicode (h @ CHR 0x5C # CHR ''u'' # k @ s) = Some (utf8_text u, s)"
  using parse_hex16_append [of h uc "CHR 0x5C # CHR ''u'' # k @ s"] parse_hex16_append [of k lc s]
    surrogate_scalar [of uc lc u]
  by (simp add: parse_unicode_def utf8_write_scalar)

lemma parse_escape_short: "(c, x) \<in> set escape_pairs \<Longrightarrow> parse_escape (x # s) = Some ([c], s)"
  by (auto simp: escape_pairs_def parse_escape_def Let_def)

lemma utf8_text_head:
  assumes "is_scalar u" "0x1F < u" "u \<noteq> 0x22" "u \<noteq> 0x5C"
  shows "\<exists>c w. utf8_text u = c # w \<and> c \<noteq> CHR 0x22 \<and> c \<noteq> CHR 0x5C \<and> 0x1F < ord c"
proof -
  obtain b bs where b: "utf8_bytes u = b # bs" using utf8_bytes_ne [of u] by (cases "utf8_bytes u") auto
  then have "0x1F < b" "b \<noteq> 0x22" "b \<noteq> 0x5C" "b < 256"
    using assms utf8_bytes_less [OF assms(1)] by (auto simp: utf8_bytes_def split: if_splits)
  moreover from this have "ord (char_of b) = b" by (simp add: ord_char_of_small)
  ultimately show ?thesis using b by (auto simp: utf8_text_def dest: arg_cong [where f = ord])
qed

lemma parse_string_loop_jchar:
  "jchar w e \<Longrightarrow> parse_string_loop (e @ s) = map_option (\<lambda>(t, r). (w @ t, r)) (parse_string_loop s)"
proof (induction rule: jchar.induct)
  case (raw u)
  then obtain c w where "utf8_text u = c # w" "c \<noteq> CHR 0x22" "c \<noteq> CHR 0x5C" "0x1F < ord c"
    using utf8_text_head by blast
  moreover have "utf8_validate_cz (utf8_text u @ s) = length (utf8_text u)"
    using utf8_bytes_valid(1) [OF raw(1)] by (simp add: utf8_text_def)
  ultimately show ?case by (subst parse_string_loop.simps) simp
next
  case (short c x)
  then show ?case by (subst parse_string_loop.simps) (simp add: parse_escape_short)
next
  case (unicode h u)
  then have "parse_escape (CHR ''u'' # h @ s) = Some (utf8_text u, s)"
    by (simp add: parse_escape_def parse_unicode_scalar)
  then show ?case by (subst parse_string_loop.simps) simp
next
  case (pair h uc k lc u)
  then have "parse_escape (CHR ''u'' # h @ CHR 0x5C # CHR ''u'' # k @ s) = Some (utf8_text u, s)"
    by (simp add: parse_escape_def parse_unicode_pair)
  then show ?case by (subst parse_string_loop.simps) simp
qed

lemma parse_string_complete: "jstring t a \<Longrightarrow> parse_string (a @ r) = Some (t, r)"
proof -
  have "jchars t e \<Longrightarrow> parse_string_loop (e @ CHR 0x22 # r) = Some (t, r)" for e
  proof (induction rule: jchars.induct)
    case nil
    then show ?case by (subst parse_string_loop.simps) simp
  next
    case (char w e t es)
    then show ?case by (simp add: parse_string_loop_jchar)
  qed
  then show "jstring t a \<Longrightarrow> parse_string (a @ r) = Some (t, r)"
    by (auto simp: jstring_def parse_string_def)
qed

lemma parse_unicode_split:
  assumes "parse_unicode s = Some (w, r)"
  shows "\<exists>e. s = e @ r \<and> jchar w (CHR 0x5C # CHR ''u'' # e)"
proof -
  obtain uc s1 where uc: "parse_hex16 s = Some (uc, s1)" using assms by (auto simp: parse_unicode_def split: option.splits)
  obtain h where h: "s = h @ s1" "hex4 h uc" using parse_hex16_split [OF uc] by blast
  show ?thesis
  proof (cases "0xD800 \<le> uc \<and> uc \<le> 0xDFFF")
    case True
    then obtain lc u where l: "cur s1 = CHR 0x5C" "cur (tl s1) = CHR ''u''" "parse_hex16 (tl (tl s1)) = Some (lc, r)"
        "from_surrogate_pair uc lc = Some u" "utf8_write_char u = Inr w"
      using assms uc by (auto simp: parse_unicode_def split: option.splits if_splits sum.splits)
    obtain k where k: "tl (tl s1) = k @ r" "hex4 k lc" using parse_hex16_split [OF l(3)] by blast
    have "s1 = CHR 0x5C # CHR ''u'' # tl (tl s1)" using cur_Cons [OF l(1)] cur_Cons [OF l(2)] by simp
    then have "s = (h @ CHR 0x5C # CHR ''u'' # k) @ r" using h(1) k(1) by simp
    moreover have "w = utf8_text u" using l(5) utf8_write_scalar surrogate_scalar [OF l(4)] by simp
    ultimately show ?thesis using jchar.pair [OF h(2) k(2) l(4)]
      by (intro exI [of _ "h @ CHR 0x5C # CHR ''u'' # k"]) simp
  next
    case False
    then have "uc \<noteq> 0" "utf8_write_char uc = Inr w" "r = s1"
      using assms uc by (auto simp: parse_unicode_def split: if_splits sum.splits)
    moreover from this have "is_scalar uc" "w = utf8_text uc"
      by (auto simp: utf8_write_char_bytes utf8_text_def split: if_splits)
    ultimately show ?thesis using h jchar.unicode [OF h(2)] by (intro exI [of _ h]) simp
  qed
qed

lemma parse_escape_split:
  assumes "parse_escape s = Some (w, r)"
  shows "\<exists>e. s = e @ r \<and> jchar w (CHR 0x5C # e)"
proof (cases "cur s = CHR ''u''")
  case True
  then have "parse_unicode (tl s) = Some (w, r)" using assms by (simp add: parse_escape_def Let_def)
  then obtain e where "tl s = e @ r" "jchar w (CHR 0x5C # CHR ''u'' # e)" using parse_unicode_split by blast
  then show ?thesis using cur_Cons [OF True] by (intro exI [of _ "CHR ''u'' # e"]) simp
next
  case False
  then obtain c where c: "w = [c]" "r = tl s" "(c, cur s) \<in> set escape_pairs"
    using assms by (auto simp: parse_escape_def Let_def escape_pairs_def split: if_splits)
  moreover have "cur s \<noteq> NUL" using c(3) by (auto simp: escape_pairs_def)
  ultimately show ?thesis using jchar.short [OF c(3)] cur_Cons [of s] by (intro exI [of _ "[cur s]"]) simp
qed

lemma parse_string_loop_split: "parse_string_loop s = Some (t, r) \<Longrightarrow> \<exists>e. s = e @ CHR 0x22 # r \<and> jchars t e"
proof (induction s arbitrary: t r rule: parse_string_loop.induct)
  case (1 s)
  consider "cur s = CHR 0x22" | "cur s = CHR 0x5C" | "cur s \<noteq> CHR 0x22" "cur s \<noteq> CHR 0x5C" by blast
  then show ?case
  proof cases
    case 1
    then show ?thesis using "1.prems" cur_Cons [of s]
      by (intro exI [of _ "[]"]) (subst (asm) parse_string_loop.simps, auto intro: jchars.nil)
  next
    case 2
    then obtain w s1 t1 where w: "parse_escape (tl s) = Some (w, s1)" "parse_string_loop s1 = Some (t1, r)" "t = w @ t1"
      using "1.prems" by (subst (asm) parse_string_loop.simps) (auto split: option.splits)
    obtain e where e: "tl s = e @ s1" "jchar w (CHR 0x5C # e)" using parse_escape_split [OF w(1)] by blast
    obtain es where es: "s1 = es @ CHR 0x22 # r" "jchars t1 es"
      using "1.IH"(1) [OF refl _ 2 w(1) refl w(2)] 2 by auto
    have "s = (CHR 0x5C # e) @ es @ CHR 0x22 # r" using cur_Cons [OF 2] e(1) es(1) by simp
    then show ?thesis using jchars.char [OF e(2) es(2)] w(3) by (intro exI [of _ "(CHR 0x5C # e) @ es"]) simp
  next
    case 3
    let ?n = "utf8_validate_cz s"
    obtain t1 where t: "\<not> ord (cur s) \<le> 0x1F" "?n \<noteq> 0" "parse_string_loop (drop ?n s) = Some (t1, r)" "t = take ?n s @ t1"
      using "1.prems" 3 by (subst (asm) parse_string_loop.simps) (auto split: if_splits)
    obtain es where es: "drop ?n s = es @ CHR 0x22 # r" "jchars t1 es"
      using "1.IH"(2) [OF refl 3(1) 3(2) t(1,2,3)] by blast
    have "cur s \<noteq> NUL" using t(1) by auto
    note u = utf8_valid_bytes [OF this refl t(2)]
    have head: "cur s = char_of (utf8_code s)" if "utf8_code s \<le> 0x7F"
      using u(3) that t(2) by (cases s; cases ?n) (auto simp: utf8_bytes_def)
    have code: "0x1F < utf8_code s" "utf8_code s \<noteq> 0x22" "utf8_code s \<noteq> 0x5C"
    proof -
      show "0x1F < utf8_code s"
      proof (rule ccontr)
        assume "\<not> 0x1F < utf8_code s"
        then have "ord (cur s) \<le> 0x1F" using head by (simp add: ord_char_of_small)
        with t(1) show False by simp
      qed
      show "utf8_code s \<noteq> 0x22" "utf8_code s \<noteq> 0x5C"
        using head 3 ord_inj [of "cur s" "CHR 0x22"] ord_inj [of "cur s" "CHR 0x5C"]
        by (auto simp: ord_char_of_small)
    qed
    have "s = take ?n s @ es @ CHR 0x22 # r" using es(1) by (metis append_take_drop_id)
    moreover have "jchar (take ?n s) (take ?n s)" using jchar.raw [OF u(1) code] u(3) by (simp add: utf8_text_def)
    ultimately show ?thesis using jchars.char [OF _ es(2)] t(4) by (intro exI [of _ "take ?n s @ es"]) auto
  qed
qed

lemma parse_string_split: "parse_string s = Some (t, r) \<Longrightarrow> \<exists>a. s = a @ r \<and> jstring t a"
proof -
  assume p: "parse_string s = Some (t, r)"
  then have "cur s = CHR 0x22" "parse_string_loop (tl s) = Some (t, r)" by (auto simp: parse_string_def split: if_splits)
  moreover obtain e where "tl s = e @ CHR 0x22 # r" "jchars t e" using parse_string_loop_split calculation(2) by blast
  ultimately show ?thesis using cur_Cons [of s "CHR 0x22"]
    by (intro exI [of _ "CHR 0x22 # e @ [CHR 0x22]"]) (auto simp: jstring_def)
qed

text \<open>The values of string texts are what \<open>json_check\<close> asks of a node's strings: valid UTF-8 without
  a terminator inside.\<close>

lemma jchar_valid: "jchar w e \<Longrightarrow> (utf8_validate (w @ r) \<longleftrightarrow> utf8_validate r) \<and> NUL \<notin> set w"
proof (induction rule: jchar.induct)
  case (raw u)
  then show ?case using utf8_validate_bytes(1) [OF raw(1), of r] utf8_validate_bytes(2) [OF raw(1)] raw(2) by (simp add: utf8_text_def)
next
  case (short c x)
  then have "ord c \<le> 0x7F" "c \<noteq> NUL" by (auto simp: escape_pairs_def)
  moreover from this have "utf8_validate_cz (c # r) = 1" by (simp add: utf8_validate_cz_def)
  ultimately show ?case using utf8_validate_step [of "c # r"] by simp
next
  case (unicode h u)
  then show ?case using utf8_validate_bytes(1) [OF unicode(2,3), of r] utf8_validate_bytes(2) [OF unicode(2,3)] by (simp add: utf8_text_def)
next
  case (pair h uc k lc u)
  then have "is_scalar u" "u \<noteq> 0" using surrogate_scalar [OF pair(3)] by auto
  then show ?case using utf8_validate_bytes(1) [of u r] utf8_validate_bytes(2) [of u] by (simp add: utf8_text_def)
qed

lemma jchars_valid: "jchars t e \<Longrightarrow> utf8_validate t \<and> NUL \<notin> set t"
  by (induction rule: jchars.induct) (auto simp: jchar_valid)

section \<open>Values: every text of the grammar is parsed\<close>

lemma jnumber_head: "jnumber n \<Longrightarrow> \<exists>c t. n = c # t \<and> (is_digit c \<or> c = CHR ''-'')"
  by (cases n) (auto simp: jnumber_scan scan_number_def parse_int_part_def is_digit_def split: if_splits option.splits)

text \<open>A text of a value starts with a character that is no space and no closing or separating
  punctuation.\<close>

definition starter :: "string \<Rightarrow> bool" where
  "starter a \<longleftrightarrow> a \<noteq> [] \<and> \<not> js_space (cur a) \<and> cur a \<notin> set '',]}:'' \<and> cur a \<noteq> NUL"

lemma starters:
  "jtext num v a \<Longrightarrow> starter a" "jelems num vs e \<Longrightarrow> starter e" "jmembers num ms e \<Longrightarrow> starter e"
proof (induction rule: jtext_jelems_jmembers.inducts)
  case (number n)
  then obtain c t where "n = c # t" "is_digit c \<or> c = CHR ''-''" using jnumber_head by blast
  then show ?case by (auto simp: starter_def js_space_def is_digit_def)
qed (auto simp: starter_def js_space_def jstring_def cur_append)

lemma skip_starter: "white w \<Longrightarrow> starter a \<Longrightarrow> skip_space (w @ a @ r) = a @ r"
  by (simp add: skip_white skip_nonspace starter_def cur_append)

lemma skip_close: "white w \<Longrightarrow> c \<in> set '',]}:'' \<Longrightarrow> skip_space (w @ c # r) = c # r"
  by (auto simp: skip_white skip_nonspace js_space_def)

lemma delim_white: "white w \<Longrightarrow> c \<in> set '',]}'' \<Longrightarrow> delim (w @ c # r)"
  by (cases w) (auto simp: delim_def)

lemma parse_number_ok:
  assumes "strtod_local num" "jnumber n" "delim r"
  shows "parse_value num (Suc k) (n @ r) = Some (JNumber (num n), r)"
proof -
  obtain c t where n: "n = c # t" "is_digit c \<or> c = CHR ''-''" using jnumber_head [OF assms(2)] by blast
  have "num (n @ r) = num n" using assms by (auto simp: strtod_local_def)
  moreover have "cur (n @ r) \<notin> set ''nft[{'' \<and> cur (n @ r) \<noteq> CHR 0x22"
    using n by (auto simp: is_digit_def)
  ultimately show ?thesis using scan_number_append [OF assms(2,3)]
    by (auto simp: parse_number_def)
qed

lemma parse_complete:
  assumes num: "strtod_local num"
  shows "jtext num v a \<Longrightarrow> delim r \<Longrightarrow> length a < fuel \<Longrightarrow> parse_value num fuel (a @ r) = Some (v, r)"
    and "jelems num vs e \<Longrightarrow> length e + 1 < fuel \<Longrightarrow> parse_array_loop num fuel (e @ CHR '']'' # r) = Some (vs, r)"
    and "jmembers num ms e \<Longrightarrow> length e + 1 < fuel \<Longrightarrow> parse_object_loop num fuel (e @ CHR ''}'' # r) = Some (ms, r)"
proof (induction arbitrary: r fuel and r fuel and r fuel rule: jtext_jelems_jmembers.inducts)
  case null
  then show ?case using expect_literal_append [of "''null''" r] by (cases fuel) auto
next
  case false
  then show ?case using expect_literal_append [of "''false''" r] by (cases fuel) auto
next
  case true
  then show ?case using expect_literal_append [of "''true''" r] by (cases fuel) auto
next
  case (string t a)
  then show ?case using parse_string_complete [OF string(1), of r]
    by (cases fuel) (auto simp: jstring_def)
next
  case (number n)
  then show ?case using parse_number_ok [OF num number(1)] by (cases fuel) auto
next
  case (array_empty w)
  then show ?case by (cases fuel) (auto simp: skip_close)
next
  case (array w vs e)
  then obtain n where n: "fuel = Suc n" "length e + 1 < n" by (cases fuel) auto
  have st: "starter e" using starters(2) [OF array.IH(1)] .
  then have "cur (e @ CHR '']'' # r) \<noteq> CHR '']''" by (auto simp: starter_def cur_append)
  then show ?case using n array.IH(2) [OF n(2), of r] skip_starter [OF array.hyps(1) st, of "CHR '']'' # r"] by simp
next
  case (object_empty w)
  then show ?case by (cases fuel) (auto simp: skip_close)
next
  case (object w ms e)
  then obtain n where n: "fuel = Suc n" "length e + 1 < n" by (cases fuel) auto
  have st: "starter e" using starters(3) [OF object.IH(1)] .
  then have "cur (e @ CHR ''}'' # r) \<noteq> CHR ''}''" by (auto simp: starter_def cur_append)
  then show ?case using n object.IH(2) [OF n(2), of r] skip_starter [OF object.hyps(1) st, of "CHR ''}'' # r"] by simp
next
  case (elem v a w)
  then obtain n where n: "fuel = Suc n" "length a < n" by (cases fuel) auto
  have "parse_value num n (a @ w @ CHR '']'' # r) = Some (v, w @ CHR '']'' # r)"
    using elem.IH(2) [OF delim_white n(2)] elem.hyps by simp
  then show ?case using n elem.hyps by (simp add: skip_close)
next
  case (elems v a w x vs e)
  then obtain n where n: "fuel = Suc n" "length a < n" "length e + 1 < n" by (cases fuel) auto
  have "parse_value num n (a @ w @ CHR '','' # x @ e @ CHR '']'' # r) = Some (v, w @ CHR '','' # x @ e @ CHR '']'' # r)"
    using elems.IH(2) [OF delim_white n(2)] elems.hyps(1) by simp
  moreover have "skip_space (x @ e @ CHR '']'' # r) = e @ CHR '']'' # r"
    by (rule skip_starter [OF elems.hyps(2) starters(2) [OF elems.IH(3)]])
  ultimately show ?case using n elems.hyps(1) elems.IH(4) [OF n(3), of r] by (simp add: skip_close)
next
  case (member k b w x v a y)
  then obtain n where n: "fuel = Suc n" "length a < n" by (cases fuel) auto
  have "parse_string (b @ w @ CHR '':'' # x @ a @ y @ CHR ''}'' # r) = Some (k, w @ CHR '':'' # x @ a @ y @ CHR ''}'' # r)"
    using parse_string_complete [OF member.hyps(1)] by simp
  moreover have "skip_space (x @ a @ y @ CHR ''}'' # r) = a @ y @ CHR ''}'' # r"
    using skip_starter [OF member.hyps(3) starters(1) [OF member.IH(1)]] by simp
  moreover have "parse_value num n (a @ y @ CHR ''}'' # r) = Some (v, y @ CHR ''}'' # r)"
    using member.IH(2) [OF delim_white n(2)] member.hyps(4) by simp
  ultimately show ?case using n member.hyps(2,4) by (simp add: skip_close)
next
  case (members k b w x v a y z ms e)
  then obtain n where n: "fuel = Suc n" "length a < n" "length e + 1 < n" by (cases fuel) auto
  have "parse_string (b @ w @ CHR '':'' # x @ a @ y @ CHR '','' # z @ e @ CHR ''}'' # r) =
      Some (k, w @ CHR '':'' # x @ a @ y @ CHR '','' # z @ e @ CHR ''}'' # r)"
    using parse_string_complete [OF members.hyps(1)] by simp
  moreover have "skip_space (x @ a @ y @ CHR '','' # z @ e @ CHR ''}'' # r) = a @ y @ CHR '','' # z @ e @ CHR ''}'' # r"
    using skip_starter [OF members.hyps(3) starters(1) [OF members.IH(1)]] by simp
  moreover have "parse_value num n (a @ y @ CHR '','' # z @ e @ CHR ''}'' # r) =
      Some (v, y @ CHR '','' # z @ e @ CHR ''}'' # r)"
    using members.IH(2) [OF delim_white n(2)] members.hyps(4) by simp
  moreover have "skip_space (z @ e @ CHR ''}'' # r) = e @ CHR ''}'' # r"
    by (rule skip_starter [OF members.hyps(5) starters(3) [OF members.IH(3)]])
  ultimately show ?case using n members.hyps(2,4) members.IH(4) [OF n(3), of r] by (simp add: skip_close)
qed

end
