(* ===== verification/Json_Codec.thy ===== *)
theory Json_Codec
  imports Json_Grammar
begin

text \<open>
  What the parser and the printers of theory \<open>Json\<close> promise, against the grammar of theory
  \<open>Json_Grammar\<close>: the parser accepts the texts of the grammar and no others, and what either
  printer writes is such a text of the value, so that it is read back.
\<close>

section \<open>Every text the parser accepts is in the grammar\<close>

lemma delim_skip: "cur (skip_space s) = NUL \<or> cur (skip_space s) \<in> set '',]}'' \<Longrightarrow> delim s"
  using skip_space_split [of s] by (cases s) (auto simp: delim_def skip_space_def split: if_splits)

lemma skip_space_obtain:
  obtains w where "white w" "s = w @ skip_space s"
  using skip_space_split [of s] by blast

lemma skip_space_found:
  assumes "cur (skip_space s) = c" "c \<noteq> NUL"
  obtains w where "white w" "s = w @ c # tl (skip_space s)"
  using skip_space_obtain [of s] cur_Cons [OF assms] by metis

lemma parse_number_split:
  assumes "strtod_local num" "parse_number num s = Some (d, r)" "delim r"
  shows "\<exists>n. s = n @ r \<and> jnumber n \<and> d = num n"
proof -
  have d: "scan_number s = Some r" "d = num s" using assms(2) by (auto simp: parse_number_def)
  obtain n where n: "s = n @ r" "jnumber n" using scan_number_split [OF d(1)] by (auto simp: jnumber_scan)
  then show ?thesis using d(2) assms(1,3) by (auto simp: strtod_local_def)
qed

lemma parse_value_cases:
  assumes "parse_value num (Suc n) s = Some (v, r)"
  obtains "s = ''null'' @ r" "v = JNull"
  | "s = ''false'' @ r" "v = JBool False"
  | "s = ''true'' @ r" "v = JBool True"
  | t where "parse_string s = Some (t, r)" "v = JString t"
  | w where "white w" "s = CHR ''['' # w @ CHR '']'' # r" "v = JArray []"
  | w vs s1 where "white w" "s = CHR ''['' # w @ s1" "s1 = skip_space (tl s)" "cur s = CHR ''[''"
      "cur (skip_space (tl s)) \<noteq> CHR '']''" "parse_array_loop num n s1 = Some (vs, r)" "v = JArray vs"
  | w where "white w" "s = CHR ''{'' # w @ CHR ''}'' # r" "v = JObject []"
  | w ms s1 where "white w" "s = CHR ''{'' # w @ s1" "s1 = skip_space (tl s)" "cur s = CHR ''{''"
      "cur (skip_space (tl s)) \<noteq> CHR ''}''" "parse_object_loop num n s1 = Some (ms, r)" "v = JObject ms"
  | d where "parse_number num s = Some (d, r)" "v = JNumber d"
proof -
  note p = assms [unfolded parse_value.simps]
  consider "cur s = CHR ''n''" | "cur s = CHR ''f''" | "cur s = CHR ''t''" | "cur s = CHR 0x22" |
    "cur s = CHR ''[''" "cur (skip_space (tl s)) = CHR '']''" | "cur s = CHR ''[''" "cur (skip_space (tl s)) \<noteq> CHR '']''" |
    "cur s = CHR ''{''" "cur (skip_space (tl s)) = CHR ''}''" | "cur s = CHR ''{''" "cur (skip_space (tl s)) \<noteq> CHR ''}''" |
    "cur s \<notin> set ''nft[{''" "cur s \<noteq> CHR 0x22" by auto
  then show thesis
  proof cases
    case 1
    then show thesis using p expect_literal_split [of "''null''" s] that(1) by auto
  next
    case 2
    then show thesis using p expect_literal_split [of "''false''" s] that(2) by auto
  next
    case 3
    then show thesis using p expect_literal_split [of "''true''" s] that(3) by auto
  next
    case 4
    then show thesis using p that(4) by auto
  next
    case 5
    then have "v = JArray []" "r = tl (skip_space (tl s))" using p by simp_all
    moreover obtain w where "white w" "tl s = w @ CHR '']'' # tl (skip_space (tl s))"
      using skip_space_found [OF 5(2)] by auto
    ultimately show thesis using that(5) [of w] cur_Cons [OF 5(1)] by simp
  next
    case 6
    then obtain vs where "parse_array_loop num n (skip_space (tl s)) = Some (vs, r)" "v = JArray vs"
      using p by (auto simp: Let_def)
    moreover obtain w where "white w" "tl s = w @ skip_space (tl s)" by (rule skip_space_obtain)
    ultimately show thesis using that(6) [OF _ _ refl 6(1,2)] cur_Cons [OF 6(1)] by simp
  next
    case 7
    then have "v = JObject []" "r = tl (skip_space (tl s))" using p by simp_all
    moreover obtain w where "white w" "tl s = w @ CHR ''}'' # tl (skip_space (tl s))"
      using skip_space_found [OF 7(2)] by auto
    ultimately show thesis using that(7) [of w] cur_Cons [OF 7(1)] by simp
  next
    case 8
    then obtain ms where "parse_object_loop num n (skip_space (tl s)) = Some (ms, r)" "v = JObject ms"
      using p by (auto simp: Let_def)
    moreover obtain w where "white w" "tl s = w @ skip_space (tl s)" by (rule skip_space_obtain)
    ultimately show thesis using that(8) [OF _ _ refl 8(1,2)] cur_Cons [OF 8(1)] by simp
  next
    case 9
    then show thesis using p that(9) by auto
  qed
qed

lemma parse_sound:
  shows "strtod_local num \<Longrightarrow> parse_value num fuel s = Some (v, r) \<Longrightarrow> delim r \<Longrightarrow> \<exists>a. s = a @ r \<and> jtext num v a"
    and "strtod_local num \<Longrightarrow> parse_array_loop num fuel s = Some (vs, r) \<Longrightarrow> \<exists>e. s = e @ CHR '']'' # r \<and> jelems num vs e"
    and "strtod_local num \<Longrightarrow> parse_object_loop num fuel s = Some (ms, r) \<Longrightarrow> \<exists>e. s = e @ CHR ''}'' # r \<and> jmembers num ms e"
proof (induction num fuel s and num fuel s and num fuel s arbitrary: v r and vs r and ms r
    rule: parse_value_parse_array_loop_parse_object_loop.induct)
  case (2 num n s)
  note num = "2.prems"(1)
  from "2.prems"(2) show ?case
  proof (cases rule: parse_value_cases)
    case 1 then show ?thesis using jtext_jelems_jmembers.null by (intro exI [of _ "''null''"]) simp
  next
    case 2 then show ?thesis using jtext_jelems_jmembers.false by (intro exI [of _ "''false''"]) simp
  next
    case 3 then show ?thesis using jtext_jelems_jmembers.true by (intro exI [of _ "''true''"]) simp
  next
    case (4 t) then show ?thesis using parse_string_split jtext_jelems_jmembers.string by blast
  next
    case (5 w) then show ?thesis using jtext_jelems_jmembers.array_empty [of w num] by (intro exI [of _ "''['' @ w @ '']''"]) simp
  next
    case (6 w vs s1)
    have "\<exists>e. s1 = e @ CHR '']'' # r \<and> jelems num vs e"
      by (rule "2.IH"(1)) (use 6(3-6) num in simp_all)
    then obtain e where "s1 = e @ CHR '']'' # r" "jelems num vs e" by blast
    then show ?thesis using 6(1,2,7) jtext_jelems_jmembers.array [of w num vs e] by (intro exI [of _ "''['' @ w @ e @ '']''"]) simp
  next
    case (7 w) then show ?thesis using jtext_jelems_jmembers.object_empty [of w num] by (intro exI [of _ "''{'' @ w @ ''}''"]) simp
  next
    case (8 w ms s1)
    have "\<exists>e. s1 = e @ CHR ''}'' # r \<and> jmembers num ms e"
      by (rule "2.IH"(2)) (use 8(3-6) num in simp_all)
    then obtain e where "s1 = e @ CHR ''}'' # r" "jmembers num ms e" by blast
    then show ?thesis using 8(1,2,7) jtext_jelems_jmembers.object [of w num ms e] by (intro exI [of _ "''{'' @ w @ e @ ''}''"]) simp
  next
    case (9 d)
    then show ?thesis using parse_number_split [OF num _ "2.prems"(3)] jtext_jelems_jmembers.number by blast
  qed
next
  case (4 num n s)
  note num = "4.prems"(1)
  obtain v s1 where v: "parse_value num n s = Some (v, s1)" using "4.prems"(2) by (auto split: option.splits)
  let ?s2 = "skip_space s1"
  consider "cur ?s2 = CHR '']''" "vs = [v]" "r = tl ?s2" |
    vs1 where "cur ?s2 = CHR '',''" "parse_array_loop num n (skip_space (tl ?s2)) = Some (vs1, r)" "vs = v # vs1"
    using "4.prems" v by (auto simp: Let_def split: if_splits)
  then show ?case
  proof cases
    case 1
    obtain a where a: "s = a @ s1" "jtext num v a" using "4.IH"(1) [OF num v] delim_skip 1(1) by auto
    obtain w where "white w" "s1 = w @ CHR '']'' # r" using skip_space_found [OF 1(1)] 1(3) by auto
    then show ?thesis using a 1 jtext_jelems_jmembers.elem [OF a(2), of w] by (intro exI [of _ "a @ w"]) simp
  next
    case (2 vs1)
    obtain a where a: "s = a @ s1" "jtext num v a" using "4.IH"(1) [OF num v] delim_skip 2(1) by auto
    obtain w where w: "white w" "s1 = w @ CHR '','' # tl ?s2" using skip_space_found [OF 2(1)] by auto
    obtain x where x: "white x" "tl ?s2 = x @ skip_space (tl ?s2)" using skip_space_obtain by blast
    obtain e where e: "skip_space (tl ?s2) = e @ CHR '']'' # r" "jelems num vs1 e"
      using "4.IH"(2) [OF v refl refl] num 2 by auto
    have "s = (a @ w @ '','' @ x @ e) @ CHR '']'' # r" using a(1) w(2) x(2) e(1)
      by (metis append.assoc append_Cons append_Nil)
    then show ?thesis using 2 jtext_jelems_jmembers.elems [OF a(2) w(1) x(1) e(2)] by blast
  qed
next
  case (6 num n s)
  note num = "6.prems"(1)
  obtain k s1 where k: "parse_string s = Some (k, s1)" using "6.prems"(2) by (auto split: option.splits)
  let ?s2 = "skip_space s1"
  have colon: "cur ?s2 = CHR '':''" using "6.prems" k by (auto simp: Let_def split: if_splits)
  then obtain v s3 where v: "parse_value num n (skip_space (tl ?s2)) = Some (v, s3)"
    using "6.prems" k by (auto simp: Let_def split: option.splits)
  let ?s4 = "skip_space s3"
  obtain b where b: "s = b @ s1" "jstring k b" using parse_string_split [OF k] by blast
  obtain w where w: "white w" "s1 = w @ CHR '':'' # tl ?s2" using skip_space_found [OF colon] by auto
  obtain x where x: "white x" "tl ?s2 = x @ skip_space (tl ?s2)" using skip_space_obtain by blast
  note IH = "6.IH" [OF k refl refl, simplified colon, simplified]
  consider "cur ?s4 = CHR ''}''" "ms = [(k, v)]" "r = tl ?s4" |
    ms1 where "cur ?s4 = CHR '',''" "parse_object_loop num n (skip_space (tl ?s4)) = Some (ms1, r)" "ms = (k, v) # ms1"
    using "6.prems" k colon v by (auto simp: Let_def split: if_splits)
  then show ?case
  proof cases
    case 1
    obtain a where a: "skip_space (tl ?s2) = a @ s3" "jtext num v a" using IH(1) [OF num v] delim_skip 1(1) by auto
    obtain y where y: "white y" "s3 = y @ CHR ''}'' # r" using skip_space_found [OF 1(1)] 1(3) by auto
    have "s = (b @ w @ '':'' @ x @ a @ y) @ CHR ''}'' # r" using b(1) w(2) x(2) a(1) y(2)
      by (metis append.assoc append_Cons append_Nil)
    then show ?thesis using 1 jtext_jelems_jmembers.member [OF b(2) w(1) x(1) a(2) y(1)] by blast
  next
    case (2 ms1)
    obtain a where a: "skip_space (tl ?s2) = a @ s3" "jtext num v a" using IH(1) [OF num v] delim_skip 2(1) by auto
    obtain y where y: "white y" "s3 = y @ CHR '','' # tl ?s4" using skip_space_found [OF 2(1)] by auto
    obtain z where z: "white z" "tl ?s4 = z @ skip_space (tl ?s4)" using skip_space_obtain by blast
    obtain e where e: "skip_space (tl ?s4) = e @ CHR ''}'' # r" "jmembers num ms1 e"
      using IH(2) [OF v refl refl] num 2 by auto
    have "s = (b @ w @ '':'' @ x @ a @ y @ '','' @ z @ e) @ CHR ''}'' # r" using b(1) w(2) x(2) a(1) y(2) z(2) e(1)
      by (metis append.assoc append_Cons append_Nil)
    then show ?thesis using 2 jtext_jelems_jmembers.members [OF b(2) w(1) x(1) a(2) y(1) z(1) e(2)] by blast
  qed
qed simp_all

section \<open>Documents\<close>

lemma json_decode_complete:
  assumes "strtod_local num" "jdocument num v text"
  shows "json_decode num text = Some v"
proof -
  obtain w a x where t: "white w" "jtext num v a" "white x" "text = w @ a @ x"
    using assms(2) unfolding jdocument_def by blast
  have x: "skip_space x = []" using skip_white [OF t(3), of "[]"] by (simp add: skip_space_def)
  have "delim x" using t(3) by (cases x) (auto simp: delim_def)
  then have "parse_value num (Suc (length text)) (a @ x) = Some (v, x)"
    by (rule parse_complete(1) [OF assms(1) t(2)]) (simp add: t(4))
  moreover have "skip_space text = a @ x" using skip_starter [OF t(1) starters(1) [OF t(2)]] t(4) by simp
  ultimately show ?thesis by (simp add: json_decode_def x del: parse_value.simps)
qed

lemma json_decode_sound:
  assumes "strtod_local num" "NUL \<notin> set text" "json_decode num text = Some v"
  shows "jdocument num v text"
proof -
  obtain s where s: "parse_value num (Suc (length text)) (skip_space text) = Some (v, s)" "cur (skip_space s) = NUL"
    using assms(3) by (auto simp: json_decode_def split: option.splits if_splits)
  obtain w where w: "white w" "text = w @ skip_space text" by (rule skip_space_obtain)
  obtain a where a: "skip_space text = a @ s" "jtext num v a"
    using parse_sound(1) [OF assms(1) s(1)] delim_skip s(2) by auto
  obtain x where x: "white x" "s = x @ skip_space s" by (rule skip_space_obtain)
  have "set (skip_space s) \<subseteq> set text" using w(2) a(1) x(2) by (metis set_append sup_ge2 order_trans)
  then have "skip_space s = []" using s(2) assms(2) by (cases "skip_space s") auto
  then have "text = w @ a @ x" using w(2) a(1) x(2) by simp
  then show ?thesis using w(1) a(2) x(1) unfolding jdocument_def by blast
qed

section \<open>Validation\<close>

text \<open>No character is longer than the buffer of the validator, and its functions leave the text the parser's
  leave.\<close>

lemma utf8_write_length: "utf8_write_char u = Inr w \<Longrightarrow> length w \<le> throwaway_size"
  by (auto simp: utf8_write_char_def Let_def throwaway_size_def split: if_splits)

lemma utf8_validate_cz_le: "utf8_validate_cz s \<le> throwaway_size"
  by (auto simp: utf8_validate_cz_def Let_def throwaway_size_def)

lemma parse_escape_width: "parse_escape s = Some (w, r) \<Longrightarrow> length w \<le> throwaway_size"
  by (auto simp: parse_escape_def parse_unicode_def Let_def throwaway_size_def split: if_splits option.splits sum.splits
      dest!: utf8_write_length)

lemma check_string_loop_parse: "check_string_loop s = Inr (map_option snd (parse_string_loop s))"
proof (induction s rule: check_string_loop.induct)
  case (1 s)
  show ?case
  proof (cases "cur s = CHR 0x5C \<and> (\<exists>p. parse_escape (tl s) = Some p)")
    case True
    then obtain w s1 where p: "cur s = CHR 0x5C" "parse_escape (tl s) = Some (w, s1)" by auto
    have "check_string_loop s1 = Inr (map_option snd (parse_string_loop s1))"
      using "1.IH"(1) [OF refl _ p(1) p(2) refl] parse_escape_width [OF p(2)] p(1) by simp
    then show ?thesis using p parse_escape_width [OF p(2)]
      by (subst check_string_loop.simps, subst parse_string_loop.simps) (simp add: option.map_comp comp_def split_def)
  next
    case False
    let ?t = "drop (utf8_validate_cz s) s"
    have "check_string_loop ?t = Inr (map_option snd (parse_string_loop ?t))"
      if "cur s \<noteq> CHR 0x22" "cur s \<noteq> CHR 0x5C" "\<not> ord (cur s) \<le> 0x1F" "utf8_validate_cz s \<noteq> 0"
      using "1.IH"(2) [OF refl that] utf8_validate_cz_le [of s] by simp
    then show ?thesis using False utf8_validate_cz_le [of s]
      by (subst check_string_loop.simps, subst parse_string_loop.simps)
        (auto simp: Let_def option.map_comp comp_def split_def split: option.splits)
  qed
qed

lemma check_string_parse: "check_string s = Inr (map_option snd (parse_string s))"
  by (simp add: check_string_def parse_string_def check_string_loop_parse)

lemma vbind_simps [simp]: "vbind (Inr None) f = Inr None" "vbind (Inr (Some s)) f = f s"
  by (simp_all add: vbind_def)

lemma map_snd_pair: "map_option snd (map_option (Pair a) x) = x" "map_option snd (map_option (\<lambda>(b, r). (h b, r)) y) = map_option snd y"
  by (cases x; simp) (cases y; auto)

lemma check_value_parse:
  "check_value n s = Inr (map_option snd (parse_value num n s))"
  "check_array_loop n s = Inr (map_option snd (parse_array_loop num n s))"
  "check_object_loop n s = Inr (map_option snd (parse_object_loop num n s))"
proof (induction num n s and num n s and num n s rule: parse_value_parse_array_loop_parse_object_loop.induct)
  case (2 num n s)
  have number: "map_option snd (parse_number num s) = scan_number s" by (cases "scan_number s") (simp_all add: parse_number_def)
  show ?case using 2 by (simp add: Let_def map_snd_pair check_string_parse number)
next
  case (4 num n s)
  show ?case
  proof (cases "parse_value num n s")
    case None
    then show ?thesis using "4.IH"(1) by simp
  next
    case (Some p)
    then obtain v s1 where p: "parse_value num n s = Some (v, s1)" by (cases p) auto
    show ?thesis using "4.IH"(1) "4.IH"(2) [OF p refl refl] by (simp add: p Let_def map_snd_pair)
  qed
next
  case (6 num n s)
  show ?case
  proof (cases "parse_string s")
    case None
    then show ?thesis by (simp add: check_string_parse)
  next
    case (Some p)
    then obtain k s1 where k: "parse_string s = Some (k, s1)" by (cases p) auto
    show ?thesis
    proof (cases "cur (skip_space s1) = CHR '':''")
      case True
      let ?t = "skip_space (tl (skip_space s1))"
      have v: "check_value n ?t = Inr (map_option snd (parse_value num n ?t))"
        by (rule "6.IH"(1) [OF k refl refl]) (simp add: True)
      show ?thesis
      proof (cases "parse_value num n ?t")
        case None
        then show ?thesis using v True k by (simp add: Let_def check_string_parse)
      next
        case (Some q)
        then obtain v s3 where q: "parse_value num n ?t = Some (v, s3)" by (cases q) auto
        show ?thesis using \<open>check_value n ?t = Inr (map_option snd (parse_value num n ?t))\<close> "6.IH"(2) [OF k refl refl _ q refl refl]
          by (simp add: q k True Let_def map_snd_pair check_string_parse)
      qed
    next
      case False
      then show ?thesis using k by (simp add: Let_def check_string_parse)
    qed
  qed
qed simp_all

lemma json_validate_decode: "json_validate text = Inr (\<exists>v. json_decode num text = Some v)"
  using check_value_parse(1) [of "Suc (length text)" "skip_space text" num]
  by (auto simp: json_validate_def json_decode_def simp del: parse_value.simps check_value.simps split: option.splits)

section \<open>What the printers write\<close>

lemma hex16_upper:
  assumes "n < 16"
  shows "hex16_digit (hex_upper ! n) = Some n"
proof -
  have "list_all (\<lambda>(c, n). hex16_digit c = Some n) (zip hex_upper [0..<16])" by code_simp
  moreover have "(hex_upper ! n, n) \<in> set (zip hex_upper [0..<16])"
    using assms by (auto simp: set_zip hex_upper_def intro!: exI [of _ n])
  ultimately show ?thesis by (auto simp: list_all_iff)
qed

lemma split16:
  "v = 16 * (v div 16) + v mod (16 :: nat)" "v div 16 = 16 * (v div 256) + v div 16 mod (16 :: nat)"
  "v div 256 = 16 * (v div 4096) + v div 256 mod (16 :: nat)"
  using div_mult_mod_eq [of v 16] div_mult_mod_eq [of "v div 16" 16] div_mult_mod_eq [of "v div 256" 16]
  by (simp_all add: div_mult2_eq [symmetric] del: div_mult_mod_eq mult_div_mod_eq mod_mult_div_eq)

lemma digits16: "v = 16 * x + c \<Longrightarrow> x = 16 * y + b \<Longrightarrow> y = 16 * z + a \<Longrightarrow> v = ((z * 16 + a) * 16 + b) * 16 + (c :: nat)"
  by simp

lemma hex4_write:
  assumes "v < 2 ^ 16"
  shows "hex4 (write_hex16 v) v"
proof -
  let ?d = "\<lambda>k. drop_bit k v AND 0xF"
  have d: "?d 12 = v div 4096" "?d 8 = v div 256 mod 16" "?d 4 = v div 16 mod 16" "?d 0 = v mod 16"
    using assms by (simp_all add: and_masks drop_bit_eq_div)
  have "v = ((?d 12 * 16 + ?d 8) * 16 + ?d 4) * 16 + ?d 0"
    unfolding d by (rule digits16 [OF split16])
  moreover have "hex16_digit (hex_upper ! ?d k) = Some (?d k)" for k
    by (rule hex16_upper) (simp add: and_masks)
  ultimately show ?thesis unfolding hex4_def write_hex16_def by (simp only: list.map) blast
qed

lemma short_escape_pair: "short_escape c = Some e \<Longrightarrow> \<exists>x. e = [CHR 0x5C, x] \<and> (c, x) \<in> set escape_pairs"
  by (auto simp: short_escape_def escape_pairs_def split: if_splits)

lemma short_escape_none: "short_escape c = None \<Longrightarrow> c \<noteq> CHR 0x22 \<and> c \<noteq> CHR 0x5C"
  by (auto simp: short_escape_def split: if_splits)

lemma utf8_head:
  assumes "s = c # s'" "c \<noteq> NUL" "utf8_validate_cz s \<noteq> 0"
  shows "utf8_code s \<le> 0x7F \<Longrightarrow> c = char_of (utf8_code s)"
    and "ord c \<le> 0x7F \<Longrightarrow> utf8_code s = ord c \<and> utf8_validate_cz s = 1"
proof -
  show "utf8_code s \<le> 0x7F \<Longrightarrow> c = char_of (utf8_code s)"
    using utf8_valid_bytes(3) [of s, OF _ refl] assms by (cases "utf8_validate_cz s") (auto simp: utf8_bytes_def)
  show "ord c \<le> 0x7F \<Longrightarrow> utf8_code s = ord c \<and> utf8_validate_cz s = 1"
    using assms(1) by (simp add: utf8_code_def utf8_validate_cz_def)
qed

lemma emit_string_loop_jchars:
  "utf8_validate t \<Longrightarrow> NUL \<notin> set t \<Longrightarrow> CHR 0x1F \<notin> set t \<Longrightarrow> \<exists>e. emit_string_loop t = Inr e \<and> jchars t e"
proof (induction t rule: emit_string_loop.induct)
  case (1 s)
  show ?case
  proof (cases s)
    case Nil
    then show ?thesis by (auto simp: emit_string_loop.simps intro: jchars.nil)
  next
    case (Cons c s')
    then have c: "cur s = c" "c \<noteq> NUL" "c \<noteq> CHR 0x1F" using "1.prems" by auto
    let ?n = "utf8_validate_cz s" and ?u = "utf8_code s"
    have n: "?n \<noteq> 0" "utf8_validate (drop ?n s)"
      using "1.prems"(1) c Cons by (subst (asm) utf8_validate.simps, simp split: if_splits)+
    have u: "is_scalar ?u" "?u \<noteq> 0" "take ?n s = utf8_text ?u"
      using utf8_valid_bytes [OF _ refl n(1)] c by (simp_all add: utf8_text_def)
    have rest: "NUL \<notin> set (drop ?n s)" "CHR 0x1F \<notin> set (drop ?n s)"
      using "1.prems"(2,3) in_set_dropD by metis+
    note head = utf8_head [OF Cons c(2) n(1)]
    show ?thesis
    proof (cases "short_escape c")
      case (Some e)
      then obtain x where x: "e = [CHR 0x5C, x]" "(c, x) \<in> set escape_pairs" using short_escape_pair by blast
      then have "ord c \<le> 0x7F" by (auto simp: escape_pairs_def)
      then have "drop ?n s = s'" using head(2) Cons by simp
      then have "\<exists>r. emit_string_loop (tl s) = Inr r \<and> jchars (tl s) r"
        by - (rule "1.IH"(3), use Some c n(2) rest Cons in simp_all)
      then obtain r where r: "emit_string_loop s' = Inr r" "jchars s' r" using Cons by auto
      have "emit_string_loop s = Inr (e @ r)"
        using Some c r(1) Cons by (subst emit_string_loop.simps) simp
      then show ?thesis using jchars.char [OF jchar.short [OF x(2)] r(2)] x(1) Cons by auto
    next
      case None
      then obtain r where r: "emit_string_loop (drop ?n s) = Inr r" "jchars (drop ?n s) r"
        using "1.IH"(1,2) c n rest by (cases "ord c < 0x1F") (auto simp: utf8_read_char_code emit_unicode_def)
      have s: "s = utf8_text ?u @ drop ?n s" using u(3) by (metis append_take_drop_id)
      show ?thesis
      proof (cases "ord c < 0x1F")
        case True
        then have "?u < 0x1F" using head(2) by simp
        then have "emit_string_loop s = Inr ([CHR 0x5C, CHR ''u''] @ write_hex16 ?u @ r)"
          using None c n(1) True r(1)
          by (subst emit_string_loop.simps) (simp add: utf8_read_char_code emit_unicode_def)
        moreover have "jchar (utf8_text ?u) ([CHR 0x5C, CHR ''u''] @ write_hex16 ?u)"
          by (rule jchar.unicode [OF hex4_write u(1,2)]) (use \<open>?u < 0x1F\<close> in simp)
        ultimately show ?thesis using jchars.char [OF _ r(2)] s by fastforce
      next
        case False
        then have "emit_string_loop s = Inr (utf8_text ?u @ r)"
          using None c n(1) r(1) u(3) by (subst emit_string_loop.simps) simp
        moreover have "jchar (utf8_text ?u) (utf8_text ?u)"
        proof (rule jchar.raw [OF u(1)])
          have "c \<noteq> CHR 0x1F" "ord c \<noteq> 0x1F" using c(3) ord_inj [of c "CHR 0x1F"] by auto
          then show "0x1F < ?u" using head(1) False ord_char_of_small [of ?u] by force
          show "?u \<noteq> 0x22" "?u \<noteq> 0x5C" using head(1) short_escape_none [OF None] ord_inj [of c "CHR 0x22"] ord_inj [of c "CHR 0x5C"]
            by (auto simp: ord_char_of_small)
        qed
        ultimately show ?thesis using jchars.char [OF _ r(2)] s by fastforce
      qed
    qed
  qed
qed

text \<open>The values the printers write a text of: the strings are the ones \<open>json_check\<close> accepts, without the
  control character 0x1F (below); a number whose \<open>sprintf\<close> text is a JSON number has a stream text that is
  one. The document that is printed is \<open>printed v\<close>: for such a number the one that is read from the stream
  text, which has the digits the stream gives it; the other numbers (infinities and NaN) are written as
  \<open>null\<close>.\<close>

definition text_ok :: "string \<Rightarrow> bool" where
  "text_ok t \<longleftrightarrow> utf8_validate t \<and> NUL \<notin> set t \<and> CHR 0x1F \<notin> set t"

definition number_ok :: "('d \<Rightarrow> string) \<Rightarrow> ('d \<Rightarrow> string) \<Rightarrow> 'd \<Rightarrow> bool" where
  "number_ok f g d \<longleftrightarrow> (number_is_valid (f d) \<longrightarrow> jnumber (g d))"

fun printable :: "('d \<Rightarrow> string) \<Rightarrow> ('d \<Rightarrow> string) \<Rightarrow> 'd json \<Rightarrow> bool" where
  "printable f g JNull \<longleftrightarrow> True"
| "printable f g (JBool b) \<longleftrightarrow> True"
| "printable f g (JString t) \<longleftrightarrow> text_ok t"
| "printable f g (JNumber d) \<longleftrightarrow> number_ok f g d"
| "printable f g (JArray vs) \<longleftrightarrow> list_all (printable f g) vs"
| "printable f g (JObject ms) \<longleftrightarrow> list_all (\<lambda>(k, v). text_ok k \<and> printable f g v) ms"

fun printed :: "(string \<Rightarrow> 'd) \<Rightarrow> ('d \<Rightarrow> string) \<Rightarrow> ('d \<Rightarrow> string) \<Rightarrow> 'd json \<Rightarrow> 'd json" where
  "printed num f g (JNumber d) = (if number_is_valid (f d) then JNumber (num (g d)) else JNull)"
| "printed num f g (JArray vs) = JArray (map (printed num f g) vs)"
| "printed num f g (JObject ms) = JObject (map (\<lambda>(k, v). (k, printed num f g v)) ms)"
| "printed num f g v = v"

lemma emit_string_jstring: "text_ok t \<Longrightarrow> \<exists>a. emit_string t = Inr a \<and> jstring t a"
  using emit_string_loop_jchars [of t] by (auto simp: text_ok_def emit_string_def jstring_def)

lemma emit_number_jtext: "number_ok f g d \<Longrightarrow> jtext num (printed num f g (JNumber d)) (emit_number f g d)"
  using jtext_jelems_jmembers.number [of "g d" num] jtext_jelems_jmembers.null [of num]
  by (auto simp: number_ok_def emit_number_def)

lemma jbool_text: "jtext num (JBool b) (if b then ''true'' else ''false'')"
  using jtext_jelems_jmembers.true jtext_jelems_jmembers.false by (cases b) auto

lemma emit_value_jtext:
  "printable f g v \<Longrightarrow> \<exists>a. emit_value f g v = Inr a \<and> jtext num (printed num f g v) a"
  "list_all (printable f g) vs \<Longrightarrow> \<exists>e. emit_elements f g vs = Inr e \<and> (vs \<noteq> [] \<longrightarrow> jelems num (map (printed num f g) vs) e)"
  "list_all (\<lambda>(k, v). text_ok k \<and> printable f g v) ms \<Longrightarrow>
     \<exists>e. emit_members f g ms = Inr e \<and> (ms \<noteq> [] \<longrightarrow> jmembers num (map (\<lambda>(k, v). (k, printed num f g v)) ms) e)"
proof (induction f g v and f g vs and f g ms rule: emit_value_emit_elements_emit_members.induct)
  case (1 f g) then show ?case using jtext_jelems_jmembers.null by simp
next
  case (2 f g b) then show ?case using jbool_text [of num b] by simp
next
  case (3 f g t) then show ?case using emit_string_jstring jtext_jelems_jmembers.string by fastforce
next
  case (4 f g d) then show ?case using emit_number_jtext [of f g d num] by simp
next
  case (5 f g vs)
  then obtain e where e: "emit_elements f g vs = Inr e" "vs \<noteq> [] \<longrightarrow> jelems num (map (printed num f g) vs) e" by auto
  show ?case using e jtext_jelems_jmembers.array_empty [of "[]" num] jtext_jelems_jmembers.array [of "[]" num "map (printed num f g) vs" e]
    by (cases "vs = []") auto
next
  case (6 f g ms)
  then obtain e where e: "emit_members f g ms = Inr e" "ms \<noteq> [] \<longrightarrow> jmembers num (map (\<lambda>(k, v). (k, printed num f g v)) ms) e" by auto
  show ?case using e jtext_jelems_jmembers.object_empty [of "[]" num] jtext_jelems_jmembers.object [of "[]" num "map (\<lambda>(k, v). (k, printed num f g v)) ms" e]
    by (cases "ms = []") auto
next
  case (8 f g v vs)
  then obtain a e where a: "emit_value f g v = Inr a" "jtext num (printed num f g v) a"
    and e: "emit_elements f g vs = Inr e" "vs \<noteq> [] \<longrightarrow> jelems num (map (printed num f g) vs) e" by auto
  show ?case using a e jtext_jelems_jmembers.elem [OF a(2), of "[]"] jtext_jelems_jmembers.elems [OF a(2), of "[]" "[]" _ e]
    by (cases "vs = []") auto
next
  case (10 f g k v ms)
  then obtain a e where a: "emit_value f g v = Inr a" "jtext num (printed num f g v) a"
    and e: "emit_members f g ms = Inr e" "ms \<noteq> [] \<longrightarrow> jmembers num (map (\<lambda>(k, v). (k, printed num f g v)) ms) e" by auto
  obtain b where b: "emit_string k = Inr b" "jstring k b" using emit_string_jstring "10.prems" by auto
  show ?case using a e b jtext_jelems_jmembers.member [OF b(2) _ _ a(2), of "[]" "[]" "[]"]
      jtext_jelems_jmembers.members [OF b(2) _ _ a(2), of "[]" "[]" "[]" "[]" _ e]
    by (cases "ms = []") auto
qed simp_all

text \<open>The indented form: white space goes before every element and after every value.\<close>

lemma white_indent [simp]: "white sp \<Longrightarrow> white (indent sp n)"
  by (induction n) (simp_all add: indent_def)

lemma jelems_white:
  "jtext num v a \<Longrightarrow> True"
  "jelems num vs e \<Longrightarrow> white y \<Longrightarrow> jelems num vs (e @ y)"
  "jmembers num ms e \<Longrightarrow> white y \<Longrightarrow> jmembers num ms (e @ y)"
proof (induction rule: jtext_jelems_jmembers.inducts)
  case (elem v a w)
  then show ?case using jtext_jelems_jmembers.elem [of num v a "w @ y"] by simp
next
  case (elems v a w x vs e)
  then show ?case using jtext_jelems_jmembers.elems [of num v a w x vs "e @ y"] by simp
next
  case (member k b w x v a z)
  then show ?case using jtext_jelems_jmembers.member [of k b w x num v a "z @ y"] by simp
next
  case (members k b w x v a z z' ms e)
  then show ?case using jtext_jelems_jmembers.members [of k b w x num v a z z' ms "e @ y"] by simp
qed simp_all

lemma white_newline [simp]: "js_space CHR 0x0A" "js_space CHR '' ''"
  by (simp_all add: js_space_def)

lemma emit_indented_jtext:
  assumes sp: "white sp"
  shows "printable f g v \<Longrightarrow> \<exists>a. emit_indented f g sp n v = Inr a \<and> jtext num (printed num f g v) a"
  and "list_all (printable f g) vs \<Longrightarrow> \<exists>w e. emit_elements_indented f g sp n vs = Inr (w @ e) \<and> white w \<and>
     (vs \<noteq> [] \<longrightarrow> jelems num (map (printed num f g) vs) e)"
  and "list_all (\<lambda>(k, v). text_ok k \<and> printable f g v) ms \<Longrightarrow>
     \<exists>w e. emit_members_indented f g sp n ms = Inr (w @ e) \<and> white w \<and>
       (ms \<noteq> [] \<longrightarrow> jmembers num (map (\<lambda>(k, v). (k, printed num f g v)) ms) e)"
  using sp
proof (induction f g sp n v and f g sp n vs and f g sp n ms
    rule: emit_indented_emit_elements_indented_emit_members_indented.induct)
  case (1 f g sp n) then show ?case using jtext_jelems_jmembers.null by simp
next
  case (2 f g sp n b) then show ?case using jbool_text [of num b] by simp
next
  case (3 f g sp n t) then show ?case using emit_string_jstring jtext_jelems_jmembers.string by fastforce
next
  case (4 f g sp n d) then show ?case using emit_number_jtext [of f g d num] by simp
next
  case (5 f g sp n vs)
  show ?case
  proof (cases "vs = []")
    case True
    then show ?thesis using jtext_jelems_jmembers.array_empty [of "[]" num] by simp
  next
    case False
    then obtain w e where e: "emit_elements_indented f g sp n vs = Inr (w @ e)" "white w" "jelems num (map (printed num f g) vs) e"
      using 5 by auto
    have "jelems num (map (printed num f g) vs) (e @ indent sp n)" using jelems_white(2) [OF e(3)] "5.prems"(2) by simp
    then show ?thesis using False e(1) jtext_jelems_jmembers.array [of "CHR 0x0A # w"] e(2) by fastforce
  qed
next
  case (6 f g sp n ms)
  show ?case
  proof (cases "ms = []")
    case True
    then show ?thesis using jtext_jelems_jmembers.object_empty [of "[]" num] by simp
  next
    case False
    let ?ms = "map (\<lambda>(k, v). (k, printed num f g v)) ms"
    obtain w e where e: "emit_members_indented f g sp n ms = Inr (w @ e)" "white w" "jmembers num ?ms e"
      using 6 False by auto
    have "jmembers num ?ms (e @ indent sp n)" using jelems_white(3) [OF e(3)] "6.prems"(2) by simp
    then show ?thesis using False e(1) jtext_jelems_jmembers.object [of "CHR 0x0A # w"] e(2) by fastforce
  qed
next
  case (8 f g sp n v vs)
  then obtain a w e where a: "emit_indented f g sp (n + 1) v = Inr a" "jtext num (printed num f g v) a"
    and e: "emit_elements_indented f g sp n vs = Inr (w @ e)" "white w" "vs \<noteq> [] \<longrightarrow> jelems num (map (printed num f g) vs) e"
    by auto
  let ?r = "if vs = [] then a @ [CHR 0x0A] @ w @ e else a @ '','' @ (CHR 0x0A # w) @ e"
  show ?case
  proof (intro exI conjI)
    show "emit_elements_indented f g sp n (v # vs) = Inr (indent sp (n + 1) @ ?r)" using a e by simp
    show "white (indent sp (n + 1))" using "8.prems"(2) by simp
    show "v # vs \<noteq> [] \<longrightarrow> jelems num (map (printed num f g) (v # vs)) ?r"
      using e "8.prems" jtext_jelems_jmembers.elem [OF a(2), of "[CHR 0x0A]"] jtext_jelems_jmembers.elems [OF a(2), of "[]" "CHR 0x0A # w" _ e]
      by (cases "vs = []") auto
  qed
next
  case (10 f g sp n k v ms)
  then obtain a w e where a: "emit_indented f g sp (n + 1) v = Inr a" "jtext num (printed num f g v) a"
    and e: "emit_members_indented f g sp n ms = Inr (w @ e)" "white w"
      "ms \<noteq> [] \<longrightarrow> jmembers num (map (\<lambda>(k, v). (k, printed num f g v)) ms) e"
    by auto
  obtain b where b: "emit_string k = Inr b" "jstring k b" using emit_string_jstring "10.prems" by auto
  let ?r = "if ms = [] then b @ [] @ '':'' @ '' '' @ a @ [CHR 0x0A] @ w @ e else b @ [] @ '':'' @ '' '' @ a @ [] @ '','' @ (CHR 0x0A # w) @ e"
  show ?case
  proof (intro exI conjI)
    show "emit_members_indented f g sp n ((k, v) # ms) = Inr (indent sp (n + 1) @ ?r)" using a b e by simp
    show "white (indent sp (n + 1))" using "10.prems"(2) by simp
    show "(k, v) # ms \<noteq> [] \<longrightarrow> jmembers num (map (\<lambda>(k, v). (k, printed num f g v)) ((k, v) # ms)) ?r"
      using e "10.prems" jtext_jelems_jmembers.member [OF b(2) _ _ a(2), of "[]" "'' ''" "[CHR 0x0A]"]
        jtext_jelems_jmembers.members [OF b(2) _ _ a(2), of "[]" "'' ''" "[]" "CHR 0x0A # w" _ e]
      by (cases "ms = []") auto
  qed
qed simp_all

section \<open>Properties\<close>

text \<open>A reader of decimal integers, to instantiate \<open>strtod\<close>: it stops at the first character that is
  no digit.\<close>

definition dec_value :: "string \<Rightarrow> int" where
  "dec_value s = fold (\<lambda>c n. n * 10 + (int (ord c) - 48)) (takeWhile is_digit s) 0"

definition read_dec :: "string \<Rightarrow> int" where
  "read_dec s = (if cur s = CHR ''-'' then - dec_value (tl s) else dec_value s)"

lemma dec_value_append: "\<not> is_digit (cur r) \<Longrightarrow> dec_value (n @ r) = dec_value n"
proof -
  assume r: "\<not> is_digit (cur r)"
  have "takeWhile is_digit (n @ r) = takeWhile is_digit n"
    using r by (induction n) (auto, cases r, auto)
  then show ?thesis by (simp add: dec_value_def)
qed

lemma read_dec_local: "strtod_local read_dec"
proof -
  have "read_dec (n @ r) = read_dec n" if n: "jnumber n" and r: "delim r" for n r
  proof -
    obtain c t where "n = c # t" using jnumber_head [OF n] by blast
    then show ?thesis using dec_value_append [of r "tl n"] dec_value_append [of r n] delim_facts [OF r]
      by (auto simp: read_dec_def)
  qed
  then show ?thesis by (simp add: strtod_local_def)
qed

text \<open>C1: the decoder accepts exactly the documents of the grammar and gives their value: on a text
  without a terminator inside, it returns \<open>v\<close> iff the text is white space, a text of \<open>v\<close> and white
  space. So a document has one value, and the recursion never runs short of its fuel.\<close>

theorem json_decode_grammar:
  assumes "strtod_local num" "NUL \<notin> set text"
  shows "json_decode num text = Some v \<longleftrightarrow> jdocument num v text"
  using json_decode_complete json_decode_sound assms by blast

lemma json_decode_grammar_witness:
  "jdocument read_dec (JArray [JNumber 12, JBool True]) '' [12 ,true]'' \<and>
   (\<nexists>v. jdocument read_dec v ''[12,]'')"
proof
  have "json_decode read_dec '' [12 ,true]'' = Some (JArray [JNumber 12, JBool True])" by code_simp
  then show "jdocument read_dec (JArray [JNumber 12, JBool True]) '' [12 ,true]''"
    using json_decode_grammar [OF read_dec_local] by simp
  have "json_decode read_dec ''[12,]'' = None" by code_simp
  then show "\<nexists>v. jdocument read_dec v ''[12,]''"
    using json_decode_grammar [OF read_dec_local, of "''[12,]''"] by simp
qed

text \<open>C15: validation gives the decoder's verdict, on every text, and never writes past the four bytes it
  reads the characters of strings into.\<close>

theorem json_validate_spec: "json_validate text = Inr (\<exists>v. json_decode num text = Some v)"
  by (rule json_validate_decode)

text \<open>C7: what the compact and the indented printer write is a document of the value and is
  decoded to it: for every value whose strings are valid UTF-8 (without a terminator or the control
  character 0x1F inside), printing raises nothing, and decoding the text gives the value back, but for its
  numbers: a finite one becomes the number that \<open>strtod\<close> reads from the text the stream writes for it
  (which only has to be a number's text), the others become \<open>null\<close>; the indentation may be any white
  space.\<close>

theorem json_print_parse:
  assumes "strtod_local num" "printable fmt16 show_num v" "white space"
  shows "(\<exists>a. emit_value fmt16 show_num v = Inr a \<and> json_decode num a = Some (printed num fmt16 show_num v)) \<and>
    (\<exists>a. emit_indented fmt16 show_num space n v = Inr a \<and> json_decode num a = Some (printed num fmt16 show_num v))"
proof -
  have doc: "jtext num v a \<Longrightarrow> jdocument num v a" for v a
    unfolding jdocument_def by (intro exI [of _ "[]"] exI [of _ a]) simp
  then show ?thesis
    using emit_value_jtext(1) [OF assms(2)] emit_indented_jtext(1) [OF assms(3,2), of n]
      json_decode_complete [OF assms(1)] by meson
qed

lemma json_print_parse_witness:
  "\<exists>a. emit_indented (\<lambda>d :: int. ''7'') (\<lambda>d. ''7'') ''  '' 0 (JObject [(''k'', JArray [JNumber 8, JString [CHR 0x01, CHR 0x22]])]) = Inr a \<and>
     json_decode read_dec a = Some (JObject [(''k'', JArray [JNumber 7, JString [CHR 0x01, CHR 0x22]])])"
proof -
  let ?v = "\<lambda>d. JObject [(''k'', JArray [JNumber d, JString [CHR 0x01, CHR 0x22]])] :: int json"
  let ?f = "\<lambda>d :: int. ''7''"
  have v: "number_is_valid ''7''" "jnumber ''7''" "read_dec ''7'' = 7" "utf8_validate ''k''" "utf8_validate [CHR 0x01, CHR 0x22]"
    unfolding jnumber_scan by code_simp+
  have "printable ?f ?f (?v 8)" using v by (simp add: text_ok_def number_ok_def)
  moreover have "printed read_dec ?f ?f (?v 8) = ?v 7" using v(1,3) by simp
  moreover have "white ''  ''" by (simp add: js_space_def)
  ultimately show ?thesis using json_print_parse [OF read_dec_local, of ?f ?f "?v 8" "''  ''" 0] by simp
qed

text \<open>The one control character the printer does not escape is the one the parser refuses: a
  string holding 0x1F is valid for \<open>json_check\<close>, is printed with the raw character, and the text is
  no document.\<close>

theorem control_1F_not_read_back:
  "utf8_validate [CHR 0x1F] \<and> emit_value fmt16 show_num (JString [CHR 0x1F]) = Inr [CHR 0x22, CHR 0x1F, CHR 0x22] \<and>
   json_decode num [CHR 0x22, CHR 0x1F, CHR 0x22] = None"
proof (intro conjI)
  show v: "utf8_validate [CHR 0x1F]" by code_simp
  have "emit_string [CHR 0x1F] = Inr [CHR 0x22, CHR 0x1F, CHR 0x22]" by code_simp
  then show "emit_value fmt16 show_num (JString [CHR 0x1F]) = Inr [CHR 0x22, CHR 0x1F, CHR 0x22]" by simp
  have "check_string_loop [CHR 0x1F, CHR 0x22] = Inr None" by (simp add: check_string_loop.simps [of "[CHR 0x1F, CHR 0x22]"])
  then have "json_validate [CHR 0x22, CHR 0x1F, CHR 0x22] = Inr False"
    by (simp add: json_validate_def skip_space_def js_space_def check_string_def)
  then show "json_decode num [CHR 0x22, CHR 0x1F, CHR 0x22] = None"
    using json_validate_decode [of "[CHR 0x22, CHR 0x1F, CHR 0x22]" num] by simp
qed

end
