(* ===== verification/Json_Object.thy ===== *)
theory Json_Object
  imports Json
begin

text \<open>
  \<open>suil::json::Object\<close> of \<open>libs/base/src/json.cpp\<close>: the accessors, the lookups by index, by key and by
  dotted path, the growing operations and the comparison. An object is a node or none
  (\<open>mNode == nullptr\<close>); the operations that grow a node give the node after the call. An object made
  from \<open>nullptr\<close> holds a null node.
\<close>

type_synonym 'd obj = "'d json option"

definition no_object :: "'d obj" where
  "no_object = Some JNull"

section \<open>Accessors\<close>

definition obj_type :: "'d obj \<Rightarrow> Tag" where
  "obj_type ob = (case ob of Some v \<Rightarrow> tag_of v | None \<Rightarrow> JSON_NULL)"

definition is_null :: "'d obj \<Rightarrow> bool" where
  "is_null ob \<longleftrightarrow> (case ob of None \<Rightarrow> True | Some v \<Rightarrow> tag_of v = JSON_NULL)"

definition is_array :: "'d obj \<Rightarrow> bool" where
  "is_array ob \<longleftrightarrow> (case ob of None \<Rightarrow> False | Some v \<Rightarrow> tag_of v = JSON_ARRAY)"

definition is_object :: "'d obj \<Rightarrow> bool" where
  "is_object ob \<longleftrightarrow> (case ob of None \<Rightarrow> False | Some v \<Rightarrow> tag_of v = JSON_OBJECT)"

definition obj_empty :: "'d obj \<Rightarrow> bool" where
  "obj_empty ob \<longleftrightarrow>
     (case ob of
        None \<Rightarrow> True
      | Some JNull \<Rightarrow> True
      | Some (JString s) \<Rightarrow> s = []
      | Some (JBool b) \<Rightarrow> \<not> b
      | Some (JObject ms) \<Rightarrow> ms = []
      | Some (JArray vs) \<Rightarrow> vs = []
      | Some (JNumber d) \<Rightarrow> False)"

definition obj_double :: "'d obj \<Rightarrow> 'd result" where
  "obj_double ob = (case ob of Some (JNumber d) \<Rightarrow> Inr d | _ \<Rightarrow> Inl UnsupportedOperation)"

definition obj_cstr :: "'d obj \<Rightarrow> string result" where
  "obj_cstr ob = (case ob of Some (JString s) \<Rightarrow> Inr s | _ \<Rightarrow> Inl UnsupportedOperation)"

section \<open>Lookups\<close>

text \<open>The loop of \<open>json_find_element\<close>, from the \<open>i\<close>-th child on.\<close>

fun find_element_loop :: "int \<Rightarrow> int \<Rightarrow> 'd json list \<Rightarrow> 'd obj" where
  "find_element_loop index i [] = None"
| "find_element_loop index i (v # vs) = (if i = index then Some v else find_element_loop index (i + 1) vs)"

definition find_element :: "'d obj \<Rightarrow> int \<Rightarrow> 'd obj" where
  "find_element ob index = (case ob of Some (JArray vs) \<Rightarrow> find_element_loop index 0 vs | _ \<Rightarrow> None)"

fun find_member_loop :: "string \<Rightarrow> (string \<times> 'd json) list \<Rightarrow> 'd obj" where
  "find_member_loop key [] = None"
| "find_member_loop key ((k, v) # ms) =
     (if length k = length key \<and> strncmp_eq k key (length key) then Some v else find_member_loop key ms)"

definition find_member :: "'d obj \<Rightarrow> string \<Rightarrow> 'd obj" where
  "find_member ob key = (case ob of Some (JObject ms) \<Rightarrow> find_member_loop key ms | _ \<Rightarrow> None)"

definition obj_at :: "'d obj \<Rightarrow> int \<Rightarrow> bool \<Rightarrow> 'd obj result" where
  "obj_at ob index throwNotFound =
     (if \<not> is_array ob then (if throwNotFound then Inl UnsupportedOperation else Inr no_object)
      else if find_element ob index = None \<and> throwNotFound then Inl IndexOutOfBounds
      else Inr (find_element ob index))"

definition obj_get :: "'d obj \<Rightarrow> string \<Rightarrow> bool \<Rightarrow> 'd obj result" where
  "obj_get ob key shouldThrow =
     (if \<not> is_object ob then (if shouldThrow then Inl UnsupportedOperation else Inr no_object)
      else Inr (find_member ob key))"

text \<open>\<open>operator()(key, throwNotFound)\<close>: the key is a path with dots; \<open>s\<close> is what is left of it.\<close>

function path_loop :: "'d obj \<Rightarrow> bool \<Rightarrow> string \<Rightarrow> 'd obj result" where
  "path_loop ob throwNotFound s =
     (if CHR ''.'' \<in> set s then
        rbind (obj_get ob (takeWhile (\<lambda>c. c \<noteq> CHR ''.'') s) throwNotFound) (\<lambda>sub.
          if obj_empty sub \<or> \<not> is_object sub then
            (if throwNotFound then Inl UnsupportedOperation else Inr no_object)
          else path_loop sub throwNotFound (tl (dropWhile (\<lambda>c. c \<noteq> CHR ''.'') s)))
      else if s = ''*'' then Inr ob
      else obj_get ob s throwNotFound)"
  by auto
termination
proof (relation "measure (\<lambda>(ob, t, s). length s)")
  show "((sub, t, tl (dropWhile (\<lambda>c. c \<noteq> CHR ''.'') s)), (ob, t, s)) \<in> measure (\<lambda>(ob, t, s). length s)"
    if "CHR ''.'' \<in> set s" for sub ob :: "'d obj" and t s
  proof -
    have "s \<noteq> []" using that by auto
    moreover have "length (dropWhile (\<lambda>c. c \<noteq> CHR ''.'') s) \<le> length s" by (rule length_dropWhile_le)
    ultimately have "length (tl (dropWhile (\<lambda>c. c \<noteq> CHR ''.'') s)) < length s"
      by (cases s) (auto simp: le_imp_less_Suc)
    then show ?thesis by simp
  qed
qed simp

declare path_loop.simps [simp del]

definition obj_path :: "'d obj \<Rightarrow> string \<Rightarrow> bool \<Rightarrow> 'd obj result" where
  "obj_path ob key throwNotFound = path_loop ob throwNotFound key"

section \<open>Growing\<close>

definition obj_push :: "'d obj \<Rightarrow> 'd json \<Rightarrow> 'd obj result" where
  "obj_push ob v = (case ob of Some (JArray vs) \<Rightarrow> Inr (Some (JArray (vs @ [v]))) | _ \<Rightarrow> Inl UnsupportedOperation)"

definition obj_set :: "'d obj \<Rightarrow> string \<Rightarrow> 'd json \<Rightarrow> 'd obj result" where
  "obj_set ob key v = (case ob of Some (JObject ms) \<Rightarrow> Inr (Some (JObject (ms @ [(key, v)]))) | _ \<Rightarrow> Inl UnsupportedOperation)"

section \<open>Comparison\<close>

text \<open>The iterators of an array are its nodes still to come; \<open>end()\<close> has none. \<open>eqn\<close> compares two
  numbers. The loop over two arrays starts the second iterator at \<open>other.end()\<close>.\<close>

fun array_eq_loop :: "('d json \<Rightarrow> 'd json \<Rightarrow> bool) \<Rightarrow> 'd json list \<Rightarrow> 'd json list \<Rightarrow> bool" where
  "array_eq_loop eq [] bi \<longleftrightarrow> bi = []"
| "array_eq_loop eq (a # ai) bi \<longleftrightarrow>
     (case bi of [] \<Rightarrow> False | b # bs \<Rightarrow> if \<not> eq a b then False else array_eq_loop eq ai bs)"

definition iter_end :: "'d json \<Rightarrow> 'd json list" where
  "iter_end v = []"

lemma array_eq_loop_cong [fundef_cong]:
  "xs = ys \<Longrightarrow> bs = cs \<Longrightarrow> (\<And>x b. x \<in> set ys \<Longrightarrow> eq x b = eq' x b) \<Longrightarrow> array_eq_loop eq xs bs = array_eq_loop eq' ys cs"
  by (induction eq xs bs arbitrary: ys cs rule: array_eq_loop.induct) (auto split: list.splits if_splits)

fun json_eq :: "('d \<Rightarrow> 'd \<Rightarrow> bool) \<Rightarrow> 'd json \<Rightarrow> 'd json \<Rightarrow> bool" where
  "json_eq eqn v other =
     (if tag_of other \<noteq> tag_of v then False
      else if obj_empty (Some other) \<and> obj_empty (Some v) then True
      else case v of
        JNumber d \<Rightarrow> (case other of JNumber e \<Rightarrow> eqn e d | _ \<Rightarrow> False)
      | JBool b \<Rightarrow> (case other of JBool c \<Rightarrow> c = b | _ \<Rightarrow> False)
      | JString s \<Rightarrow> (case other of JString t \<Rightarrow> t = s | _ \<Rightarrow> False)
      | JArray vs \<Rightarrow> array_eq_loop (\<lambda>a b. json_eq eqn a b) vs (iter_end other)
      | JObject ms \<Rightarrow>
          list_all (\<lambda>(key, ob). case find_member (Some other) key of
              None \<Rightarrow> False
            | Some tmp \<Rightarrow> if is_null (Some tmp) then False else json_eq eqn ob tmp) ms
      | JNull \<Rightarrow> False)"

definition obj_eq :: "('d \<Rightarrow> 'd \<Rightarrow> bool) \<Rightarrow> 'd obj \<Rightarrow> 'd obj \<Rightarrow> bool" where
  "obj_eq eqn self other \<longleftrightarrow>
     (case (self, other) of
        (Some v, Some w) \<Rightarrow> json_eq eqn v w
      | _ \<Rightarrow> obj_type other = obj_type self)"

section \<open>Lookups as maps\<close>

lemma strncmp_eq_same: "length a = length b \<Longrightarrow> NUL \<notin> set b \<Longrightarrow> strncmp_eq a b (length b) \<longleftrightarrow> a = b"
  using strncmp_eq_prefix [of b a] by auto

lemma find_member_map_of: "NUL \<notin> set key \<Longrightarrow> find_member_loop key ms = map_of ms key"
  by (induction ms) (auto simp: strncmp_eq_same)

lemma find_element_nth:
  "find_element_loop index i vs = (if i \<le> index \<and> index < i + int (length vs) then Some (vs ! nat (index - i)) else None)"
proof (induction vs arbitrary: i)
  case (Cons v vs)
  have "nat (index - i) = Suc (nat (index - (i + 1)))" if "i < index" using that by simp
  then show ?case using Cons [of "i + 1"] by auto
qed simp

text \<open>The reference for paths: one member after another.\<close>

fun dig :: "'d json \<Rightarrow> string list \<Rightarrow> 'd obj" where
  "dig v [] = Some v"
| "dig v (k # ks) =
     (case v of
        JObject ms \<Rightarrow> (case map_of ms k of None \<Rightarrow> None | Some w \<Rightarrow> dig w ks)
      | _ \<Rightarrow> None)"

fun dotted :: "string \<Rightarrow> string list \<Rightarrow> string" where
  "dotted k [] = k"
| "dotted k (k' # ks) = k @ ''.'' @ dotted k' ks"

definition key_ok :: "string \<Rightarrow> bool" where
  "key_ok k \<longleftrightarrow> NUL \<notin> set k \<and> CHR ''.'' \<notin> set k"

lemma obj_get_object: "key_ok k \<Longrightarrow> obj_get (Some (JObject ms)) k t = Inr (map_of ms k)"
  by (simp add: obj_get_def is_object_def find_member_def find_member_map_of key_ok_def)

lemma obj_get_other: "\<not> is_object (Some v) \<Longrightarrow> obj_get (Some v) k t = (if t then Inl UnsupportedOperation else Inr no_object)"
  by (simp add: obj_get_def)

lemma is_object_cases: "is_object (Some v) \<longleftrightarrow> (\<exists>ms. v = JObject ms)"
  by (cases v) (simp_all add: is_object_def)

lemma no_object_null [simp]: "is_null no_object"
  by (simp add: no_object_def is_null_def)

lemma dig_other: "\<not> is_object (Some v) \<Longrightarrow> dig v (k # ks) = None"
  by (cases v) (simp_all add: is_object_def)

lemma path_split:
  assumes "key_ok k"
  shows "takeWhile (\<lambda>c. c \<noteq> CHR ''.'') (k @ CHR ''.'' # s) = k"
    and "dropWhile (\<lambda>c. c \<noteq> CHR ''.'') (k @ CHR ''.'' # s) = CHR ''.'' # s"
  using assms by (induction k) (auto simp: key_ok_def)

lemma path_loop_dig:
  "list_all key_ok (k # ks) \<Longrightarrow> last (k # ks) \<noteq> ''*'' \<Longrightarrow>
   (case dig v (k # ks) of
      Some w \<Rightarrow> path_loop (Some v) t (dotted k ks) = Inr (Some w)
    | None \<Rightarrow> (\<exists>r. path_loop (Some v) t (dotted k ks) = Inr r \<and> is_null r) \<or>
        t \<and> path_loop (Some v) t (dotted k ks) = Inl UnsupportedOperation)"
proof (induction ks arbitrary: k v)
  case Nil
  then have "path_loop (Some v) t k = obj_get (Some v) k t"
    by (subst path_loop.simps) (simp add: key_ok_def)
  moreover have "is_null None" by (simp add: is_null_def)
  ultimately show ?case using Nil
    by (cases "is_object (Some v)")
      (auto simp: is_object_cases dig_other obj_get_object obj_get_other simp del: dig.simps(2) split: option.splits,
       auto split: option.splits)
next
  case (Cons k' ks)
  have k: "key_ok k" and rest: "list_all key_ok (k' # ks)" "last (k' # ks) \<noteq> ''*''" using Cons.prems by auto
  have step: "path_loop (Some v) t (dotted k (k' # ks)) =
      rbind (obj_get (Some v) k t) (\<lambda>sub. if obj_empty sub \<or> \<not> is_object sub
        then (if t then Inl UnsupportedOperation else Inr no_object) else path_loop sub t (dotted k' ks))"
    by (subst path_loop.simps) (simp add: path_split [OF k] cong: if_cong)
  show ?case
  proof (cases "is_object (Some v)")
    case False
    then have "path_loop (Some v) t (dotted k (k' # ks)) = (if t then Inl UnsupportedOperation else Inr no_object)"
      unfolding step obj_get_other [OF False] by (simp add: no_object_def obj_empty_def)
    then show ?thesis using dig_other [OF False, of k "k' # ks"] by simp
  next
    case True
    then obtain ms where v: "v = JObject ms" by (auto simp: is_object_cases)
    show ?thesis
    proof (cases "map_of ms k")
      case None
      then show ?thesis using step v k by (simp add: obj_get_object obj_empty_def)
    next
      case (Some w)
      have eq: "path_loop (Some v) t (dotted k (k' # ks)) = (if obj_empty (Some w) \<or> \<not> is_object (Some w)
        then (if t then Inl UnsupportedOperation else Inr no_object) else path_loop (Some w) t (dotted k' ks))"
        using step v k Some by (simp add: obj_get_object)
      have dig: "dig v (k # k' # ks) = dig w (k' # ks)" by (simp add: v Some)
      show ?thesis
      proof (cases "obj_empty (Some w) \<or> \<not> is_object (Some w)")
        case True
        then have "dig w (k' # ks) = None" by (cases w) (auto simp: obj_empty_def is_object_def)
        then show ?thesis unfolding dig eq using True by simp
      next
        case False
        then have "path_loop (Some v) t (dotted k (k' # ks)) = path_loop (Some w) t (dotted k' ks)" using eq by simp
        then show ?thesis unfolding dig using Cons.IH [OF rest, of w] by (simp only:)
      qed
    qed
  qed
qed

section \<open>Properties\<close>

text \<open>C20: lookup by key and by index, and what growing does to it: a member lookup is the map of
  the members where the first member of a key wins; so a key that is set is found afterwards only if
  it was not there before (\<open>set\<close> never replaces), every other key is untouched; and an index finds
  the element of that position, negative and past-the-end indices giving none or raising as
  asked.\<close>

theorem object_lookup_spec:
  assumes "key_ok key" "key_ok key'"
  shows "obj_get (Some (JObject ms)) key t = Inr (map_of ms key) \<and>
    (\<exists>o'. obj_set (Some (JObject ms)) key' v = Inr o' \<and>
       obj_get o' key t = Inr (if key = key' \<and> map_of ms key = None then Some v else map_of ms key)) \<and>
    (\<exists>o'. obj_push (Some (JArray vs)) v = Inr o' \<and>
       obj_at o' i t = (if 0 \<le> i \<and> i < int (length vs) then Inr (Some (vs ! nat i))
          else if i = int (length vs) then Inr (Some v)
          else if t then Inl IndexOutOfBounds else Inr None))"
proof (intro conjI)
  show "obj_get (Some (JObject ms)) key t = Inr (map_of ms key)" using assms by (simp add: obj_get_object)
  show "\<exists>o'. obj_set (Some (JObject ms)) key' v = Inr o' \<and>
       obj_get o' key t = Inr (if key = key' \<and> map_of ms key = None then Some v else map_of ms key)"
    using assms by (auto simp: obj_set_def obj_get_object map_add_def split: option.splits)
  show "\<exists>o'. obj_push (Some (JArray vs)) v = Inr o' \<and>
       obj_at o' i t = (if 0 \<le> i \<and> i < int (length vs) then Inr (Some (vs ! nat i))
          else if i = int (length vs) then Inr (Some v)
          else if t then Inl IndexOutOfBounds else Inr None)"
    by (auto simp: obj_push_def obj_at_def is_array_def find_element_def find_element_nth nth_append)
qed

lemma object_lookup_spec_witness:
  "obj_get (Some (JObject [(''a'', JNull), (''b'', JBool True)])) ''b'' True = Inr (Some (JBool True :: unit json))"
proof -
  have "key_ok ''b''" by code_simp
  then show ?thesis using object_lookup_spec [of "''b''" "''b''" "[(''a'', JNull), (''b'', JBool True)]" True "JNull :: unit json" "[]" 0]
    by simp
qed

text \<open>C21: lookup by a dotted path is lookup of one member after another: where every step finds a
  member the result is the last one; where a step fails the result is null, or the raised error if
  raising was asked for. The keys hold no dot and the last is not the wildcard.\<close>

theorem object_path_spec:
  assumes "list_all key_ok (k # ks)" "last (k # ks) \<noteq> ''*''"
  shows "case dig v (k # ks) of
      Some w \<Rightarrow> obj_path (Some v) (dotted k ks) t = Inr (Some w)
    | None \<Rightarrow> (\<exists>r. obj_path (Some v) (dotted k ks) t = Inr r \<and> is_null r) \<or>
        t \<and> obj_path (Some v) (dotted k ks) t = Inl UnsupportedOperation"
  unfolding obj_path_def by (rule path_loop_dig [OF assms])

lemma object_path_spec_witness:
  "obj_path (Some (JObject [(''a'', JObject [(''b'', JBool True)])])) ''a.b'' True = Inr (Some (JBool True :: unit json))"
proof -
  have "list_all key_ok [''a'', ''b'']" by code_simp
  then show ?thesis
    using object_path_spec [of "''a''" "[''b'']" "JObject [(''a'', JObject [(''b'', JBool True :: unit json)])]" True] by simp
qed

text \<open>The values the comparison finds equal to themselves.\<close>

fun self_equal :: "'d json \<Rightarrow> bool" where
  "self_equal (JArray vs) \<longleftrightarrow> vs = []"
| "self_equal (JObject ms) \<longleftrightarrow> list_all (\<lambda>(k, v). v \<noteq> JNull \<and> self_equal v) ms"
| "self_equal v \<longleftrightarrow> True"

fun distinct_keys :: "'d json \<Rightarrow> bool" where
  "distinct_keys (JArray vs) \<longleftrightarrow> list_all distinct_keys vs"
| "distinct_keys (JObject ms) \<longleftrightarrow> distinct (map fst ms) \<and> list_all (\<lambda>(k, v). NUL \<notin> set k \<and> distinct_keys v) ms"
| "distinct_keys v \<longleftrightarrow> True"

lemma is_null_iff: "is_null (Some v) \<longleftrightarrow> v = JNull"
  by (cases v) (simp_all add: is_null_def)

lemma json_eq_self: "distinct_keys v \<Longrightarrow> json_eq (=) v v \<longleftrightarrow> self_equal v"
proof (induction v)
  case (JArray vs)
  then show ?case by (cases vs) (simp_all add: obj_empty_def iter_end_def)
next
  case (JObject ms)
  have "json_eq (=) (JObject ms) (JObject ms) \<longleftrightarrow> list_all (\<lambda>(k, v). v \<noteq> JNull \<and> json_eq (=) v v) ms"
    using JObject.prems
    by (auto simp: obj_empty_def list_all_iff find_member_def find_member_map_of is_null_iff simp del: json_eq.simps
        simp: json_eq.simps [of _ "JObject ms"] split_def)
  moreover have "json_eq (=) w w \<longleftrightarrow> self_equal w" if "(k, w) \<in> set ms" for k w
    by (rule JObject.IH [OF that]) (use JObject.prems that in \<open>auto simp: list_all_iff\<close>)
  ultimately show ?case by (auto simp: list_all_iff simp del: json_eq.simps)
qed (simp_all add: obj_empty_def)

text \<open>What \<open>operator==\<close> does compare. A value is equal to itself only when it holds no
  nonempty array and no null member (the loop over arrays starts the second iterator at the end, and
  a null member counts as missing); and the empty array is equal to every array, an object is equal
  to every object that extends it.\<close>

theorem object_equality_spec:
  assumes "distinct_keys v"
  shows "(obj_eq (=) (Some v) (Some v) \<longleftrightarrow> self_equal v) \<and>
    obj_eq (=) (Some (JArray [])) (Some (JArray vs)) \<and>
    obj_eq (=) (Some (JObject [])) (Some (JObject ms))"
  using json_eq_self [OF assms] by (simp add: obj_eq_def obj_empty_def iter_end_def del: json_eq.simps) (simp add: obj_empty_def iter_end_def)

lemma object_equality_spec_witness:
  "\<not> obj_eq (=) (Some (JArray [JBool True])) (Some (JArray [JBool True :: unit json]))"
proof -
  have "distinct_keys (JArray [JBool True :: unit json])" "\<not> self_equal (JArray [JBool True :: unit json])" by simp_all
  then show ?thesis using object_equality_spec by blast
qed

end
