(* ===== verification/Smtp_Session.thy ===== *)
theory Smtp_Session
  imports Str Utf8
begin

text \<open>
  The data of the SMTP server of \<open>libs/network\<close>: sessions (\<open>session.hpp\<close>, \<open>session.cpp\<close>), responses
  (\<open>response.hpp\<close>), commands and their parser (\<open>protocol.cpp\<close>), and the string helpers of
  \<open>utils.cpp\<close> and \<open>common.hpp\<close>. Strings that are parsed are \<open>str\<close> values of theory \<open>Str\<close>; what a session
  keeps are copies, so the model keeps their text.
\<close>

section \<open>Data\<close>

datatype state =
    ExpectHello | ExpectAuth | AuthExpectUsername | AuthExpectPassword
  | ExpectMail | ExpectRecipient | ExpectData | Quit

datatype auth_mechanism =
    Plain | Login | DigestMD5 | MD5 | CramMD5 | PlainToken | OAuthBearer | UnknownAuth

datatype command =
    Unrecognized | Hello | EHello | MailFrom | RcptTo | Data | Noop | Help | Verify | Expn
  | QuitCmd | Auth | ATrn | BData | ETrn | StartTls | Reset

record session =
  sid :: string
  s_state :: state
  s_from :: string
  recipients :: "string list"
  expected_size :: int
  rxd :: string
  s_term :: string
  arg0 :: string
  mechanism :: auth_mechanism

definition new_session :: "string \<Rightarrow> session" where
  "new_session ident =
     \<lparr>sid = ident, s_state = ExpectHello, s_from = [], recipients = [], expected_size = 0,
      rxd = [], s_term = [], arg0 = [], mechanism = Plain\<rparr>"

definition session_reset :: "state \<Rightarrow> session \<Rightarrow> session" where
  "session_reset st s = s\<lparr>s_from := [], recipients := [], s_state := st\<rparr>"

definition next_state :: "state \<Rightarrow> session \<Rightarrow> session" where
  "next_state st s = s\<lparr>s_state := st\<rparr>"

definition set_auth :: "auth_mechanism \<Rightarrow> str \<Rightarrow> session \<Rightarrow> session" where
  "set_auth m a s = s\<lparr>mechanism := m, arg0 := text_of a\<rparr>"

section \<open>Responses\<close>

record response =
  r_code :: int
  r_lines :: "string list"
  r_abort :: bool

definition create :: "int \<Rightarrow> string list \<Rightarrow> response" where
  "create c ls = \<lparr>r_code = c, r_lines = ls, r_abort = False\<rparr>"

definition abort :: "int \<Rightarrow> string list \<Rightarrow> response" where
  "abort c ls = (create c ls)\<lparr>r_abort := True\<rparr>"

definition push :: "string \<Rightarrow> response \<Rightarrow> response" where
  "push l r = r\<lparr>r_lines := r_lines r @ [l]\<rparr>"

section \<open>Helpers on strings\<close>

text \<open>\<open>npos\<close> is the largest \<open>size_t\<close>; positions are compared and incremented as such.\<close>

definition npos :: nat where
  "npos = 2 ^ 64 - 1"

definition pos_of :: "nat option \<Rightarrow> nat" where
  "pos_of p = (case p of None \<Rightarrow> npos | Some i \<Rightarrow> i)"

definition inc64 :: "nat \<Rightarrow> nat" where
  "inc64 n = (n + 1) mod 2 ^ 64"

text \<open>\<open>while ((it < s.size()) and p(s[it])) it++\<close>. The index is an \<open>int\<close> in the code: this is the loop for
  texts shorter than \<open>2 ^ 31\<close> characters, and the properties of \<open>eat\<close> and \<open>capture\<close> are about those.\<close>

function scan :: "(char \<Rightarrow> bool) \<Rightarrow> str \<Rightarrow> nat \<Rightarrow> nat" where
  "scan p s it = (if it < m_len s \<and> p (mem s ! it) then scan p s (it + 1) else it)"
  by auto
termination by (relation "measure (\<lambda>(p, s, it). m_len s - it)") auto

declare scan.simps [simp del]

definition capture :: "str \<Rightarrow> nat \<Rightarrow> (char \<Rightarrow> bool) \<Rightarrow> str" where
  "capture s idx until =
     (let it = scan (\<lambda>c. \<not> until c) s idx in
      if it = idx then null_str
      else if it < m_len s then substr s idx (it - idx) True else null_str)"

definition eat :: "str \<Rightarrow> nat \<Rightarrow> (char \<Rightarrow> bool) \<Rightarrow> str" where
  "eat s idx when = substr s (scan when s idx) 0 True"

definition compare_igc :: "str \<Rightarrow> string \<Rightarrow> bool" where
  "compare_igc s t \<longleftrightarrow> length t = m_len s \<and> strncasecmp_eq (mem s) t (m_len s)"

section \<open>Command codes\<close>

text \<open>Four characters as one \<open>int\<close>: \<open>char\<close> is signed, so each is sign-extended before the shift.\<close>

definition int_of_char :: "char \<Rightarrow> 32 word" where
  "int_of_char c = scast (byte_of_char c)"

definition code4 :: "char \<Rightarrow> char \<Rightarrow> char \<Rightarrow> char \<Rightarrow> 32 word" where
  "code4 a b c d =
     push_bit 24 (int_of_char a) OR push_bit 16 (int_of_char b) OR push_bit 8 (int_of_char c) OR int_of_char d"

definition code :: "string \<Rightarrow> 32 word" where
  "code p = code4 (p ! 0) (p ! 1) (p ! 2) (p ! 3)"

definition code_r :: "string \<Rightarrow> bool \<Rightarrow> 32 word" where
  "code_r p caps =
     (if caps then code4 (to_upper (p ! 0)) (to_upper (p ! 1)) (to_upper (p ! 2)) (p ! 3)
      else code4 (p ! 0) (p ! 1) (p ! 2) (p ! 3))"

definition parse_auth_mechanism :: "str \<Rightarrow> auth_mechanism result" where
  "parse_auth_mechanism s =
     rbind (char_at s 0) (\<lambda>a. rbind (char_at s 1) (\<lambda>b. rbind (char_at s 2) (\<lambda>c. rbind (char_at s 3) (\<lambda>d.
       let m = code4 (to_upper a) (to_upper b) (to_upper c) (to_upper d) in
       Inr (if m = code ''LOGI'' then (if compare_igc s ''LOGIN'' then Login else UnknownAuth)
            else if m = code ''PLAI'' then (if compare_igc s ''PLAIN'' then Plain else UnknownAuth)
            else UnknownAuth)))))"

section \<open>The command line\<close>

definition get_argument :: "str \<Rightarrow> nat \<Rightarrow> str" where
  "get_argument line offset = (if offset < m_len line then substr line offset (m_len line - offset) True else null_str)"

text \<open>\<open>tmp\<close> is a view of the first four characters, so that making it upper-case changes the line.
  \<open>strncasecmp(&line[at], word, n) != 0\<close> is the negation of \<open>word_at\<close>.\<close>

definition word_at :: "str \<Rightarrow> nat \<Rightarrow> string \<Rightarrow> bool" where
  "word_at line at w \<longleftrightarrow> strncasecmp_eq (drop at (mem line)) w (length w)"

definition parse_line :: "32 word \<Rightarrow> str \<Rightarrow> command \<times> str" where
  "parse_line c0 line =
     (if c0 = code ''HELO'' then (Hello, get_argument line 5)
      else if c0 = code ''EHLO'' then (EHello, get_argument line 5)
      else if c0 = code ''DATA'' then (Data, null_str)
      else if c0 = code ''RCPT'' then
        (if m_len line < 7 \<or> \<not> word_at line 4 '' TO'' then (Unrecognized, null_str)
         else (RcptTo, get_argument line 7))
      else if c0 = code ''MAIL'' then
        (if m_len line < 9 \<or> \<not> word_at line 4 '' FROM'' then (Unrecognized, null_str)
         else (MailFrom, get_argument line 9))
      else if c0 = code ''NOOP'' then (Noop, null_str)
      else if c0 = code ''HELP'' then (Help, get_argument line 5)
      else if c0 = code ''VRFY'' then (Verify, get_argument line 5)
      else if c0 = code ''EXPN'' then (Expn, get_argument line 5)
      else if c0 = code ''RSET'' then (Reset, get_argument line 5)
      else if c0 = code ''QUIT'' then (QuitCmd, get_argument line 5)
      else if c0 = code ''STAR'' then
        (if m_len line < 8 \<or> \<not> word_at line 4 ''TTLS'' then (Unrecognized, null_str)
         else (StartTls, get_argument line 9))
      else if c0 = code ''AUTH'' then (Auth, get_argument line 5)
      else if c0 = code ''ATRN'' then (ATrn, get_argument line 5)
      else if c0 = code ''BDAT'' then (BData, get_argument line 5)
      else if c0 = code ''ETRN'' then (ETrn, get_argument line 5)
      else (Unrecognized, null_str))"

definition parse_command :: "str \<Rightarrow> command \<times> str" where
  "parse_command line0 =
     (if m_len line0 < 4 then (Unrecognized, null_str)
      else
        let tmp = toupper (substr line0 0 4 True);
            line = line0\<lparr>m_cstr := m_cstr tmp\<rparr>
        in parse_line (code_r (mem tmp) True) line)"

section \<open>The reply on the wire\<close>

definition CRLF :: string where
  "CRLF = [CHR 0x0D, CHR 0x0A]"

text \<open>\<open>snprintf(buf, 4, "%03d", code)\<close>, for a code of at most three digits.\<close>

definition digit_char :: "nat \<Rightarrow> char" where
  "digit_char d = char_of (48 + d)"

definition code_text :: "int \<Rightarrow> string" where
  "code_text c = (let n = nat c in [digit_char (n div 100 mod 10), digit_char (n div 10 mod 10), digit_char (n mod 10)])"

text \<open>The loop of \<open>sendResponse\<close> stops at the last line, which goes with a space; the vector of
  lines must not be empty (\<open>back()\<close>).\<close>

fun send_lines :: "string \<Rightarrow> string list \<Rightarrow> string result" where
  "send_lines buf [] = Inl OutOfBoundsRead"
| "send_lines buf [l] = Inr (buf @ '' '' @ l @ CRLF)"
| "send_lines buf (l # ls) = rbind (send_lines buf ls) (\<lambda>r. Inr (buf @ ''-'' @ l @ CRLF @ r))"

definition send_response :: "response \<Rightarrow> string result" where
  "send_response r = send_lines (code_text (r_code r)) (r_lines r)"

datatype proto_state = Abort | KeepAliveExceeded | ExpectCommand | ExpectLine | ReceiveData

fun proto_next :: "state \<Rightarrow> proto_state" where
  "proto_next ExpectHello = ExpectCommand"
| "proto_next ExpectAuth = ExpectCommand"
| "proto_next ExpectMail = ExpectCommand"
| "proto_next ExpectRecipient = ExpectCommand"
| "proto_next AuthExpectUsername = ExpectLine"
| "proto_next AuthExpectPassword = ExpectLine"
| "proto_next ExpectData = ReceiveData"
| "proto_next Quit = Abort"

section \<open>Termination of the message\<close>

definition is_termination :: "session \<Rightarrow> string \<Rightarrow> session \<times> bool" where
  "is_termination s data =
     (let pick = min (length data) 5;
          kept = drop (min (length (s_term s)) pick) (s_term s);
          term' = kept @ drop (length data - pick) data
      in (s\<lparr>s_term := term'\<rparr>,
          if length term' < 5 then False else take 5 term' = CRLF @ ''.'' @ CRLF))"

section \<open>Codes are equal when the characters are\<close>

lemma bit_int_of_char: "bit (int_of_char c) n \<longleftrightarrow> n < 32 \<and> bit (ord c) (min n 7)"
  by (auto simp: int_of_char_def byte_of_char_def bit_signed_iff bit_of_nat_iff min.commute)

lemma bit7: "bit (ord c) 7 \<longleftrightarrow> 128 \<le> ord c"
proof -
  have "ord c div 128 < 2" by (rule less_mult_imp_div_less) (simp add: ord_less_256 [of c, simplified])
  moreover have "ord c div 128 = 0 \<longleftrightarrow> ord c < 128" by (simp add: div_eq_0_iff)
  ultimately have "odd (ord c div 128) \<longleftrightarrow> 128 \<le> ord c" by (cases "ord c div 128 = 0") (auto simp: less_2_cases_iff not_less)
  then show ?thesis by (simp add: bit_iff_odd)
qed

lemma code4_sign: "bit (code4 a b c d) 31 \<longleftrightarrow> 128 \<le> ord a \<or> 128 \<le> ord b \<or> 128 \<le> ord c \<or> 128 \<le> ord d"
  by (auto simp: code4_def bit_or_iff bit_push_bit_iff bit_int_of_char bit7)

lemma int_of_char_ascii: "ord c < 128 \<Longrightarrow> unat (int_of_char c) = ord c"
proof -
  assume c: "ord c < 128"
  have "int_of_char c = of_nat (ord c)"
  proof (rule bit_word_eqI)
    fix n assume "n < LENGTH(32)"
    moreover have "take_bit 7 (ord c) = ord c" using c by (simp add: take_bit_nat_eq_self_iff)
    then have "bit (ord c) n \<Longrightarrow> n < 7" by (metis bit_take_bit_iff)
    ultimately show "bit (int_of_char c) n \<longleftrightarrow> bit (of_nat (ord c) :: 32 word) n"
      using c bit7 [of c] by (cases "n < 7") (auto simp: bit_int_of_char bit_of_nat_iff)
  qed
  then show ?thesis using c by (simp add: unat_of_nat take_bit_nat_eq_self_iff)
qed

lemma code4_ascii:
  assumes "ord a < 128" "ord b < 128" "ord c < 128" "ord d < 128"
  shows "unat (code4 a b c d) = ((ord a * 256 + ord b) * 256 + ord c) * 256 + ord d"
proof -
  have "unat (code4 a b c d) = push_bit 24 (ord a) OR (push_bit 16 (ord b) OR (push_bit 8 (ord c) OR ord d))"
  proof -
    have t: "take_bit 32 (push_bit k (ord x)) = push_bit k (ord x)" if "k \<le> 24" "ord x < 128" for k x
    proof -
      have "ord x * 2 ^ k < 128 * 2 ^ 24" using that power_increasing [of k 24 "2 :: nat"] by (intro mult_less_le_imp_less) simp_all
      then show ?thesis by (simp add: take_bit_nat_eq_self_iff push_bit_eq_mult)
    qed
    show ?thesis unfolding code4_def unsigned_or_eq unsigned_push_bit_eq
      using assms by (simp only: int_of_char_ascii t len_num1 len_bit0 len_num0 or.assoc) (simp add: t [simplified])
  qed
  also have "\<dots> = ((ord a * 256 + ord b) * 256 + ord c) * 256 + ord d"
    using assms or_push [of "ord d" 8 "ord c"] or_push [of "256 * ord c + ord d" 16 "ord b"]
      or_push [of "65536 * ord b + (256 * ord c + ord d)" 24 "ord a"] by simp
  finally show ?thesis .
qed

lemma digits256: "x * 256 + d = y * 256 + e \<Longrightarrow> d < 256 \<Longrightarrow> e < 256 \<Longrightarrow> x = y \<and> d = (e :: nat)"
proof -
  assume eq: "x * 256 + d = y * 256 + e" and less: "d < 256" "e < 256"
  have "(x * 256 + d) div 256 = x" "(y * 256 + e) div 256 = y" using less by simp_all
  then show ?thesis using eq by simp
qed

lemma code4_eq:
  assumes "ord a' < 128" "ord b' < 128" "ord c' < 128" "ord d' < 128"
  shows "code4 a b c d = code4 a' b' c' d' \<longleftrightarrow> a = a' \<and> b = b' \<and> c = c' \<and> d = d'"
proof
  assume eq: "code4 a b c d = code4 a' b' c' d'"
  then have "\<not> bit (code4 a b c d) 31" using assms code4_sign [of a' b' c' d'] by auto
  then have l: "ord a < 128" "ord b < 128" "ord c < 128" "ord d < 128" using code4_sign by (auto simp: not_le)
  have "((ord a * 256 + ord b) * 256 + ord c) * 256 + ord d = ((ord a' * 256 + ord b') * 256 + ord c') * 256 + ord d'"
    using code4_ascii [OF l] code4_ascii [OF assms] eq by simp
  then have "ord a * 256 + ord b = ord a' * 256 + ord b' \<and> ord c = ord c' \<and> ord d = ord d'"
    using digits256 [OF _ ord_less_256 ord_less_256] by blast
  then have "ord a = ord a' \<and> ord b = ord b' \<and> ord c = ord c' \<and> ord d = ord d'"
    using digits256 [OF _ ord_less_256 ord_less_256] by blast
  then show "a = a' \<and> b = b' \<and> c = c' \<and> d = d'" using ord_inj by blast
qed simp

lemma code_eq_string:
  assumes "length w = 4" "list_all (\<lambda>c. ord c < 128) w"
  shows "code4 a b c d = code w \<longleftrightarrow> [a, b, c, d] = w"
proof -
  obtain a' b' c' d' where w: "w = [a', b', c', d']" using assms(1) by (auto simp: length_Suc_conv numeral_eq_Suc)
  then show ?thesis using code4_eq [of a' b' c' d' a b c d] assms(2) by (simp add: code_def)
qed

section \<open>Strings received\<close>

definition view :: "string \<Rightarrow> str" where
  "view t = of_view (Some t) (length t) False"

lemma view_simps [simp]:
  "mem (view t) = t" "m_cstr (view t) = Some t" "length t < 2 ^ 32 \<Longrightarrow> m_len (view t) = length t"
  "m_own (view t) = False"
  by (simp_all add: view_def of_view_def mem_def)

lemma view_whole: "length t < 2 ^ 32 \<Longrightarrow> str_ok (view t) \<and> text_of (view t) = t"
  by (simp add: str_ok_def text_of_def)

text \<open>What is dropped beyond the end is the null string.\<close>

definition view0 :: "string \<Rightarrow> str" where
  "view0 t = (if t = [] then null_str else view t)"

lemma view0_simps [simp]:
  "mem (view0 t) = t" "length t < 2 ^ 32 \<Longrightarrow> m_len (view0 t) = length t"
  "length t < 2 ^ 32 \<Longrightarrow> text_of (view0 t) = t" "length t < 2 ^ 32 \<Longrightarrow> str_empty (view0 t) \<longleftrightarrow> t = []"
  by (auto simp: view0_def null_str_def text_of_def mem_def str_empty_def)

lemma substr_view:
  assumes "length t < 2 ^ 32" "k \<le> length t"
  shows "substr (view t) k 0 True = view0 (drop k t)"
proof (cases "k < length t")
  case True
  then show ?thesis using substr_rest [of "view t" k] assms view_whole [of t]
    by (simp add: view0_def view_def)
next
  case False
  then show ?thesis using assms sub64_le [of k "length t"]
    by (simp add: substr_def view0_def Let_def)
qed

lemma substr_view_n:
  assumes "length t < 2 ^ 32" "0 < n" "k + n \<le> length t"
  shows "text_of (substr (view t) k n True) = take n (drop k t)" "m_len (substr (view t) k n True) = n"
    "mem (substr (view t) k n True) = drop k t" "str_empty (substr (view t) k n True) = False"
  using substr_in [of "view t" n k] assms view_whole [of t]
  by (simp_all add: text_of_def of_view_def mem_def str_empty_def)

section \<open>The table of commands\<close>

text \<open>The reference: the verb, the command, the word that must follow, where the argument starts.\<close>

definition verbs :: "(string \<times> command \<times> string \<times> nat option) list" where
  "verbs =
     [(''HELO'', Hello, [], Some 5), (''EHLO'', EHello, [], Some 5), (''DATA'', Data, [], None),
      (''RCPT'', RcptTo, '' TO'', Some 7), (''MAIL'', MailFrom, '' FROM'', Some 9), (''NOOP'', Noop, [], None),
      (''HELP'', Help, [], Some 5), (''VRFY'', Verify, [], Some 5), (''EXPN'', Expn, [], Some 5),
      (''RSET'', Reset, [], Some 5), (''QUIT'', QuitCmd, [], Some 5), (''STAR'', StartTls, ''TTLS'', Some 9),
      (''AUTH'', Auth, [], Some 5), (''ATRN'', ATrn, [], Some 5), (''BDAT'', BData, [], Some 5),
      (''ETRN'', ETrn, [], Some 5)]"

definition command_of :: "string \<Rightarrow> command \<times> string" where
  "command_of t =
     (case List.find (\<lambda>(v, c, w, k). map to_upper (take 4 t) = v \<and> map to_upper (take (length w) (drop 4 t)) = w) verbs of
        None \<Rightarrow> (Unrecognized, [])
      | Some (v, c, w, k) \<Rightarrow> (c, case k of None \<Rightarrow> [] | Some n \<Rightarrow> drop n t))"

lemma to_lower_eq_iff: "to_lower c = to_lower d \<longleftrightarrow> to_upper c = to_upper d"
proof
  show "to_lower c = to_lower d \<Longrightarrow> to_upper c = to_upper d" by (metis to_upper_to_lower)
  show "to_upper c = to_upper d \<Longrightarrow> to_lower c = to_lower d"
  proof (rule ord_inj)
    have nat: "(if 97 \<le> x \<and> x \<le> 122 then x - 32 else x) = (if 97 \<le> y \<and> y \<le> 122 then y - 32 else y) \<Longrightarrow>
        (if 65 \<le> x \<and> x \<le> 90 then x + 32 else x) = (if 65 \<le> y \<and> y \<le> 90 then y + 32 else (y :: nat))" for x y
      by (auto split: if_splits)
    assume "to_upper c = to_upper d"
    then have "ord (to_upper c) = ord (to_upper d)" by simp
    then show "ord (to_lower c) = ord (to_lower d)"
      unfolding ord_to_upper ord_to_lower is_lower_def is_upper_def by (rule nat)
  qed
qed

lemma strncasecmp_upper:
  "NUL \<notin> set w \<Longrightarrow> map to_upper w = w \<Longrightarrow>
   strncasecmp_eq t w (length w) \<longleftrightarrow> map to_upper (take (length w) t) = w"
proof (induction w arbitrary: t)
  case (Cons c w)
  have nul: "to_upper NUL = NUL" "to_upper c = NUL \<longleftrightarrow> c = NUL"
    using ord_to_upper [of NUL] ord_to_upper [of c] ord_inj [of c NUL] by (auto simp: is_lower_def to_upper_def)
  show ?case
  proof (cases t)
    case Nil
    then show ?thesis using Cons.prems nul by (auto simp: to_lower_eq_iff)
  next
    case (Cons x t')
    then show ?thesis using Cons.IH [of t'] Cons.prems nul by (auto simp: to_lower_eq_iff)
  qed
qed simp

lemma get_argument_text:
  assumes "length t < 2 ^ 32"
  shows "text_of (get_argument (view t) k) = drop k t"
  using assms substr_view_n(1) [of t "length t - k" k]
  by (auto simp: get_argument_def null_str_def text_of_def mem_def)

lemma upper_line:
  assumes "length t < 2 ^ 32" "4 \<le> length t"
  shows "mem (toupper (substr (view t) 0 4 True)) = map to_upper (take 4 t) @ drop 4 t"
    "(view t)\<lparr>m_cstr := m_cstr (toupper (substr (view t) 0 4 True))\<rparr> = view (map to_upper (take 4 t) @ drop 4 t)"
proof -
  have "substr (view t) 0 4 True = of_view (Some t) 4 False"
    using substr_in [of "view t" 4 0] assms view_whole [of t] by simp
  then have "m_cstr (toupper (substr (view t) 0 4 True)) = Some (map to_upper (take 4 t) @ drop 4 t)"
    by (simp add: toupper_def map_prefix_def of_view_def)
  then show "mem (toupper (substr (view t) 0 4 True)) = map to_upper (take 4 t) @ drop 4 t"
    "(view t)\<lparr>m_cstr := m_cstr (toupper (substr (view t) 0 4 True))\<rparr> = view (map to_upper (take 4 t) @ drop 4 t)"
    using assms by (simp_all add: mem_def view_def of_view_def)
qed

lemma code_r_upper:
  assumes "4 \<le> length t" "length w = 4" "list_all (\<lambda>c. ord c < 128) w"
  shows "code_r (map to_upper (take 4 t) @ r) True = code w \<longleftrightarrow> map to_upper (take 4 t) = w"
proof -
  obtain a b c d t' where "t = a # b # c # d # t'" using assms(1) by (auto simp: length_Suc_conv numeral_eq_Suc Suc_le_length_iff)
  then show ?thesis using code_eq_string [OF assms(2,3)] by (simp add: code_r_def numeral_eq_Suc)
qed

lemma parse_command_table:
  assumes "length t < 2 ^ 32"
  shows "map_prod id text_of (parse_command (view t)) = command_of t"
proof (cases "length t < 4")
  case True
  then have "map to_upper (take 4 t) \<noteq> v" if "length v = 4" for v
    using that by (auto dest!: arg_cong [of _ _ length])
  then show ?thesis using True assms
    by (simp add: parse_command_def command_of_def verbs_def null_str_def text_of_def mem_def)
next
  case False
  let ?u = "map to_upper (take 4 t)" and ?t = "map to_upper (take 4 t) @ drop 4 t"
  have len: "4 \<le> length t" "length ?t = length t" "length ?t < 2 ^ 32" "length ?u = 4" using False assms by auto
  have arg: "text_of (get_argument (view ?t) k) = drop k t" if "4 \<le> k" for k
    using get_argument_text [OF len(3), of k] that len(4) by simp
  have word: "word_at (view ?t) 4 w \<longleftrightarrow> map to_upper (take (length w) (drop 4 t)) = w"
    if "NUL \<notin> set w" "map to_upper w = w" for w
    using strncasecmp_upper [OF that, of "drop 4 t"] len(4) by (simp add: word_at_def)
  have short: "map to_upper (take n (drop 4 t)) \<noteq> w" if "length t < 4 + n" "length w = n" "0 < n" for n w
    using that by (auto dest!: arg_cong [of _ _ length])
  define u c0 where "u = ?u" and "c0 = code_r (?u @ drop 4 t) True"
  have code: "c0 = code w \<longleftrightarrow> u = w" if "length w = 4" "list_all (\<lambda>c. ord c < 128) w" for w
    unfolding u_def c0_def by (rule code_r_upper [OF len(1) that])
  have parse: "parse_command (view t) = parse_line c0 (view ?t)"
    using False assms by (simp add: parse_command_def Let_def upper_line c0_def)
  have up: "map to_upper '' TO'' = '' TO''" "map to_upper '' FROM'' = '' FROM''" "map to_upper ''TTLS'' = ''TTLS''"
    by (simp_all add: to_upper_def is_lower_def)
  note words = word [OF _ up(1), simplified] word [OF _ up(2), simplified] word [OF _ up(3), simplified]
  note shorts = short [of 3 "'' TO''"] short [of 5 "'' FROM''"] short [of 4 "''TTLS''"]
  have find: "command_of t = (case List.find (\<lambda>(v, c, w, k). u = v \<and> map to_upper (take (length w) (drop 4 t)) = w) verbs of
        None \<Rightarrow> (Unrecognized, [])
      | Some (v, c, w, k) \<Rightarrow> (c, case k of None \<Rightarrow> [] | Some n \<Rightarrow> drop n t))"
    by (simp add: command_of_def u_def)
  have none: "text_of null_str = []" by (simp add: null_str_def text_of_def mem_def)
  show ?thesis
  proof (cases "u \<in> set (map fst verbs)")
    case False
    then show ?thesis unfolding parse find by (simp add: parse_line_def verbs_def code none)
  next
    case True
    have len7: "m_len (view ?t) = length t" using len(2,3) by simp
    note simps = parse find parse_line_def verbs_def code none
    from True have "u = ''HELO'' \<or> u = ''EHLO'' \<or> u = ''DATA'' \<or> u = ''RCPT'' \<or> u = ''MAIL'' \<or> u = ''NOOP''
      \<or> u = ''HELP'' \<or> u = ''VRFY'' \<or> u = ''EXPN'' \<or> u = ''RSET'' \<or> u = ''QUIT'' \<or> u = ''STAR''
      \<or> u = ''AUTH'' \<or> u = ''ATRN'' \<or> u = ''BDAT'' \<or> u = ''ETRN''"
      by (simp add: verbs_def)
    then show ?thesis
    proof (elim disjE)
      assume "u = ''HELO''" then show ?thesis by (simp add: simps arg)
    next
      assume "u = ''RCPT''" then show ?thesis using shorts(1) words(1) by (simp add: simps arg len7)
    next
      assume "u = ''MAIL''" then show ?thesis using shorts(2) words(2) by (simp add: simps arg len7)
    next
      assume "u = ''STAR''" then show ?thesis using shorts(3) words(3) by (simp add: simps arg len7)
    qed (simp_all add: simps arg)
  qed
qed

lemma get_argument_empty:
  assumes "length t < 2 ^ 32"
  shows "str_empty (get_argument (view t) k) \<longleftrightarrow> text_of (get_argument (view t) k) = []"
  using assms substr_view_n [of t "length t - k" k]
  by (auto simp: get_argument_def null_str_def text_of_def mem_def str_empty_def)

lemma snd_if: "snd a \<in> S \<Longrightarrow> snd b \<in> S \<Longrightarrow> snd (if P then a else b) \<in> S"
  by simp

lemma parse_line_arg: "snd (parse_line c line) \<in> insert null_str (range (get_argument line))"
  unfolding parse_line_def
  by (intro snd_if) (simp_all only: snd_conv insert_iff rangeI simp_thms)

lemma parse_command_arg:
  assumes "length t < 2 ^ 32"
  shows "str_empty (snd (parse_command (view t))) \<longleftrightarrow> text_of (snd (parse_command (view t))) = []"
proof -
  have null: "str_empty null_str" "text_of null_str = []"
    by (simp_all add: null_str_def str_empty_def text_of_def mem_def)
  show ?thesis
  proof (cases "length t < 4")
    case False
    let ?t = "map to_upper (take 4 t) @ drop 4 t"
    have "length ?t < 2 ^ 32" using assms False by simp
    then have "str_empty a \<longleftrightarrow> text_of a = []" if "a \<in> insert null_str (range (get_argument (view ?t)))" for a
      using that null get_argument_empty [of ?t] by auto
    then show ?thesis using False assms parse_line_arg [of _ "view ?t"]
      by (simp add: parse_command_def Let_def upper_line)
  qed (use assms null in \<open>simp add: parse_command_def\<close>)
qed

section \<open>Properties\<close>

text \<open>C18: the command parser against the table of commands: for every line, whatever its case and
  contents, the command is the one whose four-letter verb (and following word) the line begins with,
  with the rest of the line from the command's offset as argument, and a line of less than four
  characters or of no verb of the table is unrecognised. The comparison of packed characters is
  exact: no other characters have the code of a verb.\<close>

theorem parse_command_spec:
  assumes "length t < 2 ^ 32"
  shows "map_prod id text_of (parse_command (view t)) = command_of t"
  using assms by (rule parse_command_table)

theorem parse_command_spec_witness:
  "map_prod id text_of (parse_command (view ''mail From: <a@b.cd>'')) = (MailFrom, '': <a@b.cd>'')"
proof -
  have "command_of ''mail From: <a@b.cd>'' = (MailFrom, '': <a@b.cd>'')" by code_simp
  then show ?thesis using parse_command_spec [of "''mail From: <a@b.cd>''"] by simp
qed

text \<open>C26: the end of a message is found when the data received so far ends with the terminator,
  however it is cut into chunks, once five bytes have come in one chunk: the session then holds the
  last five bytes of the stream. Before that, chunks of less than five bytes do not add up: the
  message is not ended, whatever they hold.\<close>

theorem is_termination_spec:
  assumes "length (s_term s) \<le> 5"
  shows "let (s', fin) = is_termination s d; stream = s_term s @ d; tail = drop (length stream - 5) stream
    in length (s_term s') = max (length (s_term s)) (min 5 (length d)) \<and>
       (5 \<le> length d \<or> length (s_term s) = 5 \<longrightarrow> s_term s' = tail \<and> (fin \<longleftrightarrow> tail = CRLF @ ''.'' @ CRLF)) \<and>
       (length d < 5 \<and> length (s_term s) < 5 \<longrightarrow> \<not> fin)"
  using assms by (auto simp: is_termination_def Let_def min_def max_def)

theorem is_termination_spec_witness:
  "snd (is_termination ((new_session [])\<lparr>s_term := [CHR ''x'', CHR 0x0D, CHR 0x0A, CHR ''.'', CHR 0x0D]\<rparr>) [CHR 0x0A])"
  using is_termination_spec [of "(new_session [])\<lparr>s_term := [CHR ''x'', CHR 0x0D, CHR 0x0A, CHR ''.'', CHR 0x0D]\<rparr>" "[CHR 0x0A]"]
  by (cases "is_termination ((new_session [])\<lparr>s_term := [CHR ''x'', CHR 0x0D, CHR 0x0A, CHR ''.'', CHR 0x0D]\<rparr>) [CHR 0x0A]")
    (simp add: CRLF_def)

text \<open>A client's reader of replies: lines up to CRLF, three digits, a dash when more lines follow.\<close>

fun cut_line :: "string \<Rightarrow> (string \<times> string) option" where
  "cut_line (c # d # s) =
     (if c = CHR 0x0D \<and> d = CHR 0x0A then Some ([], s) else map_option (apfst ((#) c)) (cut_line (d # s)))"
| "cut_line _ = None"

definition digit_val :: "char \<Rightarrow> int" where
  "digit_val c = int (ord c) - 48"

fun read_reply :: "nat \<Rightarrow> string \<Rightarrow> (int \<times> string list \<times> string) option" where
  "read_reply 0 s = None"
| "read_reply (Suc n) s =
     (case cut_line s of
        Some (a # b # c # sep # l, rest) \<Rightarrow>
          if sep = CHR '' '' then Some (digit_val a * 100 + digit_val b * 10 + digit_val c, [l], rest)
          else map_option (\<lambda>(v, ls, r). (v, l # ls, r)) (read_reply n rest)
      | _ \<Rightarrow> None)"

lemma cut_line_append: "CHR 0x0D \<notin> set l \<Longrightarrow> cut_line (l @ CRLF @ r) = Some (l, r)"
proof (induction l)
  case (Cons c l)
  then show ?case by (cases l) (auto simp: CRLF_def)
qed (simp add: CRLF_def)

lemma digit_char_val: "n < 10 \<Longrightarrow> digit_val (digit_char n) = int n \<and> digit_char n \<noteq> CHR 0x0D"
proof -
  assume "n < 10"
  then have o: "ord (digit_char n) = 48 + n" by (simp add: digit_char_def of_char_of)
  moreover have "ord (CHR 0x0D) = 13" by simp
  ultimately show ?thesis by (auto simp: digit_val_def)
qed

lemma three_digits: "n = 10 * q + z \<Longrightarrow> q = 10 * x + y \<Longrightarrow> int x * 100 + int y * 10 + int z = int n"
  by simp

lemma code_text_digits:
  assumes "0 \<le> c" "c < 1000"
  shows "\<exists>x y z. code_text c = [digit_char x, digit_char y, digit_char z] \<and> x < 10 \<and> y < 10 \<and> z < 10 \<and>
    int x * 100 + int y * 10 + int z = c"
proof -
  let ?n = "nat c"
  have "?n div 100 < 10" using assms by (intro less_mult_imp_div_less) simp
  then have x: "?n div 100 mod 10 = ?n div 100" by simp
  have "int (?n div 100) * 100 + int (?n div 10 mod 10) * 10 + int (?n mod 10) = int ?n"
  proof (rule three_digits)
    show "?n = 10 * (?n div 10) + ?n mod 10" by simp
    show "?n div 10 = 10 * (?n div 100) + ?n div 10 mod 10"
      using mult_div_mod_eq [of 10 "?n div 10"] by (simp add: div_mult2_eq [symmetric])
  qed
  then have "int (?n div 100) * 100 + int (?n div 10 mod 10) * 10 + int (?n mod 10) = c" using assms(1) by (simp only: int_nat_eq if_True)
  moreover have "code_text c = [digit_char (?n div 100), digit_char (?n div 10 mod 10), digit_char (?n mod 10)]"
    by (simp only: code_text_def Let_def x)
  moreover have "?n div 10 mod 10 < 10" "?n mod 10 < 10" by simp_all
  ultimately show ?thesis using \<open>?n div 100 < 10\<close> by blast
qed

lemma read_reply_send:
  assumes "0 \<le> c" "c < 1000"
  shows "ls \<noteq> [] \<Longrightarrow> list_all (\<lambda>l. CHR 0x0D \<notin> set l) ls \<Longrightarrow>
    \<exists>t. send_lines (code_text c) ls = Inr t \<and> read_reply (length ls) (t @ r) = Some (c, ls, r)"
proof -
  obtain x y z where c: "code_text c = [digit_char x, digit_char y, digit_char z]" "x < 10" "y < 10" "z < 10"
      "int x * 100 + int y * 10 + int z = c"
    using code_text_digits [OF assms] by blast
  note v = digit_char_val [OF c(2)] digit_char_val [OF c(3)] digit_char_val [OF c(4)]
  have cut: "cut_line ((digit_char x # digit_char y # digit_char z # sep # l) @ CRLF @ t) =
      Some (digit_char x # digit_char y # digit_char z # sep # l, t)" if "CHR 0x0D \<notin> set l" "sep \<noteq> CHR 0x0D" for sep l t
    by (rule cut_line_append) (use that v in \<open>auto dest: sym\<close>)
  show "ls \<noteq> [] \<Longrightarrow> list_all (\<lambda>l. CHR 0x0D \<notin> set l) ls \<Longrightarrow> ?thesis"
  proof (induction ls rule: induct_list012)
    case (2 l)
    then show ?case using cut [of l "CHR '' ''" r] v c(5) by (simp add: c(1))
  next
    case (3 l l' ls)
    then obtain t where t: "send_lines (code_text c) (l' # ls) = Inr t"
        "read_reply (length (l' # ls)) (t @ r) = Some (c, l' # ls, r)" by auto
    then show ?case using cut [of l "CHR ''-''" "t @ r"] 3 by (simp add: c(1))
  qed simp
qed

text \<open>C33: the reply on the wire is read back, for a code from 0 to 999 and lines without a carriage
  return: a client that reads lines while they carry a dash gets the code and the lines of the response, and is left at the end of the reply; a response without a
  line cannot be sent.\<close>

theorem reply_roundtrip:
  assumes "0 \<le> r_code r" "r_code r < 1000" "list_all (\<lambda>l. CHR 0x0D \<notin> set l) (r_lines r)"
  shows "if r_lines r = [] then send_response r = Inl OutOfBoundsRead
    else \<exists>t. send_response r = Inr t \<and>
      read_reply (length (r_lines r)) (t @ rest) = Some (r_code r, r_lines r, rest)"
  using read_reply_send [OF assms(1,2) _ assms(3)] by (simp add: send_response_def)

theorem reply_roundtrip_witness:
  "\<exists>t. send_response (create 250 [''a'', ''b'']) = Inr t \<and>
     read_reply 2 (t @ ''x'') = Some (250, [''a'', ''b''], ''x'')"
  using reply_roundtrip [of "create 250 [''a'', ''b'']" "''x''"] by (simp add: create_def numeral_2_eq_2)

end
