(* ===== verification/Smtp_Context.thy ===== *)
theory Smtp_Context
  imports Smtp_Session Base64
begin

text \<open>
  The SMTP server context of \<open>libs/network/src/smtp/context.cpp\<close>: one function per handler, from the
  session and the argument to the session after it and the response, or the exception that leaves it.
  The virtual members are a record of hooks; \<open>default_hooks\<close> are the ones the class itself has. The
  regular expression of \<open>Email::Address::validate\<close> is a parameter. Hooks cannot change the session
  (its fields are private to the context), so they are functions of it; the ones without a response
  (\<open>onDataPart\<close>, \<open>onReset\<close>, \<open>onQuit\<close>) act on files only and are called under a guard: they do not
  appear.
\<close>

record hooks =
  hostname :: string
  validateDomain :: "str \<Rightarrow> bool"
  onMailFrom :: "session \<Rightarrow> response result"
  onMailRcpt :: "session \<Rightarrow> response result"
  onDataStart :: "session \<Rightarrow> response result"
  onDataTerm :: "session \<Rightarrow> response result"
  onHelp :: "session \<Rightarrow> str \<Rightarrow> response result"
  onVrfy :: "session \<Rightarrow> str \<Rightarrow> response result"
  onEtrn :: "session \<Rightarrow> str \<Rightarrow> response result"
  onExpn :: "session \<Rightarrow> str \<Rightarrow> response result"
  onStartTls :: "session \<Rightarrow> str \<Rightarrow> response result"
  onAuthOAuthBearer :: "str \<Rightarrow> response result"
  onAuthPlainToken :: "str \<Rightarrow> response result"
  onAuthUsernamePasswd :: "str \<Rightarrow> str \<Rightarrow> response result"
  validate_address :: "string \<Rightarrow> bool"
  extensions :: "string list"

text \<open>An exception of C++ can be caught, undefined behaviour cannot.\<close>

fun catchable :: "exn \<Rightarrow> bool" where
  "catchable OutOfBoundsWrite = False"
| "catchable OutOfBoundsRead = False"
| "catchable NullDereference = False"
| "catchable AssertionFailure = False"
| "catchable StackExhausted = False"
| "catchable IntegerOverflow = False"
| "catchable UseAfterFree = False"
| "catchable _ = True"

definition catch :: "'a result \<Rightarrow> 'a result \<Rightarrow> 'a result" where
  "catch r h = (case r of Inl e \<Rightarrow> if catchable e then h else Inl e | Inr x \<Rightarrow> Inr x)"

section \<open>Argument parsing\<close>

definition extract_email :: "(string \<Rightarrow> bool) \<Rightarrow> str \<Rightarrow> str \<Rightarrow> str \<times> str" where
  "extract_email valid line addr =
     (let it = eat (peek line) 0 is_space in
      if str_empty it \<or> mem it ! 0 \<noteq> CHR '':'' then (null_str, addr)
      else let it = eat it 1 is_space in
        if str_empty it \<or> mem it ! 0 \<noteq> CHR ''<'' then (null_str, addr)
        else let tmp = capture it 1 (\<lambda>c. c = CHR ''>'') in
          if str_empty tmp then (null_str, addr)
          else if \<not> valid (text_of tmp) then (null_str, addr)
          else (substr it (2 + m_len tmp) 0 True, tmp))"

text \<open>The number is read as a 64-bit integer and stored in an \<open>int\<close>; any exception is -1.\<close>

definition cast_int :: "str \<Rightarrow> int result" where
  "cast_int s = rbind (strtonum s 10 (- (2 ^ 63)) (2 ^ 63 - 1)) (\<lambda>v. Inr (sint (word_of_int v :: 32 word)))"

definition parse_mail_from :: "(string \<Rightarrow> bool) \<Rightarrow> str \<Rightarrow> int \<times> str" where
  "parse_mail_from valid line =
     (let (tmp, addr) = extract_email valid line null_str in
      if str_empty tmp then (if str_empty addr then -1 else 0, addr)
      else let tmp = eat tmp 0 is_space in
        if str_empty tmp then (0, addr)
        else if m_len tmp < 4 then (-1, addr)
        else if \<not> strncasecmp_eq (mem tmp) ''SIZE'' 4 then (-1, addr)
        else let tmp = eat tmp 4 is_space in
          if str_empty tmp then (-1, addr)
          else (case cast_int tmp of Inr n \<Rightarrow> (n, addr) | Inl _ \<Rightarrow> (-1, addr)))"

definition expect_state :: "session \<Rightarrow> state \<Rightarrow> response option" where
  "expect_state s expected =
     (if s_state s = expected then None
      else Some (create 503 [case s_state s of
          ExpectHello \<Rightarrow> ''Issue HELO/EHLO first''
        | ExpectMail \<Rightarrow> ''Issue MAIL FROM first''
        | ExpectRecipient \<Rightarrow> ''Issue RCPT TO first''
        | ExpectAuth \<Rightarrow> ''Issue AUTH first''
        | _ \<Rightarrow> ''Unexpected command'']))"

lemma expect_state_None [simp]: "expect_state s st = None \<longleftrightarrow> s_state s = st"
  by (simp add: expect_state_def)

lemma expect_state_same [simp]: "s_state s = st \<Longrightarrow> expect_state s st = None"
  by simp

section \<open>Commands\<close>

type_synonym reply = "(session \<times> response) result"

definition hello :: "hooks \<Rightarrow> session \<Rightarrow> str \<Rightarrow> bool \<Rightarrow> session \<times> response" where
  "hello cx s domain isEhlo =
     (if str_empty domain then
        (next_state Quit s, abort 501 [''Empty HELO/EHLO argument not allowed, closing connection''])
      else if \<not> validateDomain cx domain then
        (next_state Quit s, abort 501 [''Unsupported HELO/EHLO argument''])
      else
        let s1 = session_reset (if s_state s = ExpectHello then ExpectAuth else s_state s) s;
            resp = create 250 [hostname cx @ '' at your service'']
        in (s1, if \<not> isEhlo then resp else fold push (extensions cx) resp))"

definition quit :: "session \<Rightarrow> str \<Rightarrow> session \<times> response" where
  "quit s arg =
     (if \<not> str_empty arg then (s, create 501 [''Syntax error, QUIT does not accept arguments''])
      else (next_state Quit (session_reset ExpectHello s), create 221 [''Closing connection! goodbye'']))"

definition start_email :: "hooks \<Rightarrow> session \<Rightarrow> str \<Rightarrow> reply" where
  "start_email cx s arg =
     (case expect_state s ExpectMail of
        Some resp \<Rightarrow> Inr (s, resp)
      | None \<Rightarrow>
          let (n, tmp) = parse_mail_from (validate_address cx) arg;
              s1 = s\<lparr>expected_size := n\<rparr>
          in if n < 0 then
               Inr (s1, if str_empty tmp then create 553 [''Syntax error, invalid email address'']
                        else create 555 [''Syntax error, unsupported parameters''])
             else
               let s2 = s1\<lparr>s_from := text_of tmp\<rparr> in
               catch
                 (rbind (onMailFrom cx s2) (\<lambda>resp.
                    Inr (if r_code resp = 250 then next_state ExpectRecipient s2 else s2, resp)))
                 (Inr (s2\<lparr>s_from := []\<rparr>, create 555 [''Kaboom!!!! MAIL FROM contact postmaster''])))"

definition add_recipient :: "hooks \<Rightarrow> session \<Rightarrow> str \<Rightarrow> reply" where
  "add_recipient cx s line =
     (case expect_state s ExpectRecipient of
        Some resp \<Rightarrow> Inr (s, resp)
      | None \<Rightarrow>
          let (rest, addr) = extract_email (validate_address cx) line null_str in
          if \<not> str_empty rest then Inr (s, create 553 [''Syntax error, invalid email address''])
          else
            let s1 = s\<lparr>recipients := recipients s @ [text_of addr]\<rparr> in
            catch
              (rbind (onMailRcpt cx s1) (\<lambda>resp. Inr (s1, resp)))
              (Inr (s1\<lparr>recipients := butlast (recipients s1)\<rparr>, create 555 [''Kaboom!!!! RCP TO contact postmaster''])))"

definition start_data :: "hooks \<Rightarrow> session \<Rightarrow> str \<Rightarrow> reply" where
  "start_data cx s arg =
     (if \<not> str_empty arg then Inr (s, create 501 [''Syntax error, DATA does not accept parameters''])
      else
        case expect_state s ExpectRecipient of
          Some resp \<Rightarrow> Inr (s, resp)
        | None \<Rightarrow>
            catch
              (rbind (onDataStart cx s) (\<lambda>resp.
                 Inr (if r_code resp = 354 then next_state ExpectData s else s, resp)))
              (Inr (s, create 555 [''Kaboom!!!! DATA contact postmaster''])))"

definition reset :: "session \<Rightarrow> session \<times> response" where
  "reset s = (session_reset (s_state s) s, create 250 [''OK''])"

definition noop :: response where
  "noop = create 250 [''OK'']"

section \<open>Authentication\<close>

text \<open>\<open>Base64::decode\<close> of a string, on its storage and terminator.\<close>

definition b64_decode :: "allocator \<Rightarrow> str \<Rightarrow> str result" where
  "b64_decode al s =
     rbind (Base64.decode_str al (bytes_of_string (mem s) @ [0]) (m_len s)) (\<lambda>b.
       Inr (of_view (Some (string_of_bytes b)) (length b) True))"

definition auth_login :: "allocator \<Rightarrow> hooks \<Rightarrow> str \<Rightarrow> str \<Rightarrow> response result" where
  "auth_login al cx username passwd =
     catch
       (rbind (b64_decode al username) (\<lambda>u.
        rbind (b64_decode al passwd) (\<lambda>p. onAuthUsernamePasswd cx u p)))
       (Inr (create 501 [''Cannot decode response'']))"

definition plain_rejected :: response where
  "plain_rejected = create 501 [''Username and Password not accepted'']"

definition split_plain :: "str \<Rightarrow> str \<times> str" where
  "split_plain userPasswd =
     (let pos =
            (if mem userPasswd ! 0 \<noteq> NUL then
               let tmp = pos_of (find_char userPasswd NUL) in
               if tmp > 0 then inc64 tmp else 1
             else 1);
          tmp = pos_of (find_char (substr userPasswd pos 0 True) NUL);
          (user, pos) =
            (if tmp > 0 then (substr userPasswd pos (sub64 tmp pos) True, inc64 tmp) else (null_str, pos))
      in (user, substr userPasswd pos 0 True))"

definition auth_plain :: "allocator \<Rightarrow> hooks \<Rightarrow> str \<Rightarrow> response result" where
  "auth_plain al cx plain =
     catch
       (rbind (b64_decode al plain) (\<lambda>userPasswd.
          if str_empty userPasswd then Inr plain_rejected
          else
            let (user, passwd) = split_plain userPasswd in
            if str_empty user \<or> str_empty passwd then Inr plain_rejected
            else onAuthUsernamePasswd cx user passwd))
       (Inr (create 501 [''Cannot decode response'']))"

definition auth_not_supported :: response where
  "auth_not_supported = create 504 [''Authentication not supported'']"

definition authenticate_user :: "allocator \<Rightarrow> hooks \<Rightarrow> auth_mechanism \<Rightarrow> str \<Rightarrow> str \<Rightarrow> response result" where
  "authenticate_user al cx m a0 a1 =
     (case m of
        Login \<Rightarrow> auth_login al cx a0 a1
      | Plain \<Rightarrow> auth_plain al cx a1
      | CramMD5 \<Rightarrow> Inr auth_not_supported
      | MD5 \<Rightarrow> Inr auth_not_supported
      | DigestMD5 \<Rightarrow> Inr auth_not_supported
      | OAuthBearer \<Rightarrow> onAuthOAuthBearer cx a1
      | PlainToken \<Rightarrow> onAuthPlainToken cx a1
      | UnknownAuth \<Rightarrow> Inr (create 504 [''Unrecognized authentication type'']))"

text \<open>The prompts: the base64 texts of \<open>Username:\<close> and \<open>PasswordL\<close>.\<close>

definition username_b64 :: string where
  "username_b64 = string_of_bytes (enc_loop (bytes_of_string ''Username:''))"

definition password_b64 :: string where
  "password_b64 = string_of_bytes (enc_loop (bytes_of_string ''PasswordL''))"

definition protocol_auth :: "allocator \<Rightarrow> hooks \<Rightarrow> session \<Rightarrow> str \<Rightarrow> reply" where
  "protocol_auth al cx s arg =
     (case mechanism s of
        Plain \<Rightarrow>
          if \<not> str_empty arg then rbind (authenticate_user al cx (mechanism s) null_str arg) (\<lambda>r. Inr (s, r))
          else Inr (next_state AuthExpectPassword s, create 334 [[]])
      | Login \<Rightarrow>
          if \<not> str_empty arg then
            Inr (next_state AuthExpectPassword (s\<lparr>arg0 := text_of arg\<rparr>), create 334 [password_b64])
          else Inr (next_state AuthExpectUsername s, create 334 [username_b64])
      | _ \<Rightarrow> Inr (s, create 504 [''Unrecognized auth mechanism'']))"

text \<open>\<open>find\<close> gives \<open>npos\<close> for a missing space, which is greater than 0; \<open>space++\<close> wraps then.\<close>

definition start_auth :: "allocator \<Rightarrow> hooks \<Rightarrow> session \<Rightarrow> str \<Rightarrow> reply" where
  "start_auth al cx s arg =
     (case expect_state s ExpectAuth of
        Some resp \<Rightarrow> Inr (s, resp)
      | None \<Rightarrow>
          if str_empty arg then Inr (s, create 501 [''Empty AUTH argument not allowed''])
          else
            let space = pos_of (find_char arg (CHR '' ''));
                (proto, auth) =
                  (if space > 0 then (substr arg 0 space True, substr arg (inc64 space) 0 True)
                   else (peek arg, null_str))
            in rbind (parse_auth_mechanism proto) (\<lambda>m. protocol_auth al cx (s\<lparr>mechanism := m\<rparr>) auth))"

definition on_line :: "allocator \<Rightarrow> hooks \<Rightarrow> session \<Rightarrow> str \<Rightarrow> reply" where
  "on_line al cx s line =
     (if s_state s = AuthExpectUsername then
        Inr (next_state AuthExpectPassword (s\<lparr>arg0 := text_of line\<rparr>), create 334 [password_b64])
      else if s_state s = AuthExpectPassword then
        rbind (authenticate_user al cx (mechanism s) (lit (arg0 s)) line) (\<lambda>resp.
          Inr (next_state (if r_code resp \<noteq> 235 then ExpectAuth else ExpectMail) s, resp))
      else Inr (s, create 502 [''Issue AUTH first'']))"

section \<open>Dispatch\<close>

definition on_command :: "allocator \<Rightarrow> hooks \<Rightarrow> session \<Rightarrow> command \<Rightarrow> str \<Rightarrow> reply" where
  "on_command al cx s cmd arg =
     (case cmd of
        Hello \<Rightarrow> Inr (hello cx s arg False)
      | EHello \<Rightarrow> Inr (hello cx s arg True)
      | Auth \<Rightarrow> start_auth al cx s arg
      | QuitCmd \<Rightarrow> Inr (quit s arg)
      | MailFrom \<Rightarrow> start_email cx s arg
      | RcptTo \<Rightarrow> add_recipient cx s arg
      | Data \<Rightarrow> start_data cx s arg
      | BData \<Rightarrow> start_data cx s arg
      | Help \<Rightarrow> rbind (onHelp cx s arg) (\<lambda>r. Inr (s, r))
      | Verify \<Rightarrow> rbind (onVrfy cx s arg) (\<lambda>r. Inr (s, r))
      | ETrn \<Rightarrow> rbind (onEtrn cx s arg) (\<lambda>r. Inr (s, r))
      | ATrn \<Rightarrow> rbind (onEtrn cx s arg) (\<lambda>r. Inr (s, r))
      | Reset \<Rightarrow> Inr (reset s)
      | Noop \<Rightarrow> Inr (s, noop)
      | StartTls \<Rightarrow> rbind (onStartTls cx s arg) (\<lambda>r. Inr (s, r))
      | Expn \<Rightarrow> rbind (onExpn cx s arg) (\<lambda>r. Inr (s, r))
      | Unrecognized \<Rightarrow> Inr (s, create 500 [''Unrecognised command'']))"

text \<open>A chunk of message data: a response when the message is complete or not expected.\<close>

definition on_data :: "hooks \<Rightarrow> session \<Rightarrow> string \<Rightarrow> (session \<times> response option) result" where
  "on_data cx s data =
     (case expect_state s ExpectData of
        Some resp \<Rightarrow> Inr (s, Some resp)
      | None \<Rightarrow>
          let (s1, finished) = is_termination s data;
              s2 = s1\<lparr>rxd := data\<rparr>
          in if finished then
               let s3 = next_state ExpectMail s2 in
               catch
                 (rbind (onDataTerm cx s3) (\<lambda>resp. Inr (s3, Some resp)))
                 (Inr (s3, Some (create 553 [''Kaboom!!!! RCP TO contact postmaster''])))
             else Inr (s2, None))"

section \<open>The class's own hooks\<close>

text \<open>\<open>onHelp\<close> calls itself before it answers.\<close>

partial_function (option) help_loop :: "session \<Rightarrow> str \<Rightarrow> response option" where
  "help_loop s what =
     Option.bind (help_loop s what) (\<lambda>_.
       Some (create 214 [''See https://tools.ietf.org/html/rfc5321 for more info'']))"

definition default_help :: "session \<Rightarrow> str \<Rightarrow> response result" where
  "default_help s what = (case help_loop s what of Some r \<Rightarrow> Inr r | None \<Rightarrow> Inl StackExhausted)"

definition default_data_start :: "session \<Rightarrow> response result" where
  "default_data_start s =
     (case expect_state s ExpectRecipient of
        Some r \<Rightarrow> Inr r
      | None \<Rightarrow> Inr (create 354 [''OK send data terminated by CRLF.CRLF'']))"

definition unimplemented :: response where
  "unimplemented = create 502 [''Unimplemented command'']"

text \<open>\<open>std::set<String>\<close>: \<open>operator<\<close> compares lengths first, then characters.\<close>

fun chars_less :: "string \<Rightarrow> string \<Rightarrow> bool" where
  "chars_less (a # s) (b # t) \<longleftrightarrow> (if a = b then chars_less s t else ord a < ord b)"
| "chars_less _ _ \<longleftrightarrow> False"

definition string_less :: "string \<Rightarrow> string \<Rightarrow> bool" where
  "string_less a b \<longleftrightarrow> length a < length b \<or> length a = length b \<and> chars_less a b"

fun set_insert :: "string \<Rightarrow> string list \<Rightarrow> string list" where
  "set_insert x [] = [x]"
| "set_insert x (y # ys) = (if string_less x y then x # y # ys else y # set_insert x ys)"

definition add_extension :: "string \<Rightarrow> string list \<Rightarrow> string list" where
  "add_extension ext exts = (if ext \<in> set exts then exts else set_insert ext exts)"

definition default_hooks :: "(string \<Rightarrow> bool) \<Rightarrow> string list \<Rightarrow> hooks" where
  "default_hooks valid exts =
     \<lparr>hostname = ''suil-localhost'', validateDomain = (\<lambda>_. True),
      onMailFrom = (\<lambda>_. Inr (create 250 [''OK give me recipients''])),
      onMailRcpt = (\<lambda>_. Inr (create 250 [''OK give more recipients''])),
      onDataStart = default_data_start,
      onDataTerm = (\<lambda>_. Inr (create 250 [''OK message received''])),
      onHelp = default_help,
      onVrfy = (\<lambda>_ _. Inr unimplemented), onEtrn = (\<lambda>_ _. Inr unimplemented),
      onExpn = (\<lambda>_ _. Inr unimplemented), onStartTls = (\<lambda>_ _. Inr unimplemented),
      onAuthOAuthBearer = (\<lambda>_. Inr auth_not_supported), onAuthPlainToken = (\<lambda>_. Inr auth_not_supported),
      onAuthUsernamePasswd = (\<lambda>_ _. Inr (create 235 [''OK Authorized, ready when you are''])),
      validate_address = valid, extensions = exts\<rparr>"

definition on_connect :: "hooks \<Rightarrow> session \<Rightarrow> string \<Rightarrow> hooks \<times> session \<times> response" where
  "on_connect cx s ident =
     (cx\<lparr>extensions := add_extension ''AUTH LOGIN PLAIN'' (extensions cx)\<rparr>, s\<lparr>sid := ident\<rparr>,
      create 220 [hostname cx @ '' SMTP '' @ ident])"

end
