(* ===== verification/Smtp_Handlers.thy ===== *)
theory Smtp_Handlers
  imports Smtp_Context
begin

text \<open>
  The handlers of the SMTP context one by one: what they take from their argument and what they
  answer. The argument is a received text, or the null string when the command has none.
\<close>

section \<open>The string helpers on received texts\<close>

lemma scan_spec:
  "k \<le> length t \<Longrightarrow> length t < 2 ^ 32 \<Longrightarrow> scan p (view0 t) k = k + length (takeWhile p (drop k t))"
proof (induction "length t - k" arbitrary: k)
  case 0
  then show ?case by (simp add: scan.simps)
next
  case (Suc n)
  then have k: "k < length t" by linarith
  then have d: "drop k t = t ! k # drop (Suc k) t" by (simp add: Cons_nth_drop_Suc)
  show ?case
  proof (cases "p (t ! k)")
    case True
    then have "scan p (view0 t) k = scan p (view0 t) (k + 1)" using k Suc.prems by (subst scan.simps) simp
    also have "\<dots> = k + 1 + length (takeWhile p (drop (k + 1) t))"
      by (rule Suc.hyps(1)) (use Suc k in auto)
    finally show ?thesis using d True by simp
  next
    case False
    then show ?thesis using d k Suc.prems by (subst scan.simps) simp
  qed
qed

lemma substr_view0:
  assumes "length t < 2 ^ 32" "k \<le> length t"
  shows "substr (view0 t) k 0 True = view0 (drop k t)"
proof (cases "t = []")
  case True
  then show ?thesis using assms by (simp add: view0_def substr_def null_str_def)
next
  case False
  then show ?thesis using substr_view [OF assms] by (simp add: view0_def)
qed

lemma eat_spec:
  assumes "length t < 2 ^ 32" "k \<le> length t"
  shows "eat (view0 t) k p = view0 (dropWhile p (drop k t))"
proof -
  let ?n = "k + length (takeWhile p (drop k t))"
  have "length (takeWhile p (drop k t)) \<le> length (drop k t)" by (rule length_takeWhile_le)
  then have le: "?n \<le> length t" using assms(2) by simp
  have "drop ?n t = dropWhile p (drop k t)"
    by (metis add.commute append_eq_conv_conj drop_drop takeWhile_dropWhile_id)
  then show ?thesis using scan_spec [OF assms(2,1)] substr_view0 [OF assms(1) le] by (simp add: eat_def)
qed

lemma takeWhile_all: "length (takeWhile P xs) = length xs \<longleftrightarrow> takeWhile P xs = xs"
  by (metis takeWhile_eq_take take_all order_refl)

lemma capture_spec:
  fixes until :: "char \<Rightarrow> bool"
  assumes "length t < 2 ^ 32" "k \<le> length t"
  defines "a \<equiv> takeWhile (\<lambda>c. \<not> until c) (drop k t)"
  shows "text_of (capture (view0 t) k until) = (if a = drop k t then [] else a)"
    and "m_len (capture (view0 t) k until) = length (text_of (capture (view0 t) k until))"
    and "str_empty (capture (view0 t) k until) \<longleftrightarrow> text_of (capture (view0 t) k until) = []"
proof -
  have "length a \<le> length (drop k t)" unfolding a_def by (rule length_takeWhile_le)
  then have le: "k + length a \<le> length t" using assms(2) by simp
  have full: "a = drop k t \<longleftrightarrow> k + length a = length t"
  proof -
    have "a = drop k t \<longleftrightarrow> length a = length (drop k t)" unfolding a_def by (rule takeWhile_all [symmetric])
    then show ?thesis using assms(2) by (simp only: length_drop) linarith
  qed
  have it: "scan (\<lambda>c. \<not> until c) (view0 t) k = k + length a" unfolding a_def by (rule scan_spec [OF assms(2,1)])
  have pre: "take (length a) (drop k t) = a" unfolding a_def by (rule takeWhile_eq_take [symmetric])
  consider "a = []" | "a \<noteq> []" "a = drop k t" | "a \<noteq> []" "k + length a < length t" using le full by linarith
  then have "text_of (capture (view0 t) k until) = (if a = drop k t then [] else a) \<and>
      m_len (capture (view0 t) k until) = length (text_of (capture (view0 t) k until)) \<and>
      (str_empty (capture (view0 t) k until) \<longleftrightarrow> text_of (capture (view0 t) k until) = [])"
  proof cases
    case 3
    then have "t \<noteq> []" by auto
    then have "capture (view0 t) k until = substr (view t) k (length a) True"
      using 3 it assms(1) by (simp add: capture_def Let_def view0_def)
    then show ?thesis using substr_view_n [of t "length a" k] assms(1) 3 full pre by simp
  qed (use it full assms(1) in \<open>auto simp: capture_def Let_def null_str_def text_of_def mem_def str_empty_def\<close>)
  then show "text_of (capture (view0 t) k until) = (if a = drop k t then [] else a)"
    "m_len (capture (view0 t) k until) = length (text_of (capture (view0 t) k until))"
    "str_empty (capture (view0 t) k until) \<longleftrightarrow> text_of (capture (view0 t) k until) = []" by blast+
qed

lemma peek_view0 [simp]: "length t < 2 ^ 32 \<Longrightarrow> peek (view0 t) = view0 t"
  by (simp add: peek_def view0_def view_def of_view_def null_str_def)

section \<open>Addresses\<close>

text \<open>The reference: \<open>:\<close>, the address in angle brackets, and what follows it.\<close>

definition address_of :: "(string \<Rightarrow> bool) \<Rightarrow> string \<Rightarrow> (string \<times> string) option" where
  "address_of valid t =
     (let t1 = dropWhile is_space t in
      if cur t1 \<noteq> CHR '':'' then None
      else let t2 = dropWhile is_space (tl t1) in
        if cur t2 \<noteq> CHR ''<'' then None
        else let a = takeWhile (\<lambda>c. c \<noteq> CHR ''>'') (tl t2) in
          if a \<noteq> [] \<and> a \<noteq> tl t2 \<and> valid a then Some (a, drop (length a + 2) t2) else None)"

lemma head_test: "length t < 2 ^ 32 \<Longrightarrow> c \<noteq> NUL \<Longrightarrow> str_empty (view0 t) \<or> mem (view0 t) ! 0 \<noteq> c \<longleftrightarrow> cur t \<noteq> c"
  by (cases t) auto

lemma extract_email_spec:
  assumes "length t < 2 ^ 32"
  shows "extract_email valid (view0 t) null_str =
    (case address_of valid t of None \<Rightarrow> (null_str, null_str)
     | Some (a, r) \<Rightarrow> (view0 r, capture (view0 (dropWhile is_space (tl (dropWhile is_space t)))) 1 (\<lambda>c. c = CHR ''>''))) \<and>
    (\<forall>a r. address_of valid t = Some (a, r) \<longrightarrow> a \<noteq> [] \<and> valid a \<and> length r < 2 ^ 32 \<and>
      text_of (capture (view0 (dropWhile is_space (tl (dropWhile is_space t)))) 1 (\<lambda>c. c = CHR ''>'')) = a)"
proof -
  let ?t1 = "dropWhile is_space t"
  have l1: "length ?t1 < 2 ^ 32" using assms length_dropWhile_le [of is_space t] by linarith
  have e1: "eat (peek (view0 t)) 0 is_space = view0 ?t1" using eat_spec [of t 0] assms by simp
  show ?thesis
  proof (cases "cur ?t1 = CHR '':''")
    case False
    then show ?thesis using l1 head_test [OF l1, of "CHR '':''"]
      by (simp add: extract_email_def address_of_def Let_def e1)
  next
    case True
    then obtain t1 where t1: "?t1 = CHR '':'' # t1" by (cases ?t1) auto
    let ?t2 = "dropWhile is_space t1"
    have l2: "length ?t2 < 2 ^ 32" using l1 t1 length_dropWhile_le [of is_space t1] by simp
    have e2: "eat (view0 (CHR '':'' # t1)) (Suc 0) is_space = view0 ?t2" using eat_spec [of ?t1 1] l1 t1 by simp
    show ?thesis
    proof (cases "cur ?t2 = CHR ''<''")
      case False
      then show ?thesis using l1 l2 t1 head_test [OF l2, of "CHR ''<''"]
        by (simp add: extract_email_def address_of_def Let_def e1 e2)
    next
      case True
      then obtain t2 where t2: "?t2 = CHR ''<'' # t2" by (cases ?t2) auto
      let ?c = "capture (view0 ?t2) 1 (\<lambda>c. c = CHR ''>'')" and ?a = "takeWhile (\<lambda>c. c \<noteq> CHR ''>'') t2"
      have c: "text_of ?c = (if ?a = t2 then [] else ?a)" "m_len ?c = length (text_of ?c)" "str_empty ?c \<longleftrightarrow> text_of ?c = []"
        using capture_spec [of "CHR ''<'' # t2" 1 "\<lambda>c. c = CHR ''>''"] l2 t2 by (simp_all cong: if_cong)
      have le: "length ?a + 2 \<le> length ?t2" if "?a \<noteq> t2"
      proof -
        have "length ?a \<noteq> length t2" using that takeWhile_all [of "\<lambda>c. c \<noteq> CHR ''>''" t2] by simp
        then show ?thesis using length_takeWhile_le [of "\<lambda>c. c \<noteq> CHR ''>''" t2] t2 by simp
      qed
      have "substr (view0 ?t2) (2 + m_len ?c) 0 True = view0 (drop (length ?a + 2) ?t2)" if "?a \<noteq> t2"
      proof -
        have "text_of ?c = ?a" using c(1) that by (simp only: if_False)
        then have "2 + m_len ?c = length ?a + 2" using c(2) by simp
        then show ?thesis using substr_view0 [OF l2 le [OF that]] by (simp only:)
      qed
      moreover have "length (drop (length ?a + 2) ?t2) < 2 ^ 32" using l2 by simp
      ultimately show ?thesis using l1 l2 t1 t2 c head_test [OF l2, of "CHR ''<''"]
        by (cases "?a = t2") (auto simp: extract_email_def address_of_def Let_def e1 e2)
    qed
  qed
qed

section \<open>Properties\<close>

text \<open>C22: what \<open>RCPT TO\<close> adds to the recipients when the hook accepts: the address of the argument
  when it is a colon and an address in angle brackets with nothing after it; an argument with
  something after the address is refused; and an argument with no valid address at all is accepted
  and adds an empty recipient. (For arguments shorter than \<open>2 ^ 31\<close> characters, where the \<open>int\<close> indices of
  \<open>eat\<close> and \<open>capture\<close> hold; a line has about a thousand.)\<close>

theorem recipient_spec:
  assumes "length t < 2 ^ 31" "s_state s = ExpectRecipient" "\<forall>s'. \<exists>r. onMailRcpt cx s' = Inr r"
  shows "case address_of (validate_address cx) t of
      None \<Rightarrow> \<exists>r. add_recipient cx s (view0 t) = Inr (s\<lparr>recipients := recipients s @ [[]]\<rparr>, r)
    | Some (a, rest) \<Rightarrow>
        if rest = [] then \<exists>r. add_recipient cx s (view0 t) = Inr (s\<lparr>recipients := recipients s @ [a]\<rparr>, r)
        else \<exists>r. add_recipient cx s (view0 t) = Inr (s, r) \<and> r_code r = 553"
proof -
  have x: "\<exists>r. add_recipient cx s (view0 t) = Inr (s\<lparr>recipients := recipients s @ [a]\<rparr>, r)"
    if "extract_email (validate_address cx) (view0 t) null_str = (rest, addr)" "str_empty rest" "text_of addr = a"
    for rest addr a
  proof -
    obtain r where "onMailRcpt cx (s\<lparr>recipients := recipients s @ [a]\<rparr>) = Inr r" using assms(3) by blast
    then show ?thesis using that assms(2) by (simp add: add_recipient_def catch_def)
  qed
  have null: "str_empty null_str" "text_of null_str = []"
    by (simp_all add: null_str_def str_empty_def text_of_def mem_def)
  have len: "length t < 2 ^ 32" using assms(1) by simp
  note e = extract_email_spec [OF len, of "validate_address cx"]
  show ?thesis
  proof (cases "address_of (validate_address cx) t")
    case None
    then show ?thesis using x [of null_str null_str "[]"] e null by simp
  next
    case (Some p)
    obtain a r where p: "p = (a, r)" by fastforce
    have r: "str_empty (view0 r) \<longleftrightarrow> r = []" using e Some p by simp
    show ?thesis
    proof (cases "r = []")
      case True
      then show ?thesis using x [of "view0 r"] e Some p r by simp
    next
      case False
      then have "add_recipient cx s (view0 t) = Inr (s, create 553 [''Syntax error, invalid email address''])"
        using e Some p r assms(2) by (simp add: add_recipient_def)
      then show ?thesis using False Some p by (simp add: create_def)
    qed
  qed
qed

theorem recipient_spec_witness:
  "\<exists>r. add_recipient (default_hooks (\<lambda>_. True) []) ((new_session [])\<lparr>s_state := ExpectRecipient\<rparr>) (view0 ''nobody'') =
     Inr ((new_session [])\<lparr>s_state := ExpectRecipient, recipients := [[]]\<rparr>, r)"
proof -
  have "address_of (\<lambda>_. True) ''nobody'' = None" by code_simp
  then show ?thesis
    using recipient_spec [of "''nobody''" "(new_session [])\<lparr>s_state := ExpectRecipient\<rparr>" "default_hooks (\<lambda>_. True) []"]
    by (simp add: default_hooks_def new_session_def)
qed

lemma dec_string_start: "\<not> is_space (hd (dec_string n))"
proof -
  obtain c cs where d: "dec_digits (nat \<bar>n\<bar>) [] = c # cs" using dec_digits_ne by (metis neq_Nil_conv)
  then have "is_digit c" using dec_digits_chars [of "[]" "nat \<bar>n\<bar>"] by auto
  then show ?thesis using d digit_facts by (auto simp: dec_string_def is_space_def)
qed

lemma cast_int_dec:
  assumes "- (2 ^ 31) \<le> n" "n < 2 ^ 31"
  shows "cast_int (view (dec_string n)) = Inr n"
proof -
  have n: "- (2 ^ 63) \<le> n" "n < 2 ^ 63" "\<bar>n\<bar> < 10 ^ 18" using assms by auto
  note d = dec_string_parse [OF n(1,2)] dec_string_length [OF n(3)]
  have "strtonum (view (dec_string n)) 10 (- (2 ^ 63)) (2 ^ 63 - 1) = Inr n"
    using d n view_whole [of "dec_string n"] c_str_id [OF d(2)] by (simp add: strtonum_def char_at_def)
  moreover have "sint (word_of_int n :: 32 word) = n"
    using assms by (simp add: signed_of_int signed_take_bit_int_eq_self)
  ultimately show ?thesis by (simp add: cast_int_def)
qed

text \<open>C30: what \<open>MAIL FROM\<close> reads: -1 without a valid address, else the address and 0 when only
  white space follows it, and the number of a \<open>SIZE\<close> argument in any case, after white space. (For
  arguments shorter than \<open>2 ^ 31\<close> characters, as for \<open>RCPT TO\<close>.)\<close>

theorem mail_from_spec:
  assumes "length t < 2 ^ 31"
  shows "case address_of valid t of
      None \<Rightarrow> fst (parse_mail_from valid (view0 t)) = -1
    | Some (a, rest) \<Rightarrow>
        text_of (snd (parse_mail_from valid (view0 t))) = a \<and>
        (list_all is_space rest \<longrightarrow> fst (parse_mail_from valid (view0 t)) = 0) \<and>
        (\<forall>w sp n. dropWhile is_space rest = w @ sp @ dec_string n \<and> map to_upper w = ''SIZE'' \<and> list_all is_space sp \<and>
           - (2 ^ 31) \<le> n \<and> n < 2 ^ 31 \<longrightarrow> fst (parse_mail_from valid (view0 t)) = n)"
proof -
  have len: "length t < 2 ^ 32" using assms by simp
  note e = extract_email_spec [OF len, of valid]
  have null: "str_empty null_str" "text_of null_str = []"
    by (simp_all add: null_str_def str_empty_def text_of_def mem_def)
  show ?thesis
  proof (cases "address_of valid t")
    case None
    then show ?thesis using e null by (simp add: parse_mail_from_def)
  next
    case (Some p)
    then obtain a r c where p: "p = (a, r)" "extract_email valid (view0 t) null_str = (view0 r, c)" "text_of c = a"
        "a \<noteq> []" "length r < 2 ^ 32"
      using e by (cases p) auto
    have c: "\<not> str_empty c" using p(3,4) by (auto simp: str_empty_def text_of_def mem_def split: option.splits)
    let ?r = "dropWhile is_space r"
    have r: "eat (view0 r) 0 is_space = view0 ?r" "length ?r < 2 ^ 32"
      using eat_spec [of r 0] p(5) length_dropWhile_le [of is_space r] by auto
    have snd: "snd (parse_mail_from valid (view0 t)) = c"
      by (simp add: parse_mail_from_def p(2) Let_def split: sum.split)
    have zero: "fst (parse_mail_from valid (view0 t)) = 0" if "list_all is_space r"
    proof -
      have "?r = []" using that by (simp add: list_all_iff)
      then show ?thesis using c r p(5) by (simp add: parse_mail_from_def p(2) Let_def)
    qed
    have sized: "fst (parse_mail_from valid (view0 t)) = n"
      if w: "?r = w @ sp @ dec_string n" "map to_upper w = ''SIZE''" "list_all is_space sp" and n: "- (2 ^ 31) \<le> n" "n < 2 ^ 31"
      for w sp n
    proof -
      have n': "- (2 ^ 63) \<le> n" "n < 2 ^ 63" "\<bar>n\<bar> < 10 ^ 18" using n by auto
      note d = dec_string_parse [OF n'(1,2)] dec_string_length [OF n'(3)]
      have lw: "length w = 4" using arg_cong [OF w(2), of length] by simp
      have "\<not> is_space (hd (dec_string n))" using dec_string_start by simp
      then have "dropWhile is_space (sp @ dec_string n) = dec_string n"
        using w(3) d(3) by (cases "dec_string n") (auto simp: list_all_iff dropWhile_append)
      moreover have "eat (view0 ?r) 4 is_space = view0 (dropWhile is_space (drop 4 ?r))"
        by (rule eat_spec [OF r(2)]) (simp add: w(1) lw)
      ultimately have four: "eat (view0 ?r) 4 is_space = view (dec_string n)"
        using w(1) lw d(3) by (simp add: view0_def)
      have "strncasecmp_eq ?r ''SIZE'' 4"
      proof -
        have l4: "length ''SIZE'' = 4" "map to_upper ''SIZE'' = ''SIZE''" by (simp_all add: to_upper_def is_lower_def)
        have "map to_upper (take 4 ?r) = ''SIZE''" using w(1,2) lw by simp
        then show ?thesis using strncasecmp_upper [of "''SIZE''" ?r] l4(2) unfolding l4(1) by simp
      qed
      moreover have "\<not> str_empty (view (dec_string n))" using d(3) view_whole [of "dec_string n"] by (simp add: str_empty_def)
      moreover have "?r \<noteq> []" "4 \<le> length ?r" "r \<noteq> []" using w(1) lw by auto
      ultimately show ?thesis using r p(5) four cast_int_dec [OF n]
        by (auto simp: parse_mail_from_def p(2) Let_def)
    qed
    then show ?thesis using Some p zero snd by auto
  qed
qed

theorem mail_from_spec_witness:
  "fst (parse_mail_from (\<lambda>_. True) (view0 ('': <a@b.cd> size '' @ dec_string 200))) = 200"
proof -
  have len: "length ('': <a@b.cd> size '' @ dec_string 200) < 2 ^ 31" using dec_string_length [of 200] by simp
  have addr: "address_of (\<lambda>_. True) ('': <a@b.cd> size '' @ dec_string 200) = Some (''a@b.cd'', '' size '' @ dec_string 200)"
    by (simp add: address_of_def is_space_def)
  have "dropWhile is_space ('' size '' @ dec_string 200) = ''size'' @ '' '' @ dec_string 200" "list_all is_space '' ''"
    by (simp_all add: is_space_def)
  moreover have "map to_upper ''size'' = ''SIZE''" by code_simp
  moreover have "- (2 ^ 31) \<le> (200 :: int)" "(200 :: int) < 2 ^ 31" by simp_all
  ultimately show ?thesis
    using mail_from_spec [OF len, of "\<lambda>_. True", unfolded addr option.case prod.case,
        THEN conjunct2, THEN conjunct2, THEN spec, THEN spec, THEN spec, THEN mp, of "''size''" "'' ''" 200] by (simp only:)
qed

section \<open>Authentication\<close>

lemma find_view:
  assumes "length t < 2 ^ 32"
  shows "find_char (view t) c = (if c \<in> set t then Some (length (takeWhile (\<lambda>x. x \<noteq> c) t)) else None)"
  using find_char_spec [of "view t" c] view_whole [OF assms] by simp

lemma mech_chars:
  assumes "length w = 5" "map to_upper w = w"
  shows "parse_auth_mechanism (of_view (Some (w @ r)) 5 False) =
    (let m = code4 (w ! 0) (w ! 1) (w ! 2) (w ! 3) in
     Inr (if m = code ''LOGI'' then (if w = ''LOGIN'' then Login else UnknownAuth)
          else if m = code ''PLAI'' then (if w = ''PLAIN'' then Plain else UnknownAuth)
          else UnknownAuth))"
proof -
  obtain a b c d e where w: "w = [a, b, c, d, e]" using assms(1) by (auto simp: length_Suc_conv numeral_eq_Suc)
  have up: "to_upper a = a" "to_upper b = b" "to_upper c = c" "to_upper d = d" "to_upper e = e"
    using assms(2) by (simp_all add: w)
  have word: "compare_igc (of_view (Some (w @ r)) 5 False) v \<longleftrightarrow> w = v"
    if "length v = 5" "NUL \<notin> set v" "map to_upper v = v" for v
    using strncasecmp_upper [OF that(2,3), of "w @ r"] that(1) assms by (simp add: compare_igc_def of_view_def mem_def)
  have words: "compare_igc (of_view (Some (w @ r)) 5 False) ''LOGIN'' \<longleftrightarrow> w = ''LOGIN''"
    "compare_igc (of_view (Some (w @ r)) 5 False) ''PLAIN'' \<longleftrightarrow> w = ''PLAIN''"
    by (rule word; simp add: to_upper_def is_lower_def)+
  have at: "char_at (of_view (Some (w @ r)) 5 False) i = Inr (w ! i)" if "i < 5" for i
    using that assms(1) by (simp add: char_at_def of_view_def mem_def nth_append)
  have "w ! 0 = a" "w ! 1 = b" "w ! 2 = c" "w ! 3 = d" by (simp_all add: w)
  then show ?thesis using words at [of 0] at [of 1] at [of 2] at [of 3] up by (simp add: parse_auth_mechanism_def Let_def)
qed

lemma mech_LOGIN: "parse_auth_mechanism (of_view (Some (''LOGIN'' @ r)) 5 False) = Inr Login"
  using mech_chars [of "''LOGIN''" r] code_eq_string [of "''LOGI''"] by (simp add: to_upper_def is_lower_def Let_def)

lemma mech_PLAIN: "parse_auth_mechanism (of_view (Some (''PLAIN'' @ r)) 5 False) = Inr Plain"
  using mech_chars [of "''PLAIN''" r] code_eq_string [of "''LOGI''"] code_eq_string [of "''PLAI''"]
  by (simp add: to_upper_def is_lower_def Let_def)

text \<open>C31: the argument of \<open>AUTH\<close>. Without a space in it, the missing position counts as found, the
  mechanism comes out empty and its first character is out of bounds: the exception leaves the
  handler, so \<open>AUTH LOGIN\<close> and \<open>AUTH PLAIN\<close> alone end the session. With an initial response
  \<open>LOGIN\<close> takes it as the user name and asks for the password; \<open>PLAIN\<close> answers at once and leaves the
  session where it was, so that even an accepted one does not let the client send mail.\<close>

theorem auth_command_spec:
  assumes "s_state s = ExpectAuth" "0 < length t" "length t < 2 ^ 31"
  shows "(CHR '' '' \<notin> set t \<longrightarrow> start_auth al cx s (view t) = Inl IndexOutOfBounds) \<and>
    start_auth al cx s (view (''LOGIN '' @ t)) =
      Inr (s\<lparr>mechanism := Login, arg0 := t, s_state := AuthExpectPassword\<rparr>, create 334 [password_b64]) \<and>
    start_auth al cx s (view (''PLAIN '' @ t)) =
      rbind (auth_plain al cx (view t)) (\<lambda>r. Inr (s\<lparr>mechanism := Plain\<rparr>, r))"
proof (intro conjI impI)
  have ne: "\<not> str_empty (view t)" if "0 < length t" "length t < 2 ^ 32" for t
    using that by (simp add: str_empty_def)
  show "start_auth al cx s (view t) = Inl IndexOutOfBounds" if "CHR '' '' \<notin> set t"
  proof -
    have "find_char (view t) (CHR '' '') = None" using find_view [of t] that assms(3) by simp
    moreover have "sub64 (length t) 0 = length t" using assms(3) by simp
    then have "substr (view t) 0 npos True = null_str" using assms(3)
      by (simp add: substr_def npos_def Let_def)
    ultimately show ?thesis using assms ne [of t]
      by (simp add: start_auth_def pos_of_def npos_def inc64_def parse_auth_mechanism_def char_at_def null_str_def)
  qed
  have split: "find_char (view (w @ '' '' @ t)) (CHR '' '') = Some 5" "substr (view (w @ '' '' @ t)) 6 0 True = view t"
    "substr (view (w @ '' '' @ t)) 0 5 True = of_view (Some (w @ '' '' @ t)) 5 False"
    if "length w = 5" "CHR '' '' \<notin> set w" for w
  proof -
    have "takeWhile (\<lambda>x. x \<noteq> CHR '' '') (w @ '' '' @ t) = w" using that by (induction w arbitrary: ) (auto simp: takeWhile_append)
    then show "find_char (view (w @ '' '' @ t)) (CHR '' '') = Some 5" using find_view [of "w @ '' '' @ t"] that assms(3) by simp
    show "substr (view (w @ '' '' @ t)) 6 0 True = view t"
      using substr_view [of "w @ '' '' @ t" 6] that assms(2,3) by (simp add: view0_def)
    show "substr (view (w @ '' '' @ t)) 0 5 True = of_view (Some (w @ '' '' @ t)) 5 False"
      using substr_in [of "view (w @ '' '' @ t)" 5 0] view_whole [of "w @ '' '' @ t"] that assms(3) by simp
  qed
  have mech: "parse_auth_mechanism (of_view (Some (''LOGIN'' @ r)) 5 False) = Inr Login"
    "parse_auth_mechanism (of_view (Some (''PLAIN'' @ r)) 5 False) = Inr Plain" for r
    by (rule mech_LOGIN, rule mech_PLAIN)
  show "start_auth al cx s (view (''LOGIN '' @ t)) =
      Inr (s\<lparr>mechanism := Login, arg0 := t, s_state := AuthExpectPassword\<rparr>, create 334 [password_b64])"
    using split [of "''LOGIN''"] mech(1) [of "'' '' @ t"] assms ne [of t] ne [of "''LOGIN '' @ t"] view_whole [of t]
    by (simp add: start_auth_def pos_of_def inc64_def protocol_auth_def next_state_def)
  show "start_auth al cx s (view (''PLAIN '' @ t)) =
      rbind (auth_plain al cx (view t)) (\<lambda>r. Inr (s\<lparr>mechanism := Plain\<rparr>, r))"
    using split [of "''PLAIN''"] mech(2) [of "'' '' @ t"] assms ne [of t] ne [of "''PLAIN '' @ t"]
    by (simp add: start_auth_def pos_of_def inc64_def protocol_auth_def authenticate_user_def)
qed

theorem auth_command_spec_witness:
  "start_auth alloc_any (default_hooks (\<lambda>_. True) []) ((new_session [])\<lparr>s_state := ExpectAuth\<rparr>)
     (view ''PLAIN'') = Inl IndexOutOfBounds"
  using auth_command_spec [of "(new_session [])\<lparr>s_state := ExpectAuth\<rparr>" "''PLAIN''"] by simp

definition b64_text :: "string \<Rightarrow> string" where
  "b64_text t = string_of_bytes (enc_loop (bytes_of_string t))"

lemma b64_decode_text:
  assumes "t \<noteq> []" "length t < 2 ^ 28" "\<forall>k < 2 ^ 32. can_alloc al k"
  shows "b64_decode al (view (b64_text t)) = Inr (of_view (Some t) (length t) True)"
proof -
  let ?xs = "bytes_of_string t"
  let ?e = "enc_loop ?xs"
  have xs: "?xs \<noteq> []" "length ?xs = length t" using assms(1) by (simp_all add: bytes_of_string_def)
  have e: "length ?e = (length t + 2) div 3 * 4" using enc_loop_length [of ?xs] xs by simp
  let ?n = "(length t + 2) div 3 * 3"
  have n: "0 < ?n" "?n < 2 ^ 28 + 2" using assms(1,2) by (cases t; simp)+
  have sz: "u32 (u32 (length ?e div 4) * 3) = ?n" "length ?e < 2 ^ 30" using n e by simp_all
  have alloc: "\<And>k. k < 2 ^ 32 \<Longrightarrow> can_alloc al k" using assms(3) by simp
  have ok0: "buf_ok empty_buffer" "m_offset empty_buffer = 0" "m_size empty_buffer = 0"
    by (simp_all add: buf_ok_def empty_buffer_def)
  have room: "m_size empty_buffer + ?n + 8 < 2 ^ 32" using n(2) ok0(3) by simp
  obtain b where b: "grow al ?n empty_buffer = Inr b" "buf_ok b" "m_offset b = 0" "m_size b = ?n + align8 ?n"
    using grow_ok [OF ok0(1) n(1) room alloc] ok0 by auto
  have new: "new_buffer al ?n = Inr b" using n b(1) by (simp add: new_buffer_def)
  have "length ?xs \<le> length ?e div 4 * 3 + 4" by (rule enc_room)
  moreover have "fits_u32 al b (length ?e div 4 * 3 + 4)"
    using b(4) n e alloc align8_le [of ?n] by (simp add: fits_u32_def)
  moreover have "length ?e < 2 ^ 31" using sz(2) by simp
  ultimately obtain b' where b': "rbind (reserve al (u32 (length ?e div 4 * 3 + 4)) b) (write_front ?xs) = Inr b'"
      "contents b' = ?xs"
    using decode_into [OF b(2,3)] by blast
  have "dec_bytes (?e @ [0]) (length ?e) = Inr ?xs" using dec_bytes_enc [OF xs(1) ends_text_NUL] .
  then have "decode al (?e @ [0]) (length ?e) b = Inr b'" using b'(1) by (simp add: decode_def)
  then have "decode_str al (?e @ [0]) (length ?e) = Inr ?xs"
    using new sz(1) b'(2) by (simp add: decode_str_def)
  moreover have "length (b64_text t) = length ?e" by (simp add: b64_text_def string_of_bytes_def)
  ultimately show ?thesis using sz(2) xs(2) by (simp add: b64_decode_def) (simp add: b64_text_def)
qed

lemma catch_Inr [simp]: "catch (Inr x) h = Inr x"
  by (simp add: catch_def)

text \<open>C32: the credentials of a PLAIN response as clients send it, an empty identity, a user name of at
  least two characters and the password, each after a NUL: the context is asked about the user name without its last
  character and the password with the NUL before it, because the position of the second NUL is
  counted from the user name and used as one from the start.\<close>

theorem plain_credentials:
  assumes "NUL \<notin> set u" "2 \<le> length u" "length u + length p + 2 < 2 ^ 28" "\<forall>k < 2 ^ 32. can_alloc al k"
  shows "\<exists>us pw. text_of us = butlast u \<and> text_of pw = NUL # p \<and>
    auth_plain al cx (view (b64_text (NUL # u @ NUL # p))) =
      catch (onAuthUsernamePasswd cx us pw) (Inr (create 501 [''Cannot decode response'']))"
proof -
  let ?t = "NUL # u @ NUL # p"
  let ?v = "of_view (Some ?t) (length ?t) True"
  let ?us = "of_view (Some (u @ NUL # p)) (length u - 1) False"
  let ?pw = "of_view (Some (NUL # p)) (length (NUL # p)) False"
  have len: "length ?t < 2 ^ 28" using assms(3) by simp
  have dec: "b64_decode al (view (b64_text ?t)) = Inr ?v" using b64_decode_text [of ?t] len assms(4) by blast
  have m: "mem ?v = ?t" "m_len ?v = length ?t" using len by (simp_all add: of_view_def mem_def)
  then have ok: "str_ok ?v" "text_of ?v = ?t" using len by (simp_all add: str_ok_def text_of_def of_view_def mem_def)
  have rest: "substr ?v 1 0 True = view (u @ NUL # p)"
    using substr_rest [OF ok(1), of 1] m len by (simp add: view_def)
  have find: "find_char (view (u @ NUL # p)) NUL = Some (length u)"
  proof -
    have "takeWhile (\<lambda>x. x \<noteq> NUL) (u @ NUL # p) = u" using assms(1) by (induction u) auto
    then show ?thesis using find_view [of "u @ NUL # p" NUL] len by simp
  qed
  have user: "substr ?v 1 (length u - 1) True = ?us"
    using substr_in [OF ok(1), of "length u - 1" 1] assms(2) m by simp
  have pass: "substr ?v (length u + 1) 0 True = ?pw"
    using substr_rest [OF ok(1), of "length u + 1"] m len by simp
  have ne: "\<not> str_empty ?v" "\<not> str_empty ?us" "\<not> str_empty ?pw"
    using len assms(2) by (simp_all add: str_empty_def of_view_def)
  have split: "split_plain ?v = (?us, ?pw)"
    using assms(2) len rest find user pass
    by (auto simp: split_plain_def m(1) pos_of_def inc64_def Let_def)
  have "text_of ?us = butlast u" using assms(2) len
    by (simp add: text_of_def of_view_def mem_def butlast_conv_take)
  moreover have "text_of ?pw = NUL # p" using len by (simp add: text_of_def of_view_def mem_def)
  moreover have "auth_plain al cx (view (b64_text ?t)) =
      catch (onAuthUsernamePasswd cx ?us ?pw) (Inr (create 501 [''Cannot decode response'']))"
    using ne by (simp only: auth_plain_def dec split rbind_simps Let_def prod.case if_False de_Morgan_disj simp_thms)
  ultimately show ?thesis by blast
qed

theorem plain_credentials_witness:
  "\<exists>us pw. text_of us = ''joh'' \<and> text_of pw = NUL # ''secret'' \<and>
    auth_plain alloc_any (default_hooks (\<lambda>_. True) []) (view (b64_text (NUL # ''john'' @ NUL # ''secret''))) =
      catch (onAuthUsernamePasswd (default_hooks (\<lambda>_. True) []) us pw) (Inr (create 501 [''Cannot decode response'']))"
  using plain_credentials [of "''john''" "''secret''" alloc_any] by (simp add: alloc_any_def)

section \<open>Help\<close>

lemma help_never: "help_loop s w = Some r \<Longrightarrow> False"
proof (rule help_loop.raw_induct [of "\<lambda>_ _ _. False" s w r])
  show "False" if "\<And>s w r. loop s w = Some r \<Longrightarrow> False"
      "Option.bind (loop s w) (\<lambda>_. Some (create 214 [''See https://tools.ietf.org/html/rfc5321 for more info''])) = Some r"
    for loop and s :: session and w r
    using that by (auto simp: bind_eq_Some_conv)
qed

text \<open>\<open>HELP\<close> is never answered: the class's own hook calls itself before it builds the reply,
  whatever the argument, and the stack runs out.\<close>

theorem help_never_answers:
  "on_command al (default_hooks valid exts) s Help arg = Inl StackExhausted"
proof -
  have "help_loop s arg = None" using help_never by (cases "help_loop s arg") auto
  then show ?thesis by (simp add: on_command_def default_hooks_def default_help_def)
qed

end
