(* ===== verification/Smtp_Protocol.thy ===== *)
theory Smtp_Protocol
  imports Smtp_Handlers
begin

text \<open>
  The SMTP server protocol of \<open>libs/network/src/smtp/protocol.cpp\<close>: the loop that receives lines and
  data, hands them to the context and sends the replies. The socket is outside the model: what its
  reads give is the list of inputs, and sends succeed. The properties of the SMTP server are here.
\<close>

section \<open>The loop\<close>

datatype input = Got string | TimedOut | Failed

record conn =
  p_state :: proto_state
  sess :: session
  sent :: string

definition reply_with :: "conn \<Rightarrow> session \<Rightarrow> response \<Rightarrow> proto_state \<Rightarrow> conn result" where
  "reply_with c s r st =
     rbind (send_response r) (\<lambda>txt. Inr (c\<lparr>sess := s, sent := sent c @ txt, p_state := st\<rparr>))"

definition receive_command :: "allocator \<Rightarrow> hooks \<Rightarrow> conn \<Rightarrow> input \<Rightarrow> conn result" where
  "receive_command al cx c ev =
     (case ev of
        Failed \<Rightarrow> Inr (c\<lparr>p_state := Abort\<rparr>)
      | TimedOut \<Rightarrow> Inr (c\<lparr>p_state := KeepAliveExceeded\<rparr>)
      | Got t \<Rightarrow>
          let (cmd, arg) = parse_command (view t) in
          rbind (on_command al cx (sess c) cmd arg) (\<lambda>(s, resp).
            reply_with c s resp (if r_abort resp then Abort else proto_next (s_state s))))"

definition receive_line :: "allocator \<Rightarrow> hooks \<Rightarrow> conn \<Rightarrow> input \<Rightarrow> conn result" where
  "receive_line al cx c ev =
     (case ev of
        Failed \<Rightarrow> Inr (c\<lparr>p_state := Abort\<rparr>)
      | TimedOut \<Rightarrow> Inr (c\<lparr>p_state := KeepAliveExceeded\<rparr>)
      | Got t \<Rightarrow>
          rbind (on_line al cx (sess c) (view t)) (\<lambda>(s, resp).
            reply_with c s resp (if r_abort resp then Abort else proto_next (s_state s))))"

text \<open>One round of the loop of \<open>receiveData\<close>, which goes on while the next state is to receive data.\<close>

definition receive_data :: "hooks \<Rightarrow> conn \<Rightarrow> input \<Rightarrow> conn result" where
  "receive_data cx c ev =
     (case ev of
        Failed \<Rightarrow> Inr (c\<lparr>p_state := Abort\<rparr>)
      | TimedOut \<Rightarrow> Inr (c\<lparr>p_state := KeepAliveExceeded\<rparr>)
      | Got d \<Rightarrow>
          rbind (on_data cx (sess c) d) (\<lambda>(s, resp).
            case resp of
              Some r \<Rightarrow> reply_with c s r (proto_next (s_state s))
            | None \<Rightarrow> Inr (c\<lparr>sess := s, p_state := proto_next (s_state s)\<rparr>)))"

definition receive :: "allocator \<Rightarrow> hooks \<Rightarrow> conn \<Rightarrow> input \<Rightarrow> conn result" where
  "receive al cx c ev =
     (case p_state c of
        ExpectCommand \<Rightarrow> receive_command al cx c ev
      | ExpectLine \<Rightarrow> receive_line al cx c ev
      | ReceiveData \<Rightarrow> receive_data cx c ev
      | _ \<Rightarrow> Inr (c\<lparr>p_state := Abort\<rparr>))"

text \<open>The loop of \<open>startSession\<close>; without further input it waits in its state.\<close>

fun run_session :: "allocator \<Rightarrow> hooks \<Rightarrow> conn \<Rightarrow> input list \<Rightarrow> conn result" where
  "run_session al cx c evs =
     (if p_state c = Abort then Inr c
      else if p_state c = KeepAliveExceeded then
        reply_with c (sess c) (abort 0 [[]]) Abort
      else case evs of
        [] \<Rightarrow> Inr c
      | ev # evs' \<Rightarrow> rbind (receive al cx c ev) (\<lambda>c'. run_session al cx c' evs'))"

declare run_session.simps [simp del]

definition start_session :: "allocator \<Rightarrow> hooks \<Rightarrow> bool \<Rightarrow> string \<Rightarrow> string \<Rightarrow> input list \<Rightarrow> conn result" where
  "start_session al cx ready rand ident evs =
     (let c = \<lparr>p_state = Abort, sess = new_session rand, sent = []\<rparr> in
      if \<not> ready then Inr (c\<lparr>sent := ''421 Service not available'' @ CRLF @ CRLF\<rparr>)
      else
        let (cx1, s, resp) = on_connect cx (sess c) ident in
        rbind (reply_with c s resp (proto_next (s_state s))) (\<lambda>c1. run_session al cx1 c1 evs))"

section \<open>What the handlers do to the session state\<close>

lemma catch_Inr_iff:
  "catch r h = Inr x \<longleftrightarrow> r = Inr x \<or> (\<exists>e. r = Inl e \<and> catchable e \<and> h = Inr x)"
  by (cases r) (auto simp: catch_def)

lemma session_states [simp]:
  "s_state (session_reset st s) = st" "s_state (next_state st s) = st"
  "s_from (session_reset st s) = []" "recipients (session_reset st s) = []"
  "s_from (next_state st s) = s_from s" "recipients (next_state st s) = recipients s"
  "s_term (next_state st s) = s_term s" "s_term (session_reset st s) = s_term s"
  by (simp_all add: session_reset_def next_state_def)

lemma start_email_cases:
  assumes "start_email cx s arg = Inr (s', r)"
  shows "recipients s' = recipients s \<and>
    (s_state s' = s_state s \<or> s_state s = ExpectMail \<and> s_state s' = ExpectRecipient \<and> r_code r = 250)"
  using assms
  by (cases "parse_mail_from (validate_address cx) arg")
    (auto simp: start_email_def catch_Inr_iff rbind_Inr_iff Let_def split: option.splits if_splits)

lemma add_recipient_cases:
  assumes "add_recipient cx s arg = Inr (s', r)"
  shows "s_state s' = s_state s \<and> (recipients s' = recipients s \<or> (\<exists>a. recipients s' = recipients s @ [a]))"
  using assms
  by (cases "extract_email (validate_address cx) arg null_str")
    (auto simp: add_recipient_def catch_Inr_iff rbind_Inr_iff Let_def split: option.splits if_splits)

lemma start_data_cases:
  assumes "start_data cx s arg = Inr (s', r)"
  shows "recipients s' = recipients s \<and>
    (s_state s' = s_state s \<or> s_state s = ExpectRecipient \<and> s_state s' = ExpectData \<and> r_code r = 354)"
  using assms
  by (auto simp: start_data_def catch_Inr_iff rbind_Inr_iff split: option.splits if_splits)

lemma start_auth_cases:
  assumes "start_auth al cx s arg = Inr (s', r)"
  shows "recipients s' = recipients s \<and>
    (s_state s' = s_state s \<or> s_state s = ExpectAuth \<and> s_state s' \<in> {AuthExpectUsername, AuthExpectPassword})"
  using assms
  by (auto simp: start_auth_def protocol_auth_def rbind_Inr_iff Let_def split_def
      split: option.splits if_splits auth_mechanism.splits)

lemma hello_cases:
  "s_state (fst (hello cx s d e)) \<in> {Quit, s_state s} \<or>
   s_state s = ExpectHello \<and> s_state (fst (hello cx s d e)) = ExpectAuth"
  by (auto simp: hello_def Let_def)

lemma hello_recipients: "recipients (fst (hello cx s d e)) \<in> {recipients s, []}"
  by (auto simp: hello_def Let_def)

lemma quit_cases: "s_state (fst (quit s a)) \<in> {Quit, s_state s}" "recipients (fst (quit s a)) \<in> {recipients s, []}"
  by (auto simp: quit_def)

lemma reset_cases: "s_state (fst (reset s)) = s_state s" "recipients (fst (reset s)) = []"
  by (auto simp: reset_def)

text \<open>The moves a command can make, and what one can do to the recipients.\<close>

inductive command_move :: "state \<Rightarrow> state \<Rightarrow> bool" where
  stay: "command_move a a"
| close: "command_move a Quit"
| greet: "command_move ExpectHello ExpectAuth"
| auth: "command_move ExpectAuth AuthExpectUsername"
| auth_arg: "command_move ExpectAuth AuthExpectPassword"
| mail: "command_move ExpectMail ExpectRecipient"
| data: "command_move ExpectRecipient ExpectData"

definition recipients_move :: "string list \<Rightarrow> string list \<Rightarrow> bool" where
  "recipients_move xs ys \<longleftrightarrow> ys = xs \<or> ys = [] \<or> (\<exists>a. ys = xs @ [a])"

lemma on_command_moves:
  assumes "on_command al cx s cmd arg = Inr (s', r)"
  shows "command_move (s_state s) (s_state s') \<and> recipients_move (recipients s) (recipients s')"
proof (cases cmd)
  case Hello
  then show ?thesis using assms hello_cases [of cx s arg False] hello_recipients [of cx s arg False]
    by (auto simp: on_command_def recipients_move_def intro: command_move.intros)
next
  case EHello
  then show ?thesis using assms hello_cases [of cx s arg True] hello_recipients [of cx s arg True]
    by (auto simp: on_command_def recipients_move_def intro: command_move.intros)
next
  case QuitCmd
  then show ?thesis using assms quit_cases [of s arg]
    by (auto simp: on_command_def recipients_move_def intro: command_move.intros)
next
  case Reset
  then show ?thesis using assms reset_cases [of s]
    by (auto simp: on_command_def recipients_move_def intro: command_move.intros)
next
  case Auth
  then show ?thesis using assms start_auth_cases [of al cx s arg s' r]
    by (auto simp: on_command_def recipients_move_def intro: command_move.intros)
next
  case MailFrom
  then show ?thesis using assms start_email_cases [of cx s arg s' r]
    by (auto simp: on_command_def recipients_move_def intro: command_move.intros)
next
  case RcptTo
  then show ?thesis using assms add_recipient_cases [of cx s arg s' r]
    by (auto simp: on_command_def recipients_move_def intro: command_move.intros)
next
  case Data
  then show ?thesis using assms start_data_cases [of cx s arg s' r]
    by (auto simp: on_command_def recipients_move_def intro: command_move.intros)
next
  case BData
  then show ?thesis using assms start_data_cases [of cx s arg s' r]
    by (auto simp: on_command_def recipients_move_def intro: command_move.intros)
qed (use assms in \<open>auto simp: on_command_def recipients_move_def rbind_Inr_iff intro: command_move.intros\<close>)

lemma on_line_moves:
  assumes "on_line al cx s line = Inr (s', r)"
  shows "recipients s' = recipients s \<and>
    (s_state s' = s_state s \<and> s_state s \<notin> {AuthExpectUsername, AuthExpectPassword} \<or>
     s_state s = AuthExpectUsername \<and> s_state s' = AuthExpectPassword \<or>
     s_state s = AuthExpectPassword \<and> s_state s' = (if r_code r = 235 then ExpectMail else ExpectAuth) \<and>
       authenticate_user al cx (mechanism s) (lit (arg0 s)) line = Inr r)"
  using assms by (auto simp: on_line_def rbind_Inr_iff split: if_splits)

lemma is_termination_fields [simp]:
  "s_state (fst (is_termination s d)) = s_state s" "recipients (fst (is_termination s d)) = recipients s"
  by (simp_all add: is_termination_def Let_def)

lemma on_data_moves:
  assumes "on_data cx s d = Inr (s', r)"
  shows "recipients s' = recipients s \<and>
    (s_state s' = s_state s \<or> s_state s = ExpectData \<and> s_state s' = ExpectMail \<and> snd (is_termination s d))"
  using assms is_termination_fields [of s d]
  by (cases "is_termination s d")
    (auto simp: on_data_def catch_Inr_iff rbind_Inr_iff Let_def split: option.splits if_splits)

section \<open>Reachable connections\<close>

inductive reach :: "allocator \<Rightarrow> hooks \<Rightarrow> conn \<Rightarrow> bool" for al :: allocator and cx :: hooks where
  start: "s_state (sess c) = ExpectHello \<Longrightarrow> recipients (sess c) = [] \<Longrightarrow> p_state c = ExpectCommand \<Longrightarrow> reach al cx c"
| step: "reach al cx c \<Longrightarrow> receive al cx c ev = Inr c' \<Longrightarrow> reach al cx c'"
| expire: "reach al cx c \<Longrightarrow> reply_with c (sess c) (abort 0 [[]]) Abort = Inr c' \<Longrightarrow> reach al cx c'"

lemma reply_with_Inr:
  "reply_with c s r st = Inr c' \<Longrightarrow> sess c' = s \<and> p_state c' = st"
  by (auto simp: reply_with_def rbind_Inr_iff)

lemma run_session_reach: "run_session al cx c evs = Inr c' \<Longrightarrow> reach al cx c \<Longrightarrow> reach al cx c'"
proof (induction al cx c evs rule: run_session.induct)
  case (1 al cx c evs)
  then show ?case
    by (subst (asm) run_session.simps)
      (auto simp: rbind_Inr_iff split: if_splits list.splits intro: reach.step reach.expire)
qed

lemma start_session_reach:
  assumes "start_session al cx True rand ident evs = Inr c"
  shows "reach al (fst (on_connect cx (new_session rand) ident)) c"
proof -
  obtain c1 where c1: "reply_with \<lparr>p_state = Abort, sess = new_session rand, sent = []\<rparr> ((new_session rand)\<lparr>sid := ident\<rparr>)
        (create 220 [hostname cx @ '' SMTP '' @ ident]) ExpectCommand = Inr c1"
      "run_session al (fst (on_connect cx (new_session rand) ident)) c1 evs = Inr c"
    using assms by (auto simp: start_session_def on_connect_def rbind_Inr_iff new_session_def)
  then show ?thesis
    using reply_with_Inr [OF c1(1)] by (intro run_session_reach [OF c1(2)] reach.start) (simp_all add: new_session_def)
qed

text \<open>One step, with the handler that took it.\<close>

lemma receive_cases:
  assumes "receive al cx c ev = Inr c'"
  obtains (stop) "sess c' = sess c" "p_state c' \<in> {Abort, KeepAliveExceeded}"
  | (command) t r where "p_state c = ExpectCommand"
      "on_command al cx (sess c) (fst (parse_command (view t))) (snd (parse_command (view t))) = Inr (sess c', r)"
      "p_state c' = (if r_abort r then Abort else proto_next (s_state (sess c')))"
  | (line) t r where "p_state c = ExpectLine" "on_line al cx (sess c) (view t) = Inr (sess c', r)"
      "p_state c' = (if r_abort r then Abort else proto_next (s_state (sess c')))"
  | (data) d r where "p_state c = ReceiveData" "on_data cx (sess c) d = Inr (sess c', r)"
      "p_state c' = proto_next (s_state (sess c'))"
proof (cases "p_state c")
  case ExpectCommand
  show ?thesis
  proof (cases ev)
    case (Got t)
    obtain cmd arg where p: "parse_command (view t) = (cmd, arg)" by fastforce
    then obtain s r where r: "on_command al cx (sess c) cmd arg = Inr (s, r)"
        "reply_with c s r (if r_abort r then Abort else proto_next (s_state s)) = Inr c'"
      using assms ExpectCommand Got by (auto simp: receive_def receive_command_def rbind_Inr_iff)
    show ?thesis using command [OF ExpectCommand, of t r] r(1) p reply_with_Inr [OF r(2)] by simp
  qed (use assms stop ExpectCommand in \<open>auto simp: receive_def receive_command_def\<close>)
next
  case ExpectLine
  then show ?thesis using assms stop line
    by (cases ev) (auto simp: receive_def receive_line_def rbind_Inr_iff dest!: reply_with_Inr)
next
  case ReceiveData
  then show ?thesis using assms stop data
    by (cases ev) (auto simp: receive_def receive_data_def rbind_Inr_iff split: option.splits dest!: reply_with_Inr)
qed (use assms stop in \<open>auto simp: receive_def\<close>)

section \<open>Properties\<close>



lemma parse_word:
  assumes "length t < 2 ^ 32" "command_of t = (cmd, a)"
  shows "\<exists>arg. parse_command (view t) = (cmd, arg) \<and> text_of arg = a"
  using parse_command_table [OF assms(1)] assms(2) by (cases "parse_command (view t)") simp

lemma command_noop: "command_of ''noop'' = (Noop, [])"
  by code_simp

lemma receive_noop:
  assumes "p_state c = ExpectCommand"
  shows "receive al cx c (Got ''noop'') = Inr (c\<lparr>sent := sent c @ ''250 OK'' @ CRLF, p_state := proto_next (s_state (sess c))\<rparr>)"
proof -
  have len: "length ''noop'' < 2 ^ 32" by simp
  obtain arg where "parse_command (view ''noop'') = (Noop, arg)"
    using parse_word [OF len command_noop] by blast
  moreover have "send_response noop = Inr (''250 OK'' @ CRLF)" by code_simp
  moreover have "\<not> r_abort noop" by code_simp
  ultimately show ?thesis using assms
    by (simp add: receive_def receive_command_def on_command_def reply_with_def)
qed


definition mail_state :: "state \<Rightarrow> bool" where
  "mail_state st \<longleftrightarrow> st \<in> {ExpectMail, ExpectRecipient, ExpectData}"

definition denies :: "hooks \<Rightarrow> bool" where
  "denies cx \<longleftrightarrow>
     (\<forall>u p r. onAuthUsernamePasswd cx u p = Inr r \<longrightarrow> r_code r \<noteq> 235) \<and>
     (\<forall>t r. onAuthOAuthBearer cx t = Inr r \<longrightarrow> r_code r \<noteq> 235) \<and>
     (\<forall>t r. onAuthPlainToken cx t = Inr r \<longrightarrow> r_code r \<noteq> 235)"

text \<open>C8: mail needs authentication: with hooks that never answer 235, no session ever reaches the
  states that take a sender, recipients or a message, whatever the client sends.\<close>

theorem mail_needs_authentication:
  assumes "denies cx" "start_session al cx True rand ident evs = Inr c"
  shows "\<not> mail_state (s_state (sess c))"
proof -
  let ?cx = "fst (on_connect cx (new_session rand) ident)"
  have d: "denies ?cx" using assms(1) by (simp add: denies_def on_connect_def)
  then have deny: "r_code r \<noteq> 235" if "authenticate_user al ?cx m a b = Inr r" for m a b r
    using that
    by (auto simp: denies_def authenticate_user_def auth_login_def auth_plain_def catch_Inr_iff rbind_Inr_iff
        plain_rejected_def auth_not_supported_def create_def Let_def split: auth_mechanism.splits if_splits prod.splits)
  have "reach al ?cx c" using start_session_reach [OF assms(2)] .
  then show ?thesis
  proof (induction rule: reach.induct)
    case (step c ev c')
    from step.hyps(2) show ?case
    proof (cases rule: receive_cases)
      case (command t r)
      then show ?thesis using step.IH on_command_moves [OF command(2)]
        by (auto simp: mail_state_def elim: command_move.cases)
    next
      case (line t r)
      then show ?thesis using step.IH on_line_moves [OF line(2)] deny
        by (auto simp: mail_state_def split: if_splits)
    next
      case (data d r)
      then show ?thesis using step.IH on_data_moves [OF data(2)] by (auto simp: mail_state_def)
    qed (use step.IH in simp)
  next
    case (expire c c')
    then show ?case using reply_with_Inr by auto
  qed (simp add: mail_state_def)
qed

theorem mail_needs_authentication_witness:
  "\<exists>c. start_session alloc_any ((default_hooks (\<lambda>_. True) [])\<lparr>onAuthUsernamePasswd := \<lambda>_ _. Inr (create 535 [''No''])\<rparr>)
      True [] ''ab'' [Got ''noop''] = Inr c \<and> \<not> mail_state (s_state (sess c))"
proof -
  let ?cx = "(default_hooks (\<lambda>_. True) [])\<lparr>onAuthUsernamePasswd := \<lambda>_ _. Inr (create 535 [''No''])\<rparr>"
  have d: "denies ?cx" by (simp add: denies_def default_hooks_def create_def auth_not_supported_def)
  have "\<exists>c. start_session alloc_any ?cx True [] ''ab'' [Got ''noop''] = Inr c"
    by (simp add: start_session_def on_connect_def reply_with_def send_response_def create_def new_session_def
        run_session.simps receive_noop)
  then obtain c where c: "start_session alloc_any ?cx True [] ''ab'' [Got ''noop''] = Inr c" by blast
  then show ?thesis using mail_needs_authentication [OF d c] by blast
qed

text \<open>C34: \<open>QUIT\<close>, in any case, ends a session wherever a command is expected: the reply is 221, and
  whatever else the client has sent is not read.\<close>

theorem quit_ends_session:
  assumes "p_state c = ExpectCommand" "map to_upper t = ''QUIT''"
  shows "run_session al cx c (Got t # evs) =
    Inr (c\<lparr>sess := next_state Quit (session_reset ExpectHello (sess c)),
           sent := sent c @ ''221 Closing connection! goodbye'' @ CRLF, p_state := Abort\<rparr>)"
proof -
  have len: "length t = 4" using arg_cong [OF assms(2), of length] by simp
  then have cmd: "command_of t = (QuitCmd, [])"
    using assms(2) by (simp add: command_of_def verbs_def)
  obtain arg where arg: "parse_command (view t) = (QuitCmd, arg)" "text_of arg = []"
    using parse_word [OF _ cmd] len by auto
  have "send_response (create 221 [''Closing connection! goodbye'']) = Inr (''221 Closing connection! goodbye'' @ CRLF)"
    by code_simp
  moreover have "str_empty arg" using parse_command_arg [of t] arg len by simp
  ultimately have "receive al cx c (Got t) =
    Inr (c\<lparr>sess := next_state Quit (session_reset ExpectHello (sess c)),
           sent := sent c @ ''221 Closing connection! goodbye'' @ CRLF, p_state := Abort\<rparr>)"
    using assms(1) arg
    by (simp add: receive_def receive_command_def on_command_def quit_def reply_with_def create_def)
  then show ?thesis using assms(1) by (simp add: run_session.simps)
qed

theorem quit_ends_session_witness:
  "run_session alloc_any (default_hooks (\<lambda>_. True) []) \<lparr>p_state = ExpectCommand, sess = new_session [], sent = []\<rparr> [Got ''Quit'', Got ''noop''] =
    Inr \<lparr>p_state = Abort, sess = next_state Quit (session_reset ExpectHello (new_session [])),
           sent = ''221 Closing connection! goodbye'' @ CRLF\<rparr>"
proof -
  have "map to_upper ''Quit'' = ''QUIT''" by code_simp
  then show ?thesis
    using quit_ends_session [of "\<lparr>p_state = ExpectCommand, sess = new_session [], sent = []\<rparr>" "''Quit''"] by simp
qed

text \<open>C35: the recipients of a message are still there in the next one: neither the end of the
  message nor \<open>MAIL FROM\<close> clears them, and behind a new \<open>RCPT TO\<close> they still stand first in the list.\<close>

theorem recipients_survive:
  assumes "on_data cx s d = Inr (s1, r1)" "start_email cx s1 a = Inr (s2, r2)" "add_recipient cx s2 b = Inr (s3, r3)"
  shows "recipients s2 = recipients s \<and> take (length (recipients s)) (recipients s3) = recipients s"
  using on_data_moves [OF assms(1)] start_email_cases [OF assms(2)] add_recipient_cases [OF assms(3)] by auto

lemma extract_plain:
  assumes "address_of valid t = Some (a, [])" "length t < 2 ^ 32"
  shows "\<exists>addr. extract_email valid (view0 t) null_str = (null_str, addr) \<and> text_of addr = a \<and> \<not> str_empty addr"
proof -
  have "\<not> str_empty x" if "text_of x \<noteq> []" for x
    using that by (auto simp: str_empty_def text_of_def mem_def split: option.splits)
  then show ?thesis using extract_email_spec [OF assms(2), of valid] assms(1) by (auto simp: view0_def)
qed

theorem recipients_survive_witness:
  "\<exists>s1 r1 s2 r2 s3 r3.
     on_data (default_hooks (\<lambda>_. True) [])
       ((new_session [])\<lparr>s_state := ExpectData, s_term := CHR ''x'' # CRLF @ [CHR ''.'', CHR 0x0D], recipients := [''a@b.cd'']\<rparr>)
       [CHR 0x0A] = Inr (s1, r1) \<and> s_state s1 = ExpectMail \<and>
     start_email (default_hooks (\<lambda>_. True) []) s1 (view0 '': <q@b.cd>'') = Inr (s2, r2) \<and>
     add_recipient (default_hooks (\<lambda>_. True) []) s2 (view0 '': <z@b.cd>'') = Inr (s3, r3) \<and>
     take 1 (recipients s3) = [''a@b.cd'']"
proof -
  let ?cx = "default_hooks (\<lambda>_. True) []"
  let ?s = "(new_session [])\<lparr>s_state := ExpectData, s_term := CHR ''x'' # CRLF @ [CHR ''.'', CHR 0x0D], recipients := [''a@b.cd'']\<rparr>"
  have "snd (is_termination ?s [CHR 0x0A])" by (simp add: is_termination_def CRLF_def)
  then obtain s1 r1 where 1: "on_data ?cx ?s [CHR 0x0A] = Inr (s1, r1)" "s_state s1 = ExpectMail"
    by (cases "is_termination ?s [CHR 0x0A]") (auto simp: on_data_def default_hooks_def)
  have q: "address_of (\<lambda>_. True) '': <q@b.cd>'' = Some (''q@b.cd'', [])" "address_of (\<lambda>_. True) '': <z@b.cd>'' = Some (''z@b.cd'', [])"
    by (simp_all add: address_of_def is_space_def)
  obtain x where x: "extract_email (\<lambda>_. True) (view0 '': <q@b.cd>'') null_str = (null_str, x)" "\<not> str_empty x"
    using extract_plain [OF q(1)] by auto
  obtain y where y: "extract_email (\<lambda>_. True) (view0 '': <z@b.cd>'') null_str = (null_str, y)"
    using extract_plain [OF q(2)] by auto
  have null: "str_empty null_str" by (simp add: null_str_def str_empty_def)
  obtain s2 r2 where 2: "start_email ?cx s1 (view0 '': <q@b.cd>'') = Inr (s2, r2)" "s_state s2 = ExpectRecipient"
    using x 1(2) null by (auto simp: start_email_def parse_mail_from_def default_hooks_def create_def)
  obtain s3 r3 where 3: "add_recipient ?cx s2 (view0 '': <z@b.cd>'') = Inr (s3, r3)"
    using y 2(2) null by (auto simp: add_recipient_def default_hooks_def)
  have "take 1 (recipients s3) = [''a@b.cd'']" using recipients_survive [OF 1(1) 2(1) 3] by simp
  then show ?thesis using 1 2(1) 3 by blast
qed

end
