(* ===== verification/Route_Trie.thy ===== *)
theory Route_Trie
  imports Suil_Prelude
begin

text \<open>
  The route trie of the HTTP server, \<open>libs/http/src/server/trie.cpp\<close>, with the parameter containers of
  \<open>crow.hpp\<close>: an array of nodes that refer to each other by index, 0 for none; \<open>add\<close> enters a rule,
  \<open>find\<close> looks a URL up, \<open>optimize\<close> joins fragments and renumbers the nodes. The children of a node are
  a list in the order the hash map would give them. What \<open>strtod\<close> makes of a number it has accepted is
  a parameter, \<open>None\<close> for \<open>ERANGE\<close>; which characters it accepts is defined here.
\<close>

section \<open>Nodes\<close>

datatype param_type = TInt | TUint | TDouble | TString | TPath

fun type_index :: "param_type \<Rightarrow> nat" where
  "type_index TInt = 0"
| "type_index TUint = 1"
| "type_index TDouble = 2"
| "type_index TString = 3"
| "type_index TPath = 4"

definition all_types :: "param_type list" where
  "all_types = [TInt, TUint, TDouble, TString, TPath]"

record node =
  n_index :: nat
  param_children :: "nat list"
  children :: "(string \<times> nat) list"

definition new_node :: node where
  "new_node = \<lparr>n_index = 0, param_children = [0, 0, 0, 0, 0], children = []\<rparr>"

definition new_trie :: "node list" where
  "new_trie = [new_node]"

definition is_simple :: "node \<Rightarrow> bool" where
  "is_simple n \<longleftrightarrow> n_index n = 0 \<and> list_all (\<lambda>x. x = 0) (param_children n)"

section \<open>Adding a rule\<close>

definition param_traits :: "(param_type \<times> string) list" where
  "param_traits =
     [(TInt, ''{int}''), (TUint, ''{uint}''), (TDouble, ''{float}''), (TDouble, ''{double}''),
      (TString, ''{str}''), (TString, ''{string}''), (TPath, ''{path}'')]"

text \<open>The first of the table that the rest of the rule begins with, and its length.\<close>

definition trait_at :: "string \<Rightarrow> (param_type \<times> nat) option" where
  "trait_at s =
     map_option (\<lambda>(t, name). (t, length name)) (List.find (\<lambda>(t, name). take (length name) s = name) param_traits)"

definition param_child :: "node list \<Rightarrow> nat \<Rightarrow> param_type \<Rightarrow> node list \<times> nat" where
  "param_child nodes idx t =
     (let j = param_children (nodes ! idx) ! type_index t in
      if j = 0 then
        let nidx = length nodes in
        (nodes[idx := (nodes ! idx)\<lparr>param_children := (param_children (nodes ! idx))[type_index t := nidx]\<rparr>] @ [new_node], nidx)
      else (nodes, j))"

definition piece_child :: "node list \<Rightarrow> nat \<Rightarrow> string \<Rightarrow> node list \<times> nat" where
  "piece_child nodes idx piece =
     (case map_of (children (nodes ! idx)) piece of
        None \<Rightarrow>
          let nidx = length nodes in
          (nodes[idx := (nodes ! idx)\<lparr>children := children (nodes ! idx) @ [(piece, nidx)]\<rparr>] @ [new_node], nidx)
      | Some j \<Rightarrow> (nodes, j))"

text \<open>A brace that opens no known parameter is skipped.\<close>

function add_loop :: "node list \<Rightarrow> nat \<Rightarrow> string \<Rightarrow> node list \<times> nat" where
  "add_loop nodes idx [] = (nodes, idx)"
| "add_loop nodes idx (c # cs) =
     (if c = CHR ''{'' then
        (case trait_at (c # cs) of
           None \<Rightarrow> add_loop nodes idx cs
         | Some (t, n) \<Rightarrow>
             let (nodes1, j) = param_child nodes idx t in add_loop nodes1 j (drop (n - 1) cs))
      else
        let (nodes1, j) = piece_child nodes idx [c] in add_loop nodes1 j cs)"
  by pat_completeness auto
termination by (relation "measure (\<lambda>(nodes, idx, s). length s)") auto

text \<open>The nodes made on the way stay when the rule turns out to be registered already.\<close>

definition add :: "node list \<Rightarrow> string \<Rightarrow> nat \<Rightarrow> unit result \<times> node list" where
  "add nodes url index =
     (let (nodes1, idx) = add_loop nodes 0 url in
      if n_index (nodes1 ! idx) \<noteq> 0 then (Inl InvalidArguments, nodes1)
      else (Inr (), nodes1[idx := (nodes1 ! idx)\<lparr>n_index := index\<rparr>]))"

section \<open>Numbers\<close>

definition dec_value :: "string \<Rightarrow> int" where
  "dec_value ds = foldl (\<lambda>v c. 10 * v + (int (ord c) - 48)) 0 ds"

text \<open>\<open>strtoll\<close> and \<open>strtoull\<close> from a sign or a digit on: the value and how many characters were taken,
  none when no digit follows.\<close>

definition strtoi :: "string \<Rightarrow> int \<times> nat" where
  "strtoi s =
     (let sg = (if cur s = CHR ''+'' \<or> cur s = CHR ''-'' then 1 else 0);
          ds = takeWhile is_digit (drop sg s)
      in if ds = [] then (0, 0)
         else (if cur s = CHR ''-'' then - dec_value ds else dec_value ds, sg + length ds))"

text \<open>How many characters of an exponent, of digits with a point in them, and of a whole number
  \<open>strtod\<close> takes: decimal, hexadecimal, infinity or not a number.\<close>

definition exponent_len :: "char \<Rightarrow> string \<Rightarrow> nat" where
  "exponent_len e s =
     (if to_lower (cur s) = e then
        let t = tl s; sg = (if cur t = CHR ''+'' \<or> cur t = CHR ''-'' then 1 else 0);
            n = length (takeWhile is_digit (drop sg t))
        in if n = 0 then 0 else 1 + sg + n
      else 0)"

definition mantissa_len :: "(char \<Rightarrow> bool) \<Rightarrow> string \<Rightarrow> nat" where
  "mantissa_len dig s =
     (let n = length (takeWhile dig s); r = drop n s in
      if cur r = CHR ''.'' then
        let m = length (takeWhile dig (tl r)) in if n + m = 0 then 0 else n + 1 + m
      else n)"

definition starts_igc :: "string \<Rightarrow> string \<Rightarrow> bool" where
  "starts_igc w s \<longleftrightarrow> map to_lower (take (length w) s) = w"

definition unsigned_float_len :: "string \<Rightarrow> nat" where
  "unsigned_float_len s =
     (if starts_igc ''infinity'' s then 8
      else if starts_igc ''inf'' s then 3
      else if starts_igc ''nan'' s then
        (let r = drop 3 s; n = length (takeWhile (\<lambda>c. is_alnum c \<or> c = CHR ''_'') (tl r)) in
         if cur r = CHR ''('' \<and> cur (drop n (tl r)) = CHR '')'' then 3 + n + 2 else 3)
      else if starts_igc ''0x'' s \<and> mantissa_len is_xdigit (drop 2 s) \<noteq> 0 then
        (let n = mantissa_len is_xdigit (drop 2 s) in 2 + n + exponent_len (CHR ''p'') (drop (2 + n) s))
      else
        (let n = mantissa_len is_digit s in
         if n = 0 then 0 else n + exponent_len (CHR ''e'') (drop n s)))"

definition float_len :: "string \<Rightarrow> nat" where
  "float_len s =
     (let sg = (if cur s = CHR ''+'' \<or> cur s = CHR ''-'' then 1 else 0);
          n = unsigned_float_len (drop sg s)
      in if n = 0 then 0 else sg + n)"

section \<open>Parameters\<close>

datatype 'd pvalue = PInt int | PUint int | PDouble 'd | PString string

record 'd routing_params =
  int_params :: "int list"
  uint_params :: "int list"
  double_params :: "'d list"
  string_params :: "string list"

definition no_params :: "'d routing_params" where
  "no_params = \<lparr>int_params = [], uint_params = [], double_params = [], string_params = []\<rparr>"

text \<open>The capacity is an eight-bit number that is doubled: from 128 it becomes 0, and the next
  parameter is written to memory that was given back.\<close>

definition grow_push :: "'a list \<Rightarrow> 'a \<Rightarrow> 'a list result" where
  "grow_push xs x = (if length xs = 128 then Inl OutOfBoundsWrite else Inr (xs @ [x]))"

fun push_param :: "'d pvalue \<Rightarrow> 'd routing_params \<Rightarrow> 'd routing_params result" where
  "push_param (PInt v) p = rbind (grow_push (int_params p) v) (\<lambda>xs. Inr (p\<lparr>int_params := xs\<rparr>))"
| "push_param (PUint v) p = rbind (grow_push (uint_params p) v) (\<lambda>xs. Inr (p\<lparr>uint_params := xs\<rparr>))"
| "push_param (PDouble v) p = rbind (grow_push (double_params p) v) (\<lambda>xs. Inr (p\<lparr>double_params := xs\<rparr>))"
| "push_param (PString v) p = rbind (grow_push (string_params p) v) (\<lambda>xs. Inr (p\<lparr>string_params := xs\<rparr>))"

fun pop_param :: "'d pvalue \<Rightarrow> 'd routing_params \<Rightarrow> 'd routing_params" where
  "pop_param (PInt _) p = p\<lparr>int_params := butlast (int_params p)\<rparr>"
| "pop_param (PUint _) p = p\<lparr>uint_params := butlast (uint_params p)\<rparr>"
| "pop_param (PDouble _) p = p\<lparr>double_params := butlast (double_params p)\<rparr>"
| "pop_param (PString _) p = p\<lparr>string_params := butlast (string_params p)\<rparr>"

section \<open>Looking a URL up\<close>

text \<open>What a parameter takes from the rest of the URL, which is not empty, and how many characters:
  \<open>after\<close> is the memory behind the URL, which the number readers do not stop at.\<close>

fun read_param :: "(string \<Rightarrow> 'd option) \<Rightarrow> string \<Rightarrow> param_type \<Rightarrow> string \<Rightarrow> ('d pvalue \<times> nat) option" where
  "read_param num after TInt s =
     (let c = cur s in
      if is_digit c \<or> c = CHR ''+'' \<or> c = CHR ''-'' then
        (let (v, n) = strtoi (s @ after) in
         if - (2 ^ 63) \<le> v \<and> v < 2 ^ 63 \<and> n \<noteq> 0 then Some (PInt v, n) else None)
      else None)"
| "read_param num after TUint s =
     (let c = cur s in
      if is_digit c \<or> c = CHR ''+'' then
        (let (v, n) = strtoi (s @ after) in
         if v < 2 ^ 64 \<and> n \<noteq> 0 then Some (PUint v, n) else None)
      else None)"
| "read_param num after TDouble s =
     (let c = cur s in
      if is_digit c \<or> c = CHR ''+'' \<or> c = CHR ''-'' \<or> c = CHR ''.'' then
        (let n = float_len (s @ after) in
         if n = 0 then None else map_option (\<lambda>v. (PDouble v, n)) (num (take n (s @ after))))
      else None)"
| "read_param num after TString s =
     (let n = length (takeWhile (\<lambda>c. c \<noteq> CHR ''/'') s) in
      if n \<noteq> 0 then Some (PString (take n s), n) else None)"
| "read_param num after TPath s = (if length s \<noteq> 0 then Some (PString s, length s) else None)"

type_synonym 'd found = "nat \<times> 'd routing_params"

text \<open>\<open>updateFound\<close>: the smallest index wins.\<close>

definition update_found :: "'d found \<Rightarrow> 'd found \<Rightarrow> 'd found" where
  "update_found ret best = (if fst ret \<noteq> 0 \<and> (fst best = 0 \<or> fst best > fst ret) then ret else best)"

type_synonym 'd search = "string \<Rightarrow> nat \<Rightarrow> 'd routing_params \<Rightarrow> ('d found \<times> 'd routing_params) result"

text \<open>The state of a search is the best result so far and the parameters, which the recursive calls
  change in place. A number that ends behind the URL leaves the position outside it.\<close>

definition try_param ::
  "(string \<Rightarrow> 'd option) \<Rightarrow> string \<Rightarrow> 'd search \<Rightarrow> node \<Rightarrow> string \<Rightarrow> param_type \<Rightarrow>
   'd found \<times> 'd routing_params \<Rightarrow> ('d found \<times> 'd routing_params) result" where
  "try_param num after search n s t st =
     (let j = param_children n ! type_index t in
      if j = 0 then Inr st
      else case read_param num after t s of
          None \<Rightarrow> Inr st
        | Some (v, k) \<Rightarrow>
            if k > length s then Inl OutOfBoundsRead
            else
              rbind (push_param v (snd st)) (\<lambda>p.
              rbind (search (drop k s) j p) (\<lambda>(ret, p').
              Inr (update_found ret (fst st), pop_param v p'))))"

definition try_child ::
  "'d search \<Rightarrow> string \<Rightarrow> string \<times> nat \<Rightarrow>
   'd found \<times> 'd routing_params \<Rightarrow> ('d found \<times> 'd routing_params) result" where
  "try_child search s e st =
     (if take (length (fst e)) s = fst e then
        rbind (search (drop (length (fst e)) s) (snd e) (snd st)) (\<lambda>(ret, p).
        Inr (update_found ret (fst st), p))
      else Inr st)"

fun foldr_res :: "('a \<Rightarrow> 's \<Rightarrow> 's result) \<Rightarrow> 'a list \<Rightarrow> 's \<Rightarrow> 's result" where
  "foldr_res f [] s = Inr s"
| "foldr_res f (x # xs) s = rbind (f x s) (foldr_res f xs)"

text \<open>The result at the end of the URL takes the parameters with it. The fuel bounds the depth of the
  recursion.\<close>

primrec find_at :: "(string \<Rightarrow> 'd option) \<Rightarrow> string \<Rightarrow> node list \<Rightarrow> nat \<Rightarrow> 'd search" where
  "find_at num after nodes 0 s i p = Inl StackExhausted"
| "find_at num after nodes (Suc f) s i p =
     (if length nodes \<le> i then Inl OutOfBoundsRead
      else if s = [] then Inr ((n_index (nodes ! i), p), no_params)
      else
        rbind (foldr_res (try_param num after (find_at num after nodes f) (nodes ! i) s) all_types ((0, no_params), p))
          (foldr_res (try_child (find_at num after nodes f) s) (children (nodes ! i))))"

definition find_route :: "(string \<Rightarrow> 'd option) \<Rightarrow> string \<Rightarrow> node list \<Rightarrow> string \<Rightarrow> 'd found result" where
  "find_route num after nodes url =
     rbind (find_at num after nodes (Suc (length url)) url 0 no_params) (\<lambda>(ret, p). Inr ret)"

section \<open>Optimizing\<close>

text \<open>\<open>merged\<close> maps the joined fragments to the grandchildren; they are distinct, as the fragments
  of a node are, and of one length.\<close>

definition merge_children :: "node list \<Rightarrow> nat \<Rightarrow> node list" where
  "merge_children nodes i =
     nodes[i := (nodes ! i)\<lparr>children :=
       concat (map (\<lambda>(k, v). map (\<lambda>(ck, cv). (k @ ck, cv)) (children (nodes ! v))) (children (nodes ! i)))\<rparr>]"

fun optimize_node :: "nat \<Rightarrow> node list \<Rightarrow> nat \<Rightarrow> node list result" where
  "optimize_node 0 nodes i = Inl StackExhausted"
| "optimize_node (Suc f) nodes i =
     rbind (foldr_res (\<lambda>x ns. if x = 0 then Inr ns else optimize_node f ns x) (param_children (nodes ! i)) nodes) (\<lambda>ns.
       if children (ns ! i) = [] then Inr ns
       else if list_all (\<lambda>(k, v). is_simple (ns ! v)) (children (ns ! i)) then
         optimize_node f (merge_children ns i) i
       else foldr_res (\<lambda>(k, v) ns. optimize_node f ns v) (children (ns ! i)) ns)"

text \<open>\<open>gather\<close> copies a node and what is below it to the end of another array; the references to the
  nodes become those of the copies. The array copied from is dropped afterwards.\<close>

fun gather_children ::
  "(node list \<Rightarrow> nat \<Rightarrow> node list result) \<Rightarrow> (string \<times> nat) list \<Rightarrow> node list \<Rightarrow> ((string \<times> nat) list \<times> node list) result" where
  "gather_children g [] dst = Inr ([], dst)"
| "gather_children g ((k, v) # cs) dst =
     rbind (g dst v) (\<lambda>dst1.
     rbind (gather_children g cs dst1) (\<lambda>(cs', dst2). Inr ((k, length dst) # cs', dst2)))"

fun gather_params ::
  "(node list \<Rightarrow> nat \<Rightarrow> node list result) \<Rightarrow> nat list \<Rightarrow> node list \<Rightarrow> (nat list \<times> node list) result" where
  "gather_params g [] dst = Inr ([], dst)"
| "gather_params g (v # vs) dst =
     (if v = 0 then rbind (gather_params g vs dst) (\<lambda>(vs', dst2). Inr (0 # vs', dst2))
      else
        rbind (g dst v) (\<lambda>dst1.
        rbind (gather_params g vs dst1) (\<lambda>(vs', dst2). Inr (length dst # vs', dst2))))"

primrec gather :: "nat \<Rightarrow> node list \<Rightarrow> node list \<Rightarrow> nat \<Rightarrow> node list result" where
  "gather 0 nodes dst i = Inl StackExhausted"
| "gather (Suc f) nodes dst i =
     rbind (gather_children (gather f nodes) (children (nodes ! i)) (dst @ [new_node])) (\<lambda>(cs, dst1).
     rbind (gather_params (gather f nodes) (param_children (nodes ! i)) dst1) (\<lambda>(ps, dst2).
     Inr (dst2[length dst := \<lparr>n_index = n_index (nodes ! i), param_children = ps, children = cs\<rparr>])))"

text \<open>For the head, \<open>optimize\<close> does what \<open>gather\<close> does for a node, into an empty array.\<close>

definition optimize :: "node list \<Rightarrow> node list result" where
  "optimize nodes =
     rbind (optimize_node ((length nodes + 1) * (length nodes + 1)) nodes 0) (\<lambda>ns. gather (length ns) ns [] 0)"

definition validate :: "node list \<Rightarrow> node list result" where
  "validate nodes = (if \<not> is_simple (nodes ! 0) then Inl InvalidArguments else optimize nodes)"

end
