(* ===== verification/Route_Paths.thy ===== *)
theory Route_Paths
  imports Route_Trie
begin

text \<open>
  What the nodes of the route trie stand for: the paths through them, and the set of routes, which is
  all that \<open>add\<close> changes. A path is the list of the characters and parameters on its edges.
\<close>

section \<open>Paths\<close>

datatype token = Lit char | Param param_type

definition edges :: "node \<Rightarrow> (token list \<times> nat) list" where
  "edges n =
     map (\<lambda>t. ([Param t], param_children n ! type_index t)) (filter (\<lambda>t. param_children n ! type_index t \<noteq> 0) all_types) @
     map (\<lambda>(k, v). (map Lit k, v)) (children n)"

inductive walk :: "node list \<Rightarrow> nat \<Rightarrow> token list \<Rightarrow> nat \<Rightarrow> bool" for nodes :: "node list" where
  stop: "walk nodes i [] i"
| step: "(us, j) \<in> set (edges (nodes ! i)) \<Longrightarrow> walk nodes j ts k \<Longrightarrow> walk nodes i (us @ ts) k"

definition routes :: "node list \<Rightarrow> nat \<Rightarrow> (token list \<times> nat) set" where
  "routes nodes i = {(ts, x). \<exists>k. walk nodes i ts k \<and> x = n_index (nodes ! k) \<and> x \<noteq> 0}"

lemma walk_trans: "walk nodes i ts j \<Longrightarrow> walk nodes j us k \<Longrightarrow> walk nodes i (ts @ us) k"
  by (induction rule: walk.induct) (auto intro: walk.step)

lemma walk_snoc: "walk nodes i ts j \<Longrightarrow> (us, k) \<in> set (edges (nodes ! j)) \<Longrightarrow> walk nodes i (ts @ us) k"
  using walk_trans [OF _ walk.step [OF _ walk.stop]] by fastforce

lemma set_types: "t \<in> set all_types"
  by (cases t) (simp_all add: all_types_def)

lemma type_index_less [simp]: "type_index t < 5"
  by (cases t) simp_all

lemma type_index_inj [simp]: "type_index t = type_index u \<longleftrightarrow> t = u"
  by (cases t; cases u) simp_all

lemma type_index_surj:
  assumes "m < 5"
  shows "\<exists>t. type_index t = m"
proof -
  from assms have "m = 0 \<or> m = 1 \<or> m = 2 \<or> m = 3 \<or> m = 4" by linarith
  moreover have "type_index TInt = 0" "type_index TUint = 1" "type_index TDouble = 2" "type_index TString = 3" "type_index TPath = 4"
    by simp_all
  ultimately show ?thesis by metis
qed

lemma edge_iff:
  "(us, j) \<in> set (edges n) \<longleftrightarrow>
    (\<exists>t. us = [Param t] \<and> j = param_children n ! type_index t \<and> j \<noteq> 0) \<or> (\<exists>k. (k, j) \<in> set (children n) \<and> us = map Lit k)"
  using set_types by (auto simp: edges_def image_iff)

text \<open>The nodes are ordered as they were made: an edge leads to a later node.\<close>

definition up :: "node list \<Rightarrow> bool" where
  "up nodes \<longleftrightarrow> nodes \<noteq> [] \<and> (\<forall>i < length nodes. length (param_children (nodes ! i)) = 5 \<and>
     (\<forall>us j. (us, j) \<in> set (edges (nodes ! i)) \<longrightarrow> us \<noteq> [] \<and> i < j \<and> j < length nodes))"

lemma up_edge: "up nodes \<Longrightarrow> (us, j) \<in> set (edges (nodes ! i)) \<Longrightarrow> i < length nodes \<Longrightarrow> us \<noteq> [] \<and> i < j \<and> j < length nodes"
  unfolding up_def by blast

lemma walk_up:
  assumes "walk nodes i ts k" "up nodes" "i < length nodes"
  shows "i \<le> k \<and> k < length nodes \<and> (ts = [] \<longrightarrow> k = i)"
  using assms
proof (induction rule: walk.induct)
  case (step us j i ts k)
  have e: "us \<noteq> []" "i < j" "j < length nodes" using up_edge [OF step.prems(1) step.hyps(1) step.prems(2)] by auto
  with step.IH [OF step.prems(1)] show ?case by simp
qed simp

text \<open>Before the trie is optimized, its edges are single tokens, different ones lead from a node,
  and no two edges lead to one node.\<close>

definition tree :: "node list \<Rightarrow> bool" where
  "tree nodes \<longleftrightarrow> up nodes \<and>
     (\<forall>i < length nodes. distinct (map fst (children (nodes ! i))) \<and> (\<forall>(k, j) \<in> set (children (nodes ! i)). length k = 1)) \<and>
     (\<forall>i < length nodes. \<forall>i' < length nodes. \<forall>us us' j.
        (us, j) \<in> set (edges (nodes ! i)) \<and> (us', j) \<in> set (edges (nodes ! i')) \<longrightarrow> i = i' \<and> us = us')"

lemma tree_up: "tree nodes \<Longrightarrow> up nodes"
  by (simp add: tree_def)

lemma tree_keys:
  assumes "tree nodes" "i < length nodes"
  shows "distinct (map fst (children (nodes ! i)))" "(k, j) \<in> set (children (nodes ! i)) \<Longrightarrow> length k = 1"
  using assms unfolding tree_def by blast+

lemma tree_parent:
  assumes "tree nodes" "i < length nodes" "i' < length nodes" "(us, j) \<in> set (edges (nodes ! i))" "(us', j) \<in> set (edges (nodes ! i'))"
  shows "i = i' \<and> us = us'"
  using assms unfolding tree_def by blast

lemma map_Lit_inj [simp]: "map Lit k = map Lit k' \<longleftrightarrow> k = k'"
  by (rule inj_map_eq_map) (simp add: inj_def)

lemma edge_single:
  assumes "tree nodes" "i < length nodes" "(us, j) \<in> set (edges (nodes ! i))"
  shows "length us = 1"
  using assms(3) tree_keys(2) [OF assms(1,2)] unfolding edge_iff by fastforce

lemma edge_det:
  assumes "tree nodes" "i < length nodes" "(us, j) \<in> set (edges (nodes ! i))" "(us, j') \<in> set (edges (nodes ! i))"
  shows "j = j'"
proof -
  have no: "[Param t] \<noteq> map Lit k" for t k by (cases k) simp_all
  note kv = eq_key_imp_eq_value [OF tree_keys(1) [OF assms(1,2)]]
  from assms(3) [unfolded edge_iff] show ?thesis
  proof (elim disjE exE conjE)
    fix t assume "us = [Param t]" "j = param_children (nodes ! i) ! type_index t"
    then show ?thesis using assms(4) [unfolded edge_iff] no by auto
  next
    fix k assume k: "(k, j) \<in> set (children (nodes ! i))" "us = map Lit k"
    from assms(4) [unfolded edge_iff] have "(k, j') \<in> set (children (nodes ! i))"
    proof (elim disjE exE conjE)
      fix t assume "us = [Param t]"
      then show ?thesis using k(2) no [of t k] by simp
    next
      fix k' assume "(k', j') \<in> set (children (nodes ! i))" "us = map Lit k'"
      then show ?thesis using k(2) by simp
    qed
    then show ?thesis by (rule kv [OF k(1)])
  qed
qed

text \<open>So a path from the root is determined by the node it leads to, and determines it.\<close>

lemma walk_snocE:
  assumes "walk nodes i ts k"
  shows "ts = [] \<and> k = i \<or> (\<exists>us j vs. walk nodes i us j \<and> (vs, k) \<in> set (edges (nodes ! j)) \<and> ts = us @ vs)"
  using assms
proof (induction rule: walk.induct)
  case (step us j i ts k)
  from step.IH show ?case
  proof (elim disjE exE conjE)
    assume "ts = []" "k = j"
    then have "walk nodes i [] i \<and> (us, k) \<in> set (edges (nodes ! i)) \<and> us @ ts = [] @ us"
      using step.hyps(1) walk.stop [of nodes i] by simp
    then show ?thesis by blast
  next
    fix ws j' vs assume w: "walk nodes j ws j'" "(vs, k) \<in> set (edges (nodes ! j'))" "ts = ws @ vs"
    then have "walk nodes i (us @ ws) j' \<and> (vs, k) \<in> set (edges (nodes ! j')) \<and> us @ ts = (us @ ws) @ vs"
      using walk.step [OF step.hyps(1) w(1)] by simp
    then show ?thesis by blast
  qed
qed simp

lemma walk_unique:
  assumes "tree nodes"
  shows "walk nodes 0 ts k \<Longrightarrow> walk nodes 0 ts' k \<Longrightarrow> ts = ts'"
proof (induction k arbitrary: ts ts' rule: less_induct)
  case (less k)
  note up = tree_up [OF assms]
  have N: "0 < length nodes" using up by (simp add: up_def)
  have prev: "j < length nodes \<and> j < k" if "walk nodes 0 us j" "(vs, k) \<in> set (edges (nodes ! j))" for us j vs
    using walk_up [OF that(1) up N] up_edge [OF up that(2)] by simp
  have root: "k = 0" if "walk nodes 0 [] k" using walk_up [OF that up N] by simp
  from walk_snocE [OF less.prems(1)] show ?case
  proof (elim disjE exE conjE)
    assume "ts = []" "k = 0"
    then show ?thesis using walk_snocE [OF less.prems(2)] prev by blast
  next
    fix us j vs assume 1: "walk nodes 0 us j" "(vs, k) \<in> set (edges (nodes ! j))" "ts = us @ vs"
    from walk_snocE [OF less.prems(2)] show ?thesis
    proof (elim disjE exE conjE)
      assume "k = 0"
      then show ?thesis using prev [OF 1(1,2)] by simp
    next
      fix us' j' vs' assume 2: "walk nodes 0 us' j'" "(vs', k) \<in> set (edges (nodes ! j'))" "ts' = us' @ vs'"
      have "j = j' \<and> vs = vs'" using tree_parent [OF assms _ _ 1(2) 2(2)] prev [OF 1(1,2)] prev [OF 2(1,2)] by simp
      then show ?thesis using less.IH [of j us us'] 1 2 prev [OF 1(1,2)] by simp
    qed
  qed
qed

lemma walk_det:
  assumes "tree nodes"
  shows "walk nodes i ts k \<Longrightarrow> i < length nodes \<Longrightarrow> walk nodes i ts k' \<Longrightarrow> k = k'"
proof (induction arbitrary: k' rule: walk.induct)
  case (stop i)
  then show ?case using walk_up [OF stop.prems(2) tree_up [OF assms] stop.prems(1)] by simp
next
  case (step us j i ts k)
  have l: "length us = 1" "j < length nodes"
    using edge_single [OF assms step.prems(1) step.hyps(1)] up_edge [OF tree_up [OF assms] step.hyps(1) step.prems(1)] by auto
  from step.prems(2) show ?case
  proof (cases rule: walk.cases)
    case stop
    then show ?thesis using l by simp
  next
    case (step us' j' ts')
    have "length us' = 1" using edge_single [OF assms step.prems(1) step(2)] .
    then have "us' = us \<and> ts' = ts" using step(1) l(1) by simp
    then show ?thesis using edge_det [OF assms step.prems(1) step.hyps(1)] step step.IH l(2) by metis
  qed
qed

section \<open>Adding a rule\<close>

text \<open>One more edge, to a new node.\<close>

definition grown :: "node list \<Rightarrow> nat \<Rightarrow> token list \<Rightarrow> node list \<Rightarrow> bool" where
  "grown nodes idx e nodes' \<longleftrightarrow>
     (\<exists>n. nodes' = nodes[idx := n] @ [new_node] \<and> n_index n = n_index (nodes ! idx) \<and>
        length (param_children n) = 5 \<and> set (edges n) = insert (e, length nodes) (set (edges (nodes ! idx))) \<and>
        distinct (map fst (children n)) \<and> (\<forall>(k, j) \<in> set (children n). length k = 1))"

lemma edges_new [simp]: "edges new_node = []"
  by (simp add: edges_def new_node_def all_types_def)

lemma grown_edges:
  assumes "grown nodes idx e nodes'" "idx < length nodes" "i < length nodes"
  shows "set (edges (nodes' ! i)) = (if i = idx then insert (e, length nodes) (set (edges (nodes ! i))) else set (edges (nodes ! i)))"
  using assms by (auto simp: grown_def nth_append nth_list_update)

lemma grown_basic:
  assumes "grown nodes idx e nodes'" "idx < length nodes"
  shows "length nodes' = Suc (length nodes)" "edges (nodes' ! length nodes) = []" "n_index (nodes' ! length nodes) = 0"
    "i < length nodes \<Longrightarrow> n_index (nodes' ! i) = n_index (nodes ! i)"
    "i < length nodes' \<Longrightarrow> tree nodes \<Longrightarrow> length (param_children (nodes' ! i)) = 5 \<and> distinct (map fst (children (nodes' ! i))) \<and>
       (\<forall>(k, j) \<in> set (children (nodes' ! i)). length k = 1)"
proof -
  obtain n where n: "nodes' = nodes[idx := n] @ [new_node]" "n_index n = n_index (nodes ! idx)"
      "length (param_children n) = 5" "distinct (map fst (children n))" "\<forall>(k, j) \<in> set (children n). length k = 1"
    using assms(1) unfolding grown_def by blast
  show "length nodes' = Suc (length nodes)" using n(1) by simp
  have at: "nodes' ! i = (if i < length nodes then if i = idx then n else nodes ! i else new_node)" if "i < length nodes'" for i
    using that assms(2) n(1) by (auto simp: nth_append nth_list_update)
  have "nodes' ! length nodes = new_node" using at [of "length nodes"] n(1) by simp
  then show "edges (nodes' ! length nodes) = []" "n_index (nodes' ! length nodes) = 0"
    by (simp, simp add: new_node_def)
  show "n_index (nodes' ! i) = n_index (nodes ! i)" if "i < length nodes"
    using that at [of i] n(1,2) by simp
  show "length (param_children (nodes' ! i)) = 5 \<and> distinct (map fst (children (nodes' ! i))) \<and>
       (\<forall>(k, j) \<in> set (children (nodes' ! i)). length k = 1)" if i: "i < length nodes'" and t: "tree nodes"
  proof (cases "i < length nodes")
    case True
    have "length (param_children (nodes ! i)) = 5" using tree_up [OF t] True unfolding up_def by blast
    then show ?thesis using True n at [OF i] tree_keys [OF t True] by auto
  next
    case False
    then have "nodes' ! i = new_node" using at [OF i] by simp
    then show ?thesis by (simp add: new_node_def)
  qed
qed

lemma grown_tree:
  assumes "grown nodes idx e nodes'" "idx < length nodes" "tree nodes" "length e = 1"
  shows "tree nodes'"
proof -
  note up = tree_up [OF assms(3)]
  note b = grown_basic [OF assms(1,2)]
  have edge: "(i < length nodes \<and> (us, j) \<in> set (edges (nodes ! i))) \<or> i = idx \<and> us = e \<and> j = length nodes"
    if "i < length nodes'" "(us, j) \<in> set (edges (nodes' ! i))" for i us j
  proof (cases "i < length nodes")
    case True
    then show ?thesis using that(2) grown_edges [OF assms(1,2) True] by (cases "i = idx") auto
  next
    case False
    then have "i = length nodes" using that(1) b(1) by simp
    then show ?thesis using that(2) b(2) by simp
  qed
  have "up nodes'" unfolding up_def
  proof (intro conjI allI impI)
    show "nodes' \<noteq> []" using b(1) by auto
  next
    fix i assume i: "i < length nodes'"
    show "length (param_children (nodes' ! i)) = 5" using b(5) [OF i assms(3)] by simp
    fix us j assume "(us, j) \<in> set (edges (nodes' ! i))"
    from edge [OF i this] have "us \<noteq> [] \<and> i < j \<and> j < length nodes'"
      using up_edge [OF up, of us j i] assms(2,4) b(1) by auto
    then show "us \<noteq> []" "i < j" "j < length nodes'" by auto
  qed
  moreover have "i = i' \<and> us = us'"
    if "i < length nodes'" "i' < length nodes'" "(us, j) \<in> set (edges (nodes' ! i))" "(us', j) \<in> set (edges (nodes' ! i'))"
    for i i' us us' j
    using edge [OF that(1,3)] edge [OF that(2,4)] tree_parent [OF assms(3), of i i' us j us']
      up_edge [OF up, of us j i] up_edge [OF up, of us' j i'] by auto
  ultimately show ?thesis unfolding tree_def using b(5) [OF _ assms(3)] by blast
qed

lemma grown_walk:
  assumes "grown nodes idx e nodes'" "idx < length nodes" "up nodes" "i < length nodes"
  shows "walk nodes' i ts k \<longleftrightarrow> walk nodes i ts k \<or> k = length nodes \<and> (\<exists>us. walk nodes i us idx \<and> ts = us @ e)"
proof
  have old: "walk nodes' i ts k" if "walk nodes i ts k" "i < length nodes" for i ts k
    using that
  proof (induction rule: walk.induct)
    case (step us j i ts k)
    have "(us, j) \<in> set (edges (nodes' ! i))" using grown_edges [OF assms(1,2) step.prems] step.hyps(1) by (cases "i = idx") auto
    then show ?case using walk.step step.IH up_edge [OF assms(3) step.hyps(1) step.prems] by blast
  qed (rule walk.stop)
  assume "walk nodes i ts k \<or> k = length nodes \<and> (\<exists>us. walk nodes i us idx \<and> ts = us @ e)"
  then show "walk nodes' i ts k"
  proof (elim disjE conjE exE)
    fix us assume w: "k = length nodes" "walk nodes i us idx" "ts = us @ e"
    have "(e, k) \<in> set (edges (nodes' ! idx))" using grown_edges [OF assms(1,2,2)] w(1) by simp
    then show ?thesis using walk_snoc [OF old [OF w(2) assms(4)]] w(3) by simp
  qed (rule old [OF _ assms(4)])
next
  assume "walk nodes' i ts k"
  then show "walk nodes i ts k \<or> k = length nodes \<and> (\<exists>us. walk nodes i us idx \<and> ts = us @ e)"
    using assms(4)
  proof (induction rule: walk.induct)
    case (step us j i ts k)
    from step.hyps(1) grown_edges [OF assms(1,2) step.prems]
    consider (old) "(us, j) \<in> set (edges (nodes ! i))" | (new) "i = idx" "us = e" "j = length nodes"
      by (cases "i = idx") auto
    then show ?case
    proof cases
      case old
      then have "j < length nodes" using up_edge [OF assms(3) old step.prems] by simp
      from step.IH [OF this] show ?thesis
      proof (elim disjE conjE exE)
        assume "walk nodes j ts k" then show ?thesis using walk.step [OF old] by blast
      next
        fix vs assume "k = length nodes" "walk nodes j vs idx" "ts = vs @ e"
        then show ?thesis using walk.step [OF old, of vs idx] by (metis append_assoc)
      qed
    next
      case new
      have "ts = [] \<and> k = j" using step.hyps(2) new grown_basic(2) [OF assms(1,2)] by (auto elim: walk.cases)
      then show ?thesis using new walk.stop by auto
    qed
  qed (simp add: walk.stop)
qed

lemma grown_routes:
  assumes "grown nodes idx e nodes'" "idx < length nodes" "up nodes" "i < length nodes"
  shows "routes nodes' i = routes nodes i"
proof -
  have "n_index (nodes' ! k) = n_index (nodes ! k)" if "walk nodes i ts k" for ts k
    using grown_basic(4) [OF assms(1,2)] walk_up [OF that assms(3,4)] by blast
  moreover have "n_index (nodes' ! length nodes) = 0" using grown_basic(3) [OF assms(1,2)] .
  ultimately show ?thesis unfolding routes_def grown_walk [OF assms] by fastforce
qed

text \<open>What the path of a rule is.\<close>

function tokens :: "string \<Rightarrow> token list" where
  "tokens [] = []"
| "tokens (c # cs) =
     (if c = CHR ''{'' then
        (case trait_at (c # cs) of None \<Rightarrow> tokens cs | Some (t, n) \<Rightarrow> Param t # tokens (drop (n - 1) cs))
      else Lit c # tokens cs)"
  by pat_completeness auto
termination by (relation "measure length") auto

definition reaches :: "node list \<Rightarrow> nat \<Rightarrow> token list \<Rightarrow> node list \<times> nat \<Rightarrow> bool" where
  "reaches nodes idx e r \<longleftrightarrow>
     fst r = nodes \<and> (e, snd r) \<in> set (edges (nodes ! idx)) \<or> grown nodes idx e (fst r) \<and> snd r = length nodes"

lemma param_child_reaches:
  assumes "tree nodes" "idx < length nodes"
  shows "reaches nodes idx [Param t] (param_child nodes idx t)"
proof (cases "param_children (nodes ! idx) ! type_index t = 0")
  case True
  let ?N = "length nodes"
  let ?n = "(nodes ! idx)\<lparr>param_children := (param_children (nodes ! idx))[type_index t := ?N]\<rparr>"
  have len: "length (param_children (nodes ! idx)) = 5" using tree_up [OF assms(1)] assms(2) unfolding up_def by blast
  have "param_children ?n ! type_index u = (if u = t then ?N else param_children (nodes ! idx) ! type_index u)" for u
    using len by (auto simp: nth_list_update)
  moreover have "?N \<noteq> 0" using assms(2) by linarith
  ultimately have e: "set (edges ?n) = insert ([Param t], ?N) (set (edges (nodes ! idx)))"
    using True by (auto simp: set_eq_iff edge_iff)
  have "grown nodes idx [Param t] (nodes[idx := ?n] @ [new_node])"
    unfolding grown_def
  proof (intro exI [of _ ?n] conjI)
    show "distinct (map fst (children ?n))" "\<forall>(k, j) \<in> set (children ?n). length k = 1"
      using tree_keys [OF assms] by auto
  qed (use len e in simp_all)
  then show ?thesis using True by (simp add: reaches_def param_child_def Let_def)
next
  case False
  then show ?thesis by (auto simp: reaches_def param_child_def edge_iff)
qed

lemma piece_child_reaches:
  assumes "tree nodes" "idx < length nodes"
  shows "reaches nodes idx [Lit c] (piece_child nodes idx [c])"
proof (cases "map_of (children (nodes ! idx)) [c]")
  case None
  let ?N = "length nodes"
  let ?n = "(nodes ! idx)\<lparr>children := children (nodes ! idx) @ [([c], ?N)]\<rparr>"
  have len: "length (param_children (nodes ! idx)) = 5" using tree_up [OF assms(1)] assms(2) unfolding up_def by blast
  have e: "set (edges ?n) = insert ([Lit c], ?N) (set (edges (nodes ! idx)))"
    by (auto simp: set_eq_iff edges_def)
  have "[c] \<notin> fst ` set (children (nodes ! idx))" using None by (simp add: map_of_eq_None_iff)
  then have "grown nodes idx [Lit c] (nodes[idx := ?n] @ [new_node])"
    unfolding grown_def
  proof (intro exI [of _ ?n] conjI)
    show "distinct (map fst (children ?n))" if "[c] \<notin> fst ` set (children (nodes ! idx))"
      using that tree_keys(1) [OF assms] by simp
    show "\<forall>(k, j) \<in> set (children ?n). length k = 1"
      using tree_keys(2) [OF assms] by auto
  qed (use len e in simp_all)
  then show ?thesis using None by (simp add: reaches_def piece_child_def Let_def)
next
  case (Some j)
  then have "([c], j) \<in> set (children (nodes ! idx))" by (rule map_of_SomeD)
  then show ?thesis using Some by (force simp: reaches_def piece_child_def edge_iff)
qed

lemma reaches_step:
  assumes "reaches nodes idx e (nodes1, j)" "tree nodes" "idx < length nodes" "length e = 1" "walk nodes 0 us idx"
  shows "tree nodes1 \<and> j < length nodes1 \<and> walk nodes1 0 (us @ e) j \<and> routes nodes1 0 = routes nodes 0"
proof -
  note up = tree_up [OF assms(2)]
  have N: "0 < length nodes" using up by (simp add: up_def)
  from assms(1) [unfolded reaches_def fst_conv snd_conv] show ?thesis
  proof (elim disjE conjE)
    assume "nodes1 = nodes" "(e, j) \<in> set (edges (nodes ! idx))"
    then show ?thesis using assms(2) walk_snoc [OF assms(5)] up_edge [OF up _ assms(3)] by blast
  next
    assume g: "grown nodes idx e nodes1" and j: "j = length nodes"
    have "walk nodes1 0 (us @ e) j" using grown_walk [OF g assms(3) up N] j assms(5) by blast
    then show ?thesis
      using grown_tree [OF g assms(3,2,4)] grown_routes [OF g assms(3) up N] grown_basic(1) [OF g assms(3)] j by simp
  qed
qed

lemma add_loop_spec:
  assumes "tree nodes" "idx < length nodes" "walk nodes 0 us idx" "add_loop nodes idx s = (nodes', j)"
  shows "tree nodes' \<and> j < length nodes' \<and> walk nodes' 0 (us @ tokens s) j \<and> routes nodes' 0 = routes nodes 0"
  using assms
proof (induction nodes idx s arbitrary: us rule: add_loop.induct)
  case (1 nodes idx)
  then show ?case by simp
next
  case (2 nodes idx c cs)
  have via: "tree nodes' \<and> j < length nodes' \<and> walk nodes' 0 (us @ e @ tokens r) j \<and> routes nodes' 0 = routes nodes 0"
    if "reaches nodes idx e (nodes1, i)" "length e = 1" "add_loop nodes1 i r = (nodes', j)"
      "\<And>us. tree nodes1 \<Longrightarrow> i < length nodes1 \<Longrightarrow> walk nodes1 0 us i \<Longrightarrow> add_loop nodes1 i r = (nodes', j) \<Longrightarrow>
        tree nodes' \<and> j < length nodes' \<and> walk nodes' 0 (us @ tokens r) j \<and> routes nodes' 0 = routes nodes1 0"
    for e nodes1 i r
  proof -
    have s: "tree nodes1" "i < length nodes1" "walk nodes1 0 (us @ e) i" "routes nodes1 0 = routes nodes 0"
      using reaches_step [OF that(1) "2.prems"(1,2) that(2) "2.prems"(3)] by auto
    show ?thesis using that(4) [OF s(1-3) that(3)] s(4) by simp
  qed
  show ?case
  proof (cases "c = CHR ''{''")
    case brace: True
    show ?thesis
    proof (cases "trait_at (c # cs)")
      case None
      then show ?thesis using 2 brace by simp
    next
      case (Some p)
      obtain t n where p: "p = (t, n)" by fastforce
      obtain nodes1 i where c: "param_child nodes idx t = (nodes1, i)" by fastforce
      have r: "reaches nodes idx [Param t] (nodes1, i)" using param_child_reaches [OF "2.prems"(1,2), of t] c by simp
      have a: "add_loop nodes1 i (drop (n - 1) cs) = (nodes', j)" using "2.prems"(4) brace Some p c by simp
      show ?thesis
        using via [OF r _ a] "2.IH"(2) [OF brace Some p [symmetric] refl c [symmetric]] brace Some p by simp
    qed
  next
    case False
    obtain nodes1 i where c: "piece_child nodes idx [c] = (nodes1, i)" by fastforce
    have r: "reaches nodes idx [Lit c] (nodes1, i)" using piece_child_reaches [OF "2.prems"(1,2), of c] c by simp
    have a: "add_loop nodes1 i cs = (nodes', j)" using "2.prems"(4) False c by simp
    show ?thesis using via [OF r _ a] "2.IH"(3) [OF False refl c [symmetric]] False by simp
  qed
qed

lemma same_edges_walk:
  assumes "\<And>i. edges (nodes' ! i) = edges (nodes ! i)"
  shows "walk nodes' = walk nodes"
proof (intro ext iffI)
  show "walk nodes i us k" if "walk nodes' i us k" for i us k
    using that by (induction rule: walk.induct) (auto simp: assms intro: walk.intros)
  show "walk nodes' i us k" if "walk nodes i us k" for i us k
    using that by (induction rule: walk.induct) (auto simp: assms intro: walk.intros)
qed

lemma routes_set_index:
  assumes "tree nodes" "walk nodes 0 ts j" "n_index (nodes ! j) = 0" "x \<noteq> 0"
  shows "routes (nodes[j := (nodes ! j)\<lparr>n_index := x\<rparr>]) 0 = insert (ts, x) (routes nodes 0)"
    "tree (nodes[j := (nodes ! j)\<lparr>n_index := x\<rparr>])"
proof -
  let ?nodes = "nodes[j := (nodes ! j)\<lparr>n_index := x\<rparr>]"
  have N: "0 < length nodes" using tree_up [OF assms(1)] by (simp add: up_def)
  have j: "j < length nodes" using walk_up [OF assms(2) tree_up [OF assms(1)] N] by simp
  have same: "edges (?nodes ! i) = edges (nodes ! i)" "children (?nodes ! i) = children (nodes ! i)"
      "param_children (?nodes ! i) = param_children (nodes ! i)" for i
    using j by (cases "i = j"; simp add: edges_def)+
  have idx: "n_index (?nodes ! i) = (if i = j then x else n_index (nodes ! i))" for i
    using j by (simp add: nth_list_update)
  have walk: "walk ?nodes = walk nodes" by (rule same_edges_walk) (rule same)
  have "tree ?nodes = tree nodes" unfolding tree_def up_def same length_list_update list_update_nonempty by (rule refl)
  then show "tree ?nodes" using assms(1) by simp
  show "routes ?nodes 0 = insert (ts, x) (routes nodes 0)"
  proof -
    have "(\<exists>k. walk nodes 0 us k \<and> y = (if k = j then x else n_index (nodes ! k)) \<and> y \<noteq> 0) \<longleftrightarrow>
        us = ts \<and> y = x \<or> (\<exists>k. walk nodes 0 us k \<and> y = n_index (nodes ! k) \<and> y \<noteq> 0)" (is "?l \<longleftrightarrow> ?r") for us y
    proof
      assume ?l
      then obtain k where k: "walk nodes 0 us k" "y = (if k = j then x else n_index (nodes ! k))" "y \<noteq> 0" by blast
      show ?r
      proof (cases "k = j")
        case True
        then have "us = ts" using walk_unique [OF assms(1)] k(1) assms(2) by blast
        then show ?thesis using k(2) True by simp
      next
        case False
        then have "y = n_index (nodes ! k)" using k(2) by simp
        then show ?thesis using k(1,3) by blast
      qed
    next
      assume ?r
      then show ?l
      proof (elim disjE conjE exE)
        fix k assume "walk nodes 0 us k" "y = n_index (nodes ! k)" "y \<noteq> 0"
        then show ?l using assms(3) by (intro exI [of _ k]) auto
      qed (use assms(2,4) in auto)
    qed
    then show ?thesis unfolding routes_def walk idx by (simp add: set_eq_iff)
  qed
qed

text \<open>The paths of the trie are the beginnings of the rules' paths.\<close>

lemma add_loop_walks:
  assumes "tree nodes" "idx < length nodes" "walk nodes 0 us idx" "add_loop nodes idx s = (nodes', j)" "walk nodes' 0 ts k"
  shows "(\<exists>k'. walk nodes 0 ts k') \<or> (\<exists>vs. us @ tokens s = ts @ vs)"
  using assms
proof (induction nodes idx s arbitrary: us rule: add_loop.induct)
  case (1 nodes idx)
  then show ?case by auto
next
  case (2 nodes idx c cs)
  have via: "(\<exists>k'. walk nodes 0 ts k') \<or> (\<exists>vs. us @ e @ tokens r = ts @ vs)"
    if "reaches nodes idx e (nodes1, i)" "length e = 1" "add_loop nodes1 i r = (nodes', j)"
      "\<And>us. tree nodes1 \<Longrightarrow> i < length nodes1 \<Longrightarrow> walk nodes1 0 us i \<Longrightarrow> add_loop nodes1 i r = (nodes', j) \<Longrightarrow>
        walk nodes' 0 ts k \<Longrightarrow> (\<exists>k'. walk nodes1 0 ts k') \<or> (\<exists>vs. us @ tokens r = ts @ vs)"
    for e nodes1 i r
  proof -
    have s: "tree nodes1" "i < length nodes1" "walk nodes1 0 (us @ e) i"
      using reaches_step [OF that(1) "2.prems"(1,2) that(2) "2.prems"(3)] by auto
    have "(\<exists>k'. walk nodes 0 ts k') \<or> ts = us @ e" if w: "walk nodes1 0 ts k'" for k'
    proof -
      note up = tree_up [OF "2.prems"(1)]
      have N: "0 < length nodes" using up by (simp add: up_def)
      from \<open>reaches nodes idx e (nodes1, i)\<close> [unfolded reaches_def fst_conv snd_conv] show ?thesis
      proof (elim disjE conjE)
        assume g: "grown nodes idx e nodes1"
        from w [unfolded grown_walk [OF g "2.prems"(2) up N]] show ?thesis
          using walk_unique [OF "2.prems"(1) "2.prems"(3)] by blast
      qed (use w in blast)
    qed
    moreover from that(4) [OF s that(3) "2.prems"(5)] have "(\<exists>k'. walk nodes1 0 ts k') \<or> (\<exists>vs. us @ e @ tokens r = ts @ vs)" by simp
    ultimately show ?thesis by (metis append_assoc)
  qed
  show ?case
  proof (cases "c = CHR ''{''")
    case brace: True
    show ?thesis
    proof (cases "trait_at (c # cs)")
      case None
      then show ?thesis using "2.IH"(1) [OF brace None "2.prems"(1-3)] "2.prems"(4,5) brace by simp
    next
      case (Some p)
      obtain t n where p: "p = (t, n)" by fastforce
      obtain nodes1 i where c: "param_child nodes idx t = (nodes1, i)" by fastforce
      have r: "reaches nodes idx [Param t] (nodes1, i)" using param_child_reaches [OF "2.prems"(1,2), of t] c by simp
      have a: "add_loop nodes1 i (drop (n - 1) cs) = (nodes', j)" using "2.prems"(4) brace Some p c by simp
      show ?thesis
        using via [OF r _ a] "2.IH"(2) [OF brace Some p [symmetric] refl c [symmetric]] brace Some p by simp
    qed
  next
    case False
    obtain nodes1 i where c: "piece_child nodes idx [c] = (nodes1, i)" by fastforce
    have r: "reaches nodes idx [Lit c] (nodes1, i)" using piece_child_reaches [OF "2.prems"(1,2), of c] c by simp
    have a: "add_loop nodes1 i cs = (nodes', j)" using "2.prems"(4) False c by simp
    show ?thesis using via [OF r _ a] "2.IH"(3) [OF False refl c [symmetric]] False by simp
  qed
qed

lemma add_walks:
  assumes "tree nodes" "add nodes url x = (r, nodes')" "walk nodes' 0 ts k"
  shows "(\<exists>k'. walk nodes 0 ts k') \<or> (\<exists>vs. tokens url = ts @ vs)"
proof -
  have N: "0 < length nodes" using tree_up [OF assms(1)] by (simp add: up_def)
  obtain nodes1 j where a: "add_loop nodes 0 url = (nodes1, j)" by fastforce
  have "edges (nodes1[j := (nodes1 ! j)\<lparr>n_index := x\<rparr>] ! i) = edges (nodes1 ! i)" for i
    by (cases "i = j"; cases "j < length nodes1") (simp_all add: edges_def list_update_beyond)
  then have "walk (nodes1[j := (nodes1 ! j)\<lparr>n_index := x\<rparr>]) = walk nodes1" by (rule same_edges_walk)
  moreover have "nodes' = nodes1 \<or> nodes' = nodes1[j := (nodes1 ! j)\<lparr>n_index := x\<rparr>]"
    using assms(2) a by (auto simp: add_def split: if_splits)
  ultimately have "walk nodes' = walk nodes1" by metis
  then show ?thesis using add_loop_walks [OF assms(1) N walk.stop a] assms(3) by simp
qed

text \<open>\<open>add\<close> enters the rule's path with its index, and fails just when the path has one already.\<close>

lemma add_spec:
  assumes "tree nodes" "x \<noteq> 0" "add nodes url x = (r, nodes')"
  shows "tree nodes' \<and>
    (if \<exists>y. (tokens url, y) \<in> routes nodes 0 then r = Inl InvalidArguments \<and> routes nodes' 0 = routes nodes 0
     else r = Inr () \<and> routes nodes' 0 = insert (tokens url, x) (routes nodes 0))"
proof -
  have N: "0 < length nodes" using tree_up [OF assms(1)] by (simp add: up_def)
  obtain nodes1 j where a: "add_loop nodes 0 url = (nodes1, j)" by fastforce
  have s: "tree nodes1" "j < length nodes1" "walk nodes1 0 (tokens url) j" "routes nodes1 0 = routes nodes 0"
    using add_loop_spec [OF assms(1) N walk.stop a] by auto
  have N1: "0 < length nodes1" using s(2) by linarith
  have reg: "(\<exists>y. (tokens url, y) \<in> routes nodes1 0) \<longleftrightarrow> n_index (nodes1 ! j) \<noteq> 0"
  proof
    assume "\<exists>y. (tokens url, y) \<in> routes nodes1 0"
    then obtain k where "walk nodes1 0 (tokens url) k" "n_index (nodes1 ! k) \<noteq> 0" unfolding routes_def by blast
    then show "n_index (nodes1 ! j) \<noteq> 0" using walk_det [OF s(1) s(3) N1] by blast
  qed (use s(3) in \<open>auto simp: routes_def\<close>)
  show ?thesis
  proof (cases "n_index (nodes1 ! j) = 0")
    case True
    then have "r = Inr ()" "nodes' = nodes1[j := (nodes1 ! j)\<lparr>n_index := x\<rparr>]" using assms(3) a by (simp_all add: add_def)
    then show ?thesis using True reg s(4) routes_set_index [OF s(1,3) True assms(2)] by simp
  next
    case False
    then have "r = Inl InvalidArguments" "nodes' = nodes1" using assms(3) a by (simp_all add: add_def)
    then show ?thesis using False reg s(1,4) by simp
  qed
qed

end
