(* ===== verification/Route_Find.thy ===== *)
theory Route_Find
  imports Route_Paths "HOL-Library.Sublist"
begin

text \<open>
  Looking up in the route trie: the search of \<open>find\<close> against the set of routes. A route matches a URL
  when its tokens take the URL apart completely, each parameter taking what its reader takes.
\<close>

section \<open>Matching\<close>

fun tmatch :: "(string \<Rightarrow> 'd option) \<Rightarrow> token list \<Rightarrow> string \<Rightarrow> bool" where
  "tmatch num [] s \<longleftrightarrow> s = []"
| "tmatch num (Lit c # ts) s \<longleftrightarrow> (case s of [] \<Rightarrow> False | d # r \<Rightarrow> c = d \<and> tmatch num ts r)"
| "tmatch num (Param t # ts) s \<longleftrightarrow>
     s \<noteq> [] \<and> (case read_param num [] t s of None \<Rightarrow> False | Some (v, n) \<Rightarrow> tmatch num ts (drop n s))"

fun tvals :: "(string \<Rightarrow> 'd option) \<Rightarrow> token list \<Rightarrow> string \<Rightarrow> 'd pvalue list" where
  "tvals num [] s = []"
| "tvals num (Lit c # ts) s = tvals num ts (tl s)"
| "tvals num (Param t # ts) s =
     (case read_param num [] t s of None \<Rightarrow> [] | Some (v, n) \<Rightarrow> v # tvals num ts (drop n s))"

fun nparams :: "token list \<Rightarrow> nat" where
  "nparams [] = 0"
| "nparams (Lit c # ts) = nparams ts"
| "nparams (Param t # ts) = Suc (nparams ts)"

lemma tmatch_frag: "tmatch num (map Lit k @ ts) s \<longleftrightarrow> take (length k) s = k \<and> tmatch num ts (drop (length k) s)"
  by (induction k arbitrary: s) (auto split: list.splits)

lemma tvals_frag: "tvals num (map Lit k @ ts) s = tvals num ts (drop (length k) s)"
  by (induction k arbitrary: s) (simp_all add: drop_Suc)

lemma nparams_append [simp]: "nparams (ts @ us) = nparams ts + nparams us"
  by (induction ts rule: nparams.induct) simp_all

lemma nparams_frag [simp]: "nparams (map Lit k) = 0"
  by (induction k) simp_all

section \<open>How much a parameter takes\<close>

lemma strtoi_len: "snd (strtoi s) \<le> length s"
  using length_takeWhile_le [of is_digit s] length_takeWhile_le [of is_digit "drop 1 s"]
  by (cases s) (auto simp: strtoi_def Let_def)

lemma exponent_len: "exponent_len e s \<le> length s"
proof -
  let ?t = "tl s"
  have "length (takeWhile is_digit (drop n ?t)) \<le> length ?t - n" for n
    using length_takeWhile_le [of is_digit "drop n ?t"] by simp
  from this [of 0] this [of 1] show ?thesis by (cases s; cases "tl s") (auto simp: exponent_len_def Let_def)
qed

lemma mantissa_len: "mantissa_len dig s \<le> length s"
proof -
  let ?n = "length (takeWhile dig s)"
  have n: "?n \<le> length s" by (rule length_takeWhile_le)
  have "length (takeWhile dig (tl (drop ?n s))) \<le> length s - ?n - 1"
    using length_takeWhile_le [of dig "tl (drop ?n s)"] by simp
  moreover have "?n < length s" if "cur (drop ?n s) = CHR ''.''"
    using that n by (cases "?n = length s") auto
  ultimately show ?thesis using n by (auto simp: mantissa_len_def Let_def)
qed

lemma starts_igc_len: "starts_igc w s \<Longrightarrow> length w \<le> length s"
  by (auto simp: starts_igc_def dest: arg_cong [of _ _ length])

lemma unsigned_float_len: "unsigned_float_len s \<le> length s"
proof -
  note w = starts_igc_len [of "''infinity''" s] starts_igc_len [of "''inf''" s] starts_igc_len [of "''nan''" s]
    starts_igc_len [of "''0x''" s]
  have sum: "k \<le> length s \<Longrightarrow> n \<le> length (drop k s) \<Longrightarrow> k + n \<le> length s" for k n by simp
  show ?thesis
  proof (cases "starts_igc ''infinity'' s \<or> starts_igc ''inf'' s")
    case True
    then show ?thesis using w by (auto simp: unsigned_float_len_def)
  next
    case no: False
    show ?thesis
    proof (cases "starts_igc ''nan'' s")
      case True
      let ?r = "drop 3 s"
      let ?n = "length (takeWhile (\<lambda>c. is_alnum c \<or> c = CHR ''_'') (tl ?r))"
      have "?n + 2 \<le> length ?r" if "cur (drop ?n (tl ?r)) = CHR '')''" "cur ?r = CHR ''(''"
      proof -
        have "?n \<noteq> length (tl ?r)" using that(1) by auto
        then have "?n < length (tl ?r)" using length_takeWhile_le [of "\<lambda>c. is_alnum c \<or> c = CHR ''_''" "tl ?r"] by linarith
        then show ?thesis by simp
      qed
      then show ?thesis using True no w(3) by (auto simp: unsigned_float_len_def Let_def)
    next
      case False
      have hex: "2 + mantissa_len is_xdigit (drop 2 s) \<le> length s" if "starts_igc ''0x'' s"
        using w(4) that mantissa_len [of is_xdigit "drop 2 s"] by simp
      show ?thesis
        using False no hex sum [OF hex exponent_len] sum [OF mantissa_len exponent_len] mantissa_len [of is_digit s]
        by (auto simp: unsigned_float_len_def Let_def)
    qed
  qed
qed

lemma float_len: "float_len s \<le> length s"
  using unsigned_float_len [of s] unsigned_float_len [of "drop 1 s"] by (cases s) (auto simp: float_len_def Let_def)

lemma read_param_len:
  assumes "read_param num [] t s = Some (v, n)"
  shows "0 < n \<and> n \<le> length s"
  using assms strtoi_len [of s] float_len [of s] length_takeWhile_le [of "\<lambda>c. c \<noteq> CHR ''/''" s]
  by (cases t) (auto simp: Let_def split: if_splits prod.splits)

section \<open>The smallest index\<close>

definition least :: "nat set \<Rightarrow> nat" where
  "least A = (if A = {} then 0 else (LEAST x. x \<in> A))"

lemma least_in: "A \<noteq> {} \<Longrightarrow> least A \<in> A"
  by (auto simp: least_def intro: LeastI)

lemma least_le: "x \<in> A \<Longrightarrow> least A \<le> x"
  by (auto simp: least_def intro: Least_le)

lemma least_eqI:
  assumes "x \<in> A" "\<And>y. y \<in> A \<Longrightarrow> x \<le> y"
  shows "least A = x"
proof (rule antisym)
  show "x \<le> least A" using assms(1) by (intro assms(2) least_in) auto
qed (rule least_le [OF assms(1)])

lemma least_empty [simp]: "least {} = 0"
  by (simp add: least_def)

lemma least_single: "least ({n} - {0}) = n"
  by (cases "n = 0") (auto intro: least_eqI)

lemma update_found_least:
  assumes "fst ret = least A" "fst best = least B" "0 \<notin> A" "0 \<notin> B"
  shows "fst (update_found ret best) = least (B \<union> A)"
proof (cases "A = {} \<or> B = {}")
  case True
  then show ?thesis
    using assms least_in [of A] least_in [of B] by (auto simp: update_found_def)
next
  case False
  then have l: "least A \<in> A" "least B \<in> B" using least_in [of A] least_in [of B] by auto
  then have "least A \<noteq> 0" "least B \<noteq> 0" using assms(3,4) by (intro notI, simp)+
  moreover have "least (B \<union> A) = min (least A) (least B)"
  proof (rule least_eqI)
    show "min (least A) (least B) \<in> B \<union> A" using l by (auto simp: min_def)
    show "min (least A) (least B) \<le> y" if "y \<in> B \<union> A" for y using that least_le [of y A] least_le [of y B] by auto
  qed
  ultimately show ?thesis using assms(1,2) by (auto simp: update_found_def min_def)
qed

section \<open>The parameters on the way\<close>

definition psize :: "'d routing_params \<Rightarrow> nat" where
  "psize p = length (int_params p) + length (uint_params p) + length (double_params p) + length (string_params p)"

definition ple :: "'d routing_params \<Rightarrow> 'd routing_params \<Rightarrow> bool" where
  "ple p q \<longleftrightarrow> length (int_params p) \<le> length (int_params q) \<and> length (uint_params p) \<le> length (uint_params q) \<and>
     length (double_params p) \<le> length (double_params q) \<and> length (string_params p) \<le> length (string_params q)"

lemma ple_refl [simp]: "ple p p"
  by (simp add: ple_def)

lemma ple_trans: "ple p q \<Longrightarrow> ple q r \<Longrightarrow> ple p r"
  by (auto simp: ple_def)

lemma ple_none [simp]: "ple no_params p"
  by (simp add: ple_def no_params_def)

lemma ple_size: "ple p q \<Longrightarrow> psize p \<le> psize q"
  by (simp add: ple_def psize_def)

lemma push_param_ok:
  assumes "psize p < 128"
  shows "\<exists>q. push_param v p = Inr q \<and> psize q = Suc (psize p) \<and> (\<forall>r. ple r q \<longrightarrow> ple (pop_param v r) p) \<and> pop_param v q = p"
  using assms by (cases v) (auto simp: psize_def grow_push_def ple_def)

lemma foldr_res_inv:
  assumes "I ys s" "\<And>zs x s. x \<in> set xs \<Longrightarrow> I zs s \<Longrightarrow> \<exists>s'. f x s = Inr s' \<and> I (zs @ [x]) s'"
  shows "\<exists>s'. foldr_res f xs s = Inr s' \<and> I (ys @ xs) s'"
  using assms
proof (induction xs arbitrary: ys s)
  case (Cons x xs)
  then obtain s1 where s1: "f x s = Inr s1" "I (ys @ [x]) s1" by (meson list.set_intros(1))
  have "\<exists>s'. foldr_res f xs s1 = Inr s' \<and> I ((ys @ [x]) @ xs) s'"
    using Cons.prems(2) by (intro Cons.IH s1(2)) simp
  then show ?case using s1(1) by simp
qed simp

section \<open>The search\<close>

definition matched :: "(string \<Rightarrow> 'd option) \<Rightarrow> node list \<Rightarrow> nat \<Rightarrow> string \<Rightarrow> nat set" where
  "matched num nodes i s = {x. \<exists>ts. (ts, x) \<in> routes nodes i \<and> tmatch num ts s}"

definition matched_via :: "(string \<Rightarrow> 'd option) \<Rightarrow> node list \<Rightarrow> token list \<times> nat \<Rightarrow> string \<Rightarrow> nat set" where
  "matched_via num nodes e s = {x. \<exists>ts. (ts, x) \<in> routes nodes (snd e) \<and> tmatch num (fst e @ ts) s}"

lemma zero_matched: "0 \<notin> matched num nodes i s" "0 \<notin> matched_via num nodes e s"
  by (auto simp: matched_def matched_via_def routes_def)

lemma matched_stop: "up nodes \<Longrightarrow> i < length nodes \<Longrightarrow> matched num nodes i [] = {n_index (nodes ! i)} - {0}"
proof -
  assume up: "up nodes" "i < length nodes"
  have "tmatch num ts [] \<longleftrightarrow> ts = []" for ts by (cases ts rule: nparams.cases) auto
  then have "x \<in> matched num nodes i [] \<longleftrightarrow> x \<noteq> 0 \<and> (\<exists>k. walk nodes i [] k \<and> x = n_index (nodes ! k))" for x
    by (auto simp: matched_def routes_def)
  moreover have "walk nodes i [] k \<longleftrightarrow> k = i" for k using walk_up [OF _ up] walk.stop by blast
  ultimately show ?thesis by auto
qed

lemma matched_iff:
  "x \<in> matched num nodes i s \<longleftrightarrow> x \<noteq> 0 \<and> (\<exists>ts k. walk nodes i ts k \<and> tmatch num ts s \<and> x = n_index (nodes ! k))"
  "x \<in> matched_via num nodes e s \<longleftrightarrow>
    x \<noteq> 0 \<and> (\<exists>ts k. walk nodes (snd e) ts k \<and> tmatch num (fst e @ ts) s \<and> x = n_index (nodes ! k))"
  by (auto simp: matched_def matched_via_def routes_def)

lemma matched_step:
  assumes "s \<noteq> []"
  shows "matched num nodes i s = (\<Union>e \<in> set (edges (nodes ! i)). matched_via num nodes e s)"
proof (intro set_eqI iffI)
  fix x assume "x \<in> matched num nodes i s"
  then obtain ts k where x: "x \<noteq> 0" "walk nodes i ts k" "tmatch num ts s" "x = n_index (nodes ! k)"
    unfolding matched_iff by blast
  from x(2) show "x \<in> (\<Union>e \<in> set (edges (nodes ! i)). matched_via num nodes e s)"
  proof (cases rule: walk.cases)
    case stop
    then show ?thesis using x(3) assms by simp
  next
    case (step us j ts')
    then have "x \<in> matched_via num nodes (us, j) s" using x unfolding matched_iff by auto
    then show ?thesis using step by blast
  qed
next
  fix x assume "x \<in> (\<Union>e \<in> set (edges (nodes ! i)). matched_via num nodes e s)"
  then obtain us j where e: "(us, j) \<in> set (edges (nodes ! i))" "x \<in> matched_via num nodes (us, j) s" by auto
  then obtain ts k where x: "x \<noteq> 0" "walk nodes j ts k" "tmatch num (us @ ts) s" "x = n_index (nodes ! k)"
    unfolding matched_iff by auto
  then show "x \<in> matched num nodes i s" using walk.step [OF e(1) x(2)] unfolding matched_iff by blast
qed

definition roomy :: "node list \<Rightarrow> nat \<Rightarrow> nat \<Rightarrow> bool" where
  "roomy nodes i n \<longleftrightarrow> (\<forall>ts k. walk nodes i ts k \<longrightarrow> n + nparams ts \<le> 128)"

lemma roomy_mono: "roomy nodes i n \<Longrightarrow> m \<le> n \<Longrightarrow> roomy nodes i m"
  unfolding roomy_def by (meson add_le_mono1 le_trans)

lemma roomy_edge:
  assumes "roomy nodes i n" "(us, j) \<in> set (edges (nodes ! i))"
  shows "roomy nodes j (n + nparams us)"
proof -
  have "n + nparams (us @ ts) \<le> 128" if "walk nodes j ts k" for ts k
    using assms(1) walk.step [OF assms(2) that] unfolding roomy_def by blast
  then show ?thesis by (simp add: roomy_def add.assoc)
qed

lemma search_param:
  assumes up: "up nodes" "i < length nodes" "roomy nodes i (psize p0)" "s \<noteq> []"
    and search: "\<And>s' j p. length s' < length s \<Longrightarrow> j < length nodes \<Longrightarrow> roomy nodes j (psize p) \<Longrightarrow>
      \<exists>ret p'. search s' j p = Inr (ret, p') \<and> fst ret = least (matched num nodes j s') \<and> ple p' p"
    and st: "fst (fst st) = least A" "0 \<notin> A" "ple (snd st) p0"
  shows "\<exists>st'. try_param num [] search (nodes ! i) s t st = Inr st' \<and> ple (snd st') p0 \<and>
    fst (fst st') = least (A \<union> (if param_children (nodes ! i) ! type_index t = 0 then {}
      else matched_via num nodes ([Param t], param_children (nodes ! i) ! type_index t) s))"
proof (cases "param_children (nodes ! i) ! type_index t = 0")
  case True
  then show ?thesis using st by (simp add: try_param_def)
next
  case False
  let ?j = "param_children (nodes ! i) ! type_index t"
  have e: "([Param t], ?j) \<in> set (edges (nodes ! i))" using False by (auto simp: edge_iff)
  have j: "?j < length nodes" using up_edge [OF up(1) e up(2)] by simp
  show ?thesis
  proof (cases "read_param num [] t s")
    case None
    then have "matched_via num nodes ([Param t], ?j) s = {}" by (simp add: matched_via_def)
    then show ?thesis using st None False by (simp add: try_param_def)
  next
    case (Some vn)
    then obtain v n where v: "read_param num [] t s = Some (v, n)" by (cases vn) auto
    have n: "0 < n" "n \<le> length s" using read_param_len [OF v] by auto
    then have less: "length (drop n s) < length s" by simp
    have room: "roomy nodes ?j (psize p0 + 1)" using roomy_edge [OF up(3) e] by simp
    have size: "psize (snd st) \<le> psize p0" using ple_size [OF st(3)] .
    have "psize p0 + 1 \<le> 128" using room walk.stop [of nodes ?j] unfolding roomy_def by fastforce
    then obtain q where q: "push_param v (snd st) = Inr q" "psize q = Suc (psize (snd st))"
        "\<forall>r. ple r q \<longrightarrow> ple (pop_param v r) (snd st)"
      using push_param_ok [of "snd st" v] size by auto
    have "roomy nodes ?j (psize q)" using roomy_mono [OF room] q(2) size by simp
    then obtain ret p' where r: "search (drop n s) ?j q = Inr (ret, p')" "fst ret = least (matched num nodes ?j (drop n s))" "ple p' q"
      using search [OF less j \<open>roomy nodes ?j (psize q)\<close>] by blast
    have m: "matched_via num nodes ([Param t], ?j) s = matched num nodes ?j (drop n s)"
      using v up(4) by (simp add: matched_via_def matched_def)
    have "fst (update_found ret (fst st)) = least (A \<union> matched num nodes ?j (drop n s))"
      using update_found_least [OF r(2) st(1) zero_matched(1) st(2)] .
    then show ?thesis using False v n q r m ple_trans [OF _ st(3)] by (auto simp: try_param_def)
  qed
qed

lemma search_child:
  assumes up: "up nodes" "i < length nodes" "roomy nodes i (psize p0)" "e \<in> set (children (nodes ! i))" "s \<noteq> []"
    and search: "\<And>s' j p. length s' < length s \<Longrightarrow> j < length nodes \<Longrightarrow> roomy nodes j (psize p) \<Longrightarrow>
      \<exists>ret p'. search s' j p = Inr (ret, p') \<and> fst ret = least (matched num nodes j s') \<and> ple p' p"
    and st: "fst (fst st) = least A" "0 \<notin> A" "ple (snd st) p0"
  shows "\<exists>st'. try_child search s e st = Inr st' \<and> ple (snd st') p0 \<and>
    fst (fst st') = least (A \<union> matched_via num nodes (map Lit (fst e), snd e) s)"
proof -
  obtain k j where kj: "e = (k, j)" by fastforce
  have e: "(map Lit k, j) \<in> set (edges (nodes ! i))" using up(4) kj by (auto simp: edge_iff)
  have j: "j < length nodes" "k \<noteq> []" using up_edge [OF up(1) e up(2)] by auto
  show ?thesis
  proof (cases "take (length k) s = k")
    case True
    have "length (drop (length k) s) < length s" using j(2) up(5) by (cases k; cases s) auto
    moreover have "roomy nodes j (psize (snd st))"
      using roomy_mono [OF roomy_edge [OF up(3) e]] ple_size [OF st(3)] by simp
    ultimately obtain ret p' where r: "search (drop (length k) s) j (snd st) = Inr (ret, p')"
        "fst ret = least (matched num nodes j (drop (length k) s))" "ple p' (snd st)"
      using search j(1) by blast
    have m: "matched_via num nodes (map Lit k, j) s = matched num nodes j (drop (length k) s)"
      using True by (simp add: matched_via_def matched_def tmatch_frag)
    have "fst (update_found ret (fst st)) = least (A \<union> matched num nodes j (drop (length k) s))"
      using update_found_least [OF r(2) st(1) zero_matched(1) st(2)] .
    then show ?thesis using True r m kj ple_trans [OF _ st(3)] by (auto simp: try_child_def)
  next
    case False
    then have "matched_via num nodes (map Lit k, j) s = {}" by (simp add: matched_via_def tmatch_frag)
    then show ?thesis using False kj st by (simp add: try_child_def)
  qed
qed

lemma find_at_index:
  assumes "up nodes"
  shows "i < length nodes \<Longrightarrow> length s < f \<Longrightarrow> roomy nodes i (psize p) \<Longrightarrow>
    \<exists>ret p'. find_at num [] nodes f s i p = Inr (ret, p') \<and> fst ret = least (matched num nodes i s) \<and> ple p' p"
proof (induction f arbitrary: s i p)
  case (Suc f)
  show ?case
  proof (cases "s = []")
    case True
    have "least (matched num nodes i s) = n_index (nodes ! i)"
      unfolding True matched_stop [OF assms Suc.prems(1)] by (rule least_single)
    then show ?thesis using True Suc.prems(1) by simp
  next
    case False
    let ?search = "find_at num [] nodes f"
    let ?Mt = "\<lambda>t. if param_children (nodes ! i) ! type_index t = 0 then {}
        else matched_via num nodes ([Param t], param_children (nodes ! i) ! type_index t) s"
    let ?Mc = "\<lambda>e. matched_via num nodes (map Lit (fst e), snd e) s"
    have IH: "\<And>s' j p. length s' < length s \<Longrightarrow> j < length nodes \<Longrightarrow> roomy nodes j (psize p) \<Longrightarrow>
        \<exists>ret p'. ?search s' j p = Inr (ret, p') \<and> fst ret = least (matched num nodes j s') \<and> ple p' p"
      using Suc.prems(2) by (intro Suc.IH) auto
    have zt: "0 \<notin> (\<Union>t \<in> set zs. ?Mt t)" and zc: "0 \<notin> (\<Union>e \<in> set es. ?Mc e)" for zs es
    proof -
      have "0 \<notin> ?Mt t" "0 \<notin> ?Mc e" for t e by (simp_all add: zero_matched)
      then show "0 \<notin> (\<Union>t \<in> set zs. ?Mt t)" "0 \<notin> (\<Union>e \<in> set es. ?Mc e)" by blast+
    qed
    let ?It = "\<lambda>zs st. fst (fst st) = least (\<Union>t \<in> set zs. ?Mt t) \<and> ple (snd st) p"
    have "\<exists>st1. foldr_res (try_param num [] ?search (nodes ! i) s) all_types ((0, no_params), p) = Inr st1 \<and> ?It ([] @ all_types) st1"
    proof (rule foldr_res_inv)
      show "?It [] ((0, no_params), p)" by simp
      show "\<exists>st'. try_param num [] ?search (nodes ! i) s t st = Inr st' \<and> ?It (zs @ [t]) st'" if I: "?It zs st" for zs t st
      proof -
        obtain st' where "try_param num [] ?search (nodes ! i) s t st = Inr st'" "ple (snd st') p"
            "fst (fst st') = least ((\<Union>t \<in> set zs. ?Mt t) \<union> ?Mt t)"
          using search_param [OF assms Suc.prems(1,3) False IH conjunct1 [OF I] zt conjunct2 [OF I]] by blast
        moreover have "(\<Union>t \<in> set (zs @ [t]). ?Mt t) = (\<Union>t \<in> set zs. ?Mt t) \<union> ?Mt t" by auto
        ultimately show ?thesis by simp
      qed
    qed
    then obtain st1 where st1: "foldr_res (try_param num [] ?search (nodes ! i) s) all_types ((0, no_params), p) = Inr st1"
        "fst (fst st1) = least (\<Union>t \<in> set all_types. ?Mt t)" "ple (snd st1) p" by auto
    let ?A = "\<Union>t \<in> set all_types. ?Mt t"
    let ?Ic = "\<lambda>zs st. fst (fst st) = least (?A \<union> (\<Union>e \<in> set zs. ?Mc e)) \<and> ple (snd st) p"
    have "\<exists>st2. foldr_res (try_child ?search s) (children (nodes ! i)) st1 = Inr st2 \<and> ?Ic ([] @ children (nodes ! i)) st2"
    proof (rule foldr_res_inv)
      show "?Ic [] st1" using st1(2,3) by simp
      show "\<exists>st'. try_child ?search s e st = Inr st' \<and> ?Ic (zs @ [e]) st'" if e: "e \<in> set (children (nodes ! i))" and I: "?Ic zs st" for zs e st
      proof -
        have "0 \<notin> ?A \<union> (\<Union>e \<in> set zs. ?Mc e)" using zt [of all_types] zc [of zs] by blast
        then obtain st' where "try_child ?search s e st = Inr st'" "ple (snd st') p"
            "fst (fst st') = least ((?A \<union> (\<Union>e \<in> set zs. ?Mc e)) \<union> ?Mc e)"
          using search_child [OF assms Suc.prems(1,3) e False IH conjunct1 [OF I] _ conjunct2 [OF I]] by blast
        moreover have "?A \<union> (\<Union>e \<in> set (zs @ [e]). ?Mc e) = (?A \<union> (\<Union>e \<in> set zs. ?Mc e)) \<union> ?Mc e" by auto
        ultimately show ?thesis by simp
      qed
    qed
    then obtain st2 where st2: "foldr_res (try_child ?search s) (children (nodes ! i)) st1 = Inr st2"
        "fst (fst st2) = least (?A \<union> (\<Union>e \<in> set (children (nodes ! i)). ?Mc e))" "ple (snd st2) p" by auto
    have "(\<Union>t \<in> set all_types. ?Mt t) \<union> (\<Union>e \<in> set (children (nodes ! i)). ?Mc e) = matched num nodes i s"
      unfolding matched_step [OF False] by (auto simp: edges_def split: if_splits)
    then show ?thesis using st1(1) st2 False Suc.prems(1) by (cases st2) auto
  qed
qed simp

lemma find_route_index:
  assumes "up nodes" "roomy nodes 0 0"
  shows "\<exists>ps. find_route num [] nodes url = Inr (least (matched num nodes 0 url), ps)"
proof -
  have N: "0 < length nodes" using assms(1) by (simp add: up_def)
  have "roomy nodes 0 (psize no_params)" using assms(2) by (simp add: psize_def no_params_def)
  from find_at_index [OF assms(1) N _ this, of url "Suc (length url)" num]
  show ?thesis by (auto simp: find_route_def)
qed

section \<open>The parameters of the result\<close>

definition params_add :: "'d routing_params \<Rightarrow> 'd pvalue \<Rightarrow> 'd routing_params" where
  "params_add p v = (case v of
       PInt x \<Rightarrow> p\<lparr>int_params := int_params p @ [x]\<rparr>
     | PUint x \<Rightarrow> p\<lparr>uint_params := uint_params p @ [x]\<rparr>
     | PDouble x \<Rightarrow> p\<lparr>double_params := double_params p @ [x]\<rparr>
     | PString x \<Rightarrow> p\<lparr>string_params := string_params p @ [x]\<rparr>)"

definition params_of :: "'d pvalue list \<Rightarrow> 'd routing_params" where
  "params_of vs = foldl params_add no_params vs"

lemma push_param_add: "psize p < 128 \<Longrightarrow> push_param v p = Inr (params_add p v)"
  by (cases v) (auto simp: psize_def grow_push_def params_add_def)

lemma params_add_pop [simp]: "pop_param v (params_add p v) = p"
  by (cases v) (simp_all add: params_add_def)

lemma params_add_size [simp]: "psize (params_add p v) = Suc (psize p)"
  by (cases v) (simp_all add: params_add_def psize_def)

lemma params_add_ple: "ple r (params_add p v) \<Longrightarrow> ple (pop_param v r) p"
  by (cases v) (auto simp: params_add_def ple_def)

text \<open>The fragments at a node are different, and none begins with another.\<close>

definition prefix_free :: "node list \<Rightarrow> bool" where
  "prefix_free nodes \<longleftrightarrow> (\<forall>i < length nodes. distinct (map fst (children (nodes ! i))) \<and>
     (\<forall>k \<in> fst ` set (children (nodes ! i)). \<forall>k' \<in> fst ` set (children (nodes ! i)). prefix k k' \<longrightarrow> k = k'))"

lemma prefix_freeD:
  assumes "prefix_free nodes" "i < length nodes"
  shows "distinct (children (nodes ! i))"
    "(k, j) \<in> set (children (nodes ! i)) \<Longrightarrow> (k', j') \<in> set (children (nodes ! i)) \<Longrightarrow> prefix k k' \<Longrightarrow> k = k' \<and> j = j'"
proof -
  have d: "distinct (map fst (children (nodes ! i)))"
      "\<forall>k \<in> fst ` set (children (nodes ! i)). \<forall>k' \<in> fst ` set (children (nodes ! i)). prefix k k' \<longrightarrow> k = k'"
    using assms unfolding prefix_free_def by blast+
  show "distinct (children (nodes ! i))" using d(1) by (simp add: distinct_map)
  show "k = k' \<and> j = j'" if kj: "(k, j) \<in> set (children (nodes ! i))" "(k', j') \<in> set (children (nodes ! i))" "prefix k k'"
  proof -
    have "k \<in> fst ` set (children (nodes ! i))" "k' \<in> fst ` set (children (nodes ! i))" using kj(1,2) by force+
    then have "k = k'" using d(2) kj(3) by blast
    then show ?thesis using eq_key_imp_eq_value [OF d(1) kj(1)] kj(2) by simp
  qed
qed

lemma prefix_map_Lit [simp]: "prefix (map Lit k) (map Lit k') \<longleftrightarrow> prefix k k'"
  by (auto simp: prefix_def) (metis (no_types, lifting) map_append map_eq_append_conv map_Lit_inj)

lemma edge_unique:
  assumes "up nodes" "prefix_free nodes" "i < length nodes"
    and "(us, j) \<in> set (edges (nodes ! i))" "(us', j') \<in> set (edges (nodes ! i))" "us @ ts = us' @ ts'"
  shows "us = us' \<and> j = j'"
proof -
  note ne = up_edge [OF assms(1,4,3)] up_edge [OF assms(1,5,3)]
  have lit: "map Lit k \<noteq> [] \<Longrightarrow> map Lit k @ xs \<noteq> [Param t] @ ys" for k xs t ys by (cases k) simp_all
  from assms(4) [unfolded edge_iff] show ?thesis
  proof (elim disjE exE conjE)
    fix t assume t: "us = [Param t]" "j = param_children (nodes ! i) ! type_index t"
    from assms(5) [unfolded edge_iff] show ?thesis
    proof (elim disjE exE conjE)
      fix k' assume "us' = map Lit k'"
      then show ?thesis using lit [of k' ts' t ts] ne t(1) assms(6) by metis
    qed (use t assms(6) in auto)
  next
    fix k assume k: "(k, j) \<in> set (children (nodes ! i))" "us = map Lit k"
    from assms(5) [unfolded edge_iff] show ?thesis
    proof (elim disjE exE conjE)
      fix t assume "us' = [Param t]"
      then show ?thesis using lit [of k ts t ts'] ne k(2) assms(6) by metis
    next
      fix k' assume k': "(k', j') \<in> set (children (nodes ! i))" "us' = map Lit k'"
      have "prefix us us' \<or> prefix us' us" using assms(6) by (metis prefixI prefix_same_cases)
      then show ?thesis
        using k k' prefix_freeD(2) [OF assms(2,3) k(1) k'(1)] prefix_freeD(2) [OF assms(2,3) k'(1) k(1)] by auto
    qed
  qed
qed

definition endings :: "(string \<Rightarrow> 'd option) \<Rightarrow> node list \<Rightarrow> nat \<Rightarrow> token list \<Rightarrow> string \<Rightarrow> (token list \<times> nat) set" where
  "endings num nodes i us s = {(ts, k). walk nodes i ts k \<and> tmatch num (us @ ts) s}"

definition searches ::
  "(string \<Rightarrow> 'd option) \<Rightarrow> node list \<Rightarrow> nat \<Rightarrow> 'd search \<Rightarrow> bool" where
  "searches num nodes n search \<longleftrightarrow> (\<forall>s j p. length s < n \<longrightarrow> j < length nodes \<longrightarrow> roomy nodes j (psize p) \<longrightarrow>
     (endings num nodes j [] s = {} \<longrightarrow> search s j p = Inr ((0, no_params), p)) \<and>
     (\<forall>ts k. endings num nodes j [] s = {(ts, k)} \<and> n_index (nodes ! k) \<noteq> 0 \<longrightarrow>
        (\<exists>p'. search s j p = Inr ((n_index (nodes ! k), foldl params_add p (tvals num ts s)), p') \<and> ple p' p)))"

lemma update_found_zero [simp]: "update_found (0, q) best = best" "fst ret \<noteq> 0 \<Longrightarrow> update_found ret (0, q) = ret"
  by (simp_all add: update_found_def)

lemma try_param_cases:
  assumes up: "up nodes" "i < length nodes" "roomy nodes i (psize p0)" "s \<noteq> []"
    and search: "searches num nodes (length s) search" and p: "ple p p0"
    and t: "([Param t], j) \<in> set (edges (nodes ! i))"
  shows "endings num nodes j [Param t] s = {} \<Longrightarrow> try_param num [] search (nodes ! i) s t (b, p) = Inr (b, p)"
    and "endings num nodes j [Param t] s = {(ts, k)} \<Longrightarrow> n_index (nodes ! k) \<noteq> 0 \<Longrightarrow>
      \<exists>p'. try_param num [] search (nodes ! i) s t ((0, no_params), p) =
        Inr ((n_index (nodes ! k), foldl params_add p (tvals num (Param t # ts) s)), p') \<and> ple p' p"
proof -
  have jt: "j = param_children (nodes ! i) ! type_index t" "j \<noteq> 0" using t by (auto simp: edge_iff)
  have j: "j < length nodes" using up_edge [OF up(1) t up(2)] by simp
  have room: "roomy nodes j (psize p0 + 1)" using roomy_edge [OF up(3) t] by simp
  have "psize p0 + 1 \<le> 128" using room walk.stop [of nodes j] unfolding roomy_def by fastforce
  then have push: "push_param v p = Inr (params_add p v)" for v
    using ple_size [OF p] by (intro push_param_add) simp
  have room': "roomy nodes j (psize (params_add p v))" for v
    using roomy_mono [OF room] ple_size [OF p] by simp
  have some: "length (drop n s) < length s \<and> \<not> length s < n \<and> endings num nodes j [Param t] s = endings num nodes j [] (drop n s)"
    if "read_param num [] t s = Some (v, n)" for v n
    using that read_param_len [OF that] up(4) by (auto simp: endings_def)
  show "try_param num [] search (nodes ! i) s t (b, p) = Inr (b, p)" if "endings num nodes j [Param t] s = {}"
  proof (cases "read_param num [] t s")
    case (Some vn)
    then obtain v n where v: "read_param num [] t s = Some (v, n)" by (cases vn) auto
    have "search (drop n s) j (params_add p v) = Inr ((0, no_params), params_add p v)"
      using search some [OF v] that room' j unfolding searches_def by simp
    then show ?thesis using v some [OF v] push jt by (simp add: try_param_def)
  qed (simp add: try_param_def Let_def)
  show "\<exists>p'. try_param num [] search (nodes ! i) s t ((0, no_params), p) =
        Inr ((n_index (nodes ! k), foldl params_add p (tvals num (Param t # ts) s)), p') \<and> ple p' p"
    if e: "endings num nodes j [Param t] s = {(ts, k)}" and k: "n_index (nodes ! k) \<noteq> 0"
  proof (cases "read_param num [] t s")
    case None
    then have "endings num nodes j [Param t] s = {}" by (auto simp: endings_def)
    then show ?thesis using e by simp
  next
    case (Some vn)
    then obtain v n where v: "read_param num [] t s = Some (v, n)" by (cases vn) auto
    obtain p' where "search (drop n s) j (params_add p v) =
        Inr ((n_index (nodes ! k), foldl params_add (params_add p v) (tvals num ts (drop n s))), p')" "ple p' (params_add p v)"
      using search some [OF v] e k room' j unfolding searches_def by metis
    then show ?thesis using v some [OF v] push jt k params_add_ple by (auto simp: try_param_def)
  qed
qed

lemma try_child_cases:
  assumes up: "up nodes" "i < length nodes" "roomy nodes i (psize p0)" "s \<noteq> []"
    and search: "searches num nodes (length s) search" and p: "ple p p0"
    and e: "(c, j) \<in> set (children (nodes ! i))"
  shows "endings num nodes j (map Lit c) s = {} \<Longrightarrow> try_child search s (c, j) (b, p) = Inr (b, p)"
    and "endings num nodes j (map Lit c) s = {(ts, k)} \<Longrightarrow> n_index (nodes ! k) \<noteq> 0 \<Longrightarrow>
      \<exists>p'. try_child search s (c, j) ((0, no_params), p) =
        Inr ((n_index (nodes ! k), foldl params_add p (tvals num (map Lit c @ ts) s)), p') \<and> ple p' p"
proof -
  have ed: "(map Lit c, j) \<in> set (edges (nodes ! i))" using e by (auto simp: edge_iff)
  have j: "j < length nodes" "c \<noteq> []" using up_edge [OF up(1) ed up(2)] by auto
  have room: "roomy nodes j (psize p)"
    using roomy_mono [OF roomy_edge [OF up(3) ed]] ple_size [OF p] by simp
  have less: "length (drop (length c) s) < length s" using j(2) up(4) by (cases c; cases s) auto
  have some: "take (length c) s = c \<Longrightarrow> endings num nodes j (map Lit c) s = endings num nodes j [] (drop (length c) s)"
    "take (length c) s \<noteq> c \<Longrightarrow> endings num nodes j (map Lit c) s = {}"
    by (auto simp: endings_def tmatch_frag)
  show "try_child search s (c, j) (b, p) = Inr (b, p)" if "endings num nodes j (map Lit c) s = {}"
    using that search some less room j unfolding searches_def by (simp add: try_child_def)
  show "\<exists>p'. try_child search s (c, j) ((0, no_params), p) =
        Inr ((n_index (nodes ! k), foldl params_add p (tvals num (map Lit c @ ts) s)), p') \<and> ple p' p"
    if e: "endings num nodes j (map Lit c) s = {(ts, k)}" and k: "n_index (nodes ! k) \<noteq> 0"
  proof -
    have t: "take (length c) s = c" using e some(2) by auto
    obtain p' where "search (drop (length c) s) j p =
        Inr ((n_index (nodes ! k), foldl params_add p (tvals num ts (drop (length c) s))), p')" "ple p' p"
      using search some(1) [OF t] less e k room j unfolding searches_def by metis
    then show ?thesis using t k by (simp add: try_child_def tvals_frag)
  qed
qed

lemma foldr_res_idle: "(\<And>x. x \<in> set xs \<Longrightarrow> f x st = Inr st) \<Longrightarrow> foldr_res f xs st = Inr st"
  by (induction xs) auto

lemma foldr_res_append: "foldr_res f (xs @ ys) st = rbind (foldr_res f xs st) (foldr_res f ys)"
  by (induction xs arbitrary: st) (auto simp: rbind_def split: sum.split)

text \<open>Of a list without repetitions, only one element does something.\<close>

lemma foldr_res_single:
  assumes "x \<in> set xs" "distinct xs"
    and "\<And>y. y \<in> set xs \<Longrightarrow> y \<noteq> x \<Longrightarrow> f y st = Inr st" "f x st = Inr st'"
    and "\<And>y. y \<in> set xs \<Longrightarrow> y \<noteq> x \<Longrightarrow> f y st' = Inr st'"
  shows "foldr_res f xs st = Inr st'"
proof -
  obtain ys zs where xs: "xs = ys @ x # zs" using assms(1) by (auto simp: in_set_conv_decomp)
  have "foldr_res f ys st = Inr st" "foldr_res f zs st' = Inr st'"
    using assms(2,3,5) xs by (auto intro!: foldr_res_idle)
  then show ?thesis using assms(4) xs by (simp add: foldr_res_append)
qed

lemma endings_step:
  assumes "s \<noteq> []"
  shows "(ts, k) \<in> endings num nodes i [] s \<longleftrightarrow>
    (\<exists>us j ts'. (us, j) \<in> set (edges (nodes ! i)) \<and> ts = us @ ts' \<and> (ts', k) \<in> endings num nodes j us s)"
proof
  assume "(ts, k) \<in> endings num nodes i [] s"
  then have w: "walk nodes i ts k" "tmatch num ts s" by (auto simp: endings_def)
  from w(1) show "\<exists>us j ts'. (us, j) \<in> set (edges (nodes ! i)) \<and> ts = us @ ts' \<and> (ts', k) \<in> endings num nodes j us s"
    using w(2) assms by (cases rule: walk.cases) (auto simp: endings_def)
qed (auto simp: endings_def intro: walk.step)

lemma other_edge_dead:
  assumes "up nodes" "prefix_free nodes" "i < length nodes" "s \<noteq> []" "endings num nodes i [] s = {(us @ ts, k)}"
    and "(us, j) \<in> set (edges (nodes ! i))" "(us', j') \<in> set (edges (nodes ! i))" "us \<noteq> us' \<or> j \<noteq> j'"
  shows "endings num nodes j' us' s = {}"
proof (rule ccontr)
  assume "endings num nodes j' us' s \<noteq> {}"
  then obtain ts' k' where "(ts', k') \<in> endings num nodes j' us' s" by fastforce
  then have "(us' @ ts', k') \<in> endings num nodes i [] s" using endings_step [OF assms(4)] assms(7) by blast
  then have "us' @ ts' = us @ ts" using assms(5) by simp
  from edge_unique [OF assms(1-3,7,6) this] show False using assms(8) by simp
qed

lemma this_edge_alone:
  assumes "s \<noteq> []" "endings num nodes i [] s = {(us @ ts, k)}" "(us, j) \<in> set (edges (nodes ! i))" "(ts, k) \<in> endings num nodes j us s"
  shows "endings num nodes j us s = {(ts, k)}"
proof -
  have "x \<in> {(ts, k)}" if "x \<in> endings num nodes j us s" for x
  proof (cases x)
    case (Pair ts' k')
    have "(us @ ts', k') \<in> endings num nodes i [] s" using endings_step [OF assms(1)] assms(3) that Pair by blast
    then have "(us @ ts', k') \<in> {(us @ ts, k)}" unfolding assms(2) .
    then show ?thesis unfolding Pair by simp
  qed
  then have "endings num nodes j us s \<subseteq> {(ts, k)}" by (rule subsetI)
  moreover have "{(ts, k)} \<subseteq> endings num nodes j us s" using assms(4) by (rule insert_subsetI) (rule empty_subsetI)
  ultimately show ?thesis by (rule equalityI)
qed

lemma find_at_searches:
  assumes "up nodes" "prefix_free nodes"
  shows "searches num nodes f (find_at num [] nodes f)"
proof (induction f)
  case 0
  then show ?case by (simp add: searches_def)
next
  case (Suc f)
  show ?case unfolding searches_def
  proof (intro allI impI)
    fix s :: string and i and p :: "'a routing_params"
    assume s: "length s < Suc f" and i: "i < length nodes" and room: "roomy nodes i (psize p)"
    let ?search = "find_at num [] nodes f"
    let ?tp = "try_param num [] ?search (nodes ! i) s" and ?tc = "try_child ?search s"
    have sub: "searches num nodes (length s) ?search" using Suc s unfolding searches_def by simp
    have stop: "endings num nodes i [] [] = {([], i)}"
    proof -
      have "tmatch num ts [] \<longleftrightarrow> ts = []" for ts by (cases ts rule: nparams.cases) auto
      then show ?thesis using walk_up [OF _ assms(1) i] walk.stop by (auto simp: endings_def)
    qed
    have run: "find_at num [] nodes (Suc f) s i p = rbind (foldr_res ?tp all_types ((0, no_params), p)) (foldr_res ?tc (children (nodes ! i)))"
      if "s \<noteq> []" using that i by simp
    have idle_p: "?tp t (b, q) = Inr (b, q)"
      if "s \<noteq> []" "ple q p" "\<And>j. ([Param t], j) \<in> set (edges (nodes ! i)) \<Longrightarrow> endings num nodes j [Param t] s = {}" for t b q
    proof (cases "param_children (nodes ! i) ! type_index t = 0")
      case False
      then have "([Param t], param_children (nodes ! i) ! type_index t) \<in> set (edges (nodes ! i))" by (auto simp: edge_iff)
      then show ?thesis using try_param_cases(1) [OF assms(1) i room that(1) sub that(2)] that(3) by blast
    qed (simp add: try_param_def)
    have idle_c: "?tc e (b, q) = Inr (b, q)"
      if "s \<noteq> []" "ple q p" "e \<in> set (children (nodes ! i))" "endings num nodes (snd e) (map Lit (fst e)) s = {}" for e b q
      using try_child_cases(1) [OF assms(1) i room that(1) sub that(2), of "fst e" "snd e"] that(3,4) by simp
    have lit: "(map Lit (fst e), snd e) \<in> set (edges (nodes ! i))" if "e \<in> set (children (nodes ! i))" for e
      using that by (auto simp: edge_iff)
    show "(endings num nodes i [] s = {} \<longrightarrow> find_at num [] nodes (Suc f) s i p = Inr ((0, no_params), p)) \<and>
     (\<forall>ts k. endings num nodes i [] s = {(ts, k)} \<and> n_index (nodes ! k) \<noteq> 0 \<longrightarrow>
        (\<exists>p'. find_at num [] nodes (Suc f) s i p = Inr ((n_index (nodes ! k), foldl params_add p (tvals num ts s)), p') \<and> ple p' p))"
    proof (cases "s = []")
      case True
      then show ?thesis using stop i by auto
    next
      case s0: False
      show ?thesis
      proof (intro conjI allI impI)
        assume none: "endings num nodes i [] s = {}"
        then have "endings num nodes j us s = {}" if "(us, j) \<in> set (edges (nodes ! i))" for us j
          using endings_step [OF s0, of _ _ num nodes i] that by fastforce
        then have "foldr_res ?tp all_types ((0, no_params), p) = Inr ((0, no_params), p)"
          "foldr_res ?tc (children (nodes ! i)) ((0, no_params), p) = Inr ((0, no_params), p)"
          using s0 lit by (auto intro!: foldr_res_idle idle_p idle_c)
        then show "find_at num [] nodes (Suc f) s i p = Inr ((0, no_params), p)" using run [OF s0] by simp
      next
        fix ts k assume e: "endings num nodes i [] s = {(ts, k)} \<and> n_index (nodes ! k) \<noteq> 0"
        then obtain us j ts' where u: "(us, j) \<in> set (edges (nodes ! i))" "ts = us @ ts'" "(ts', k) \<in> endings num nodes j us s"
          using endings_step [OF s0, of ts k num nodes i] by auto
        have one: "endings num nodes i [] s = {(us @ ts', k)}" using e u(2) by simp
        note alone = this_edge_alone [OF s0 one u(1,3)]
        note dead = other_edge_dead [OF assms i s0 one u(1)]
        from u(1) [unfolded edge_iff]
        show "\<exists>p'. find_at num [] nodes (Suc f) s i p = Inr ((n_index (nodes ! k), foldl params_add p (tvals num ts s)), p') \<and> ple p' p"
        proof (elim disjE exE conjE)
          fix t assume t: "us = [Param t]"
          obtain p' where p': "?tp t ((0, no_params), p) = Inr ((n_index (nodes ! k), foldl params_add p (tvals num ts s)), p')" "ple p' p"
            using try_param_cases(2) [OF assms(1) i room s0 sub ple_refl, of t j ts' k] u(1,2) alone e t by auto
          let ?st = "((n_index (nodes ! k), foldl params_add p (tvals num ts s)), p')"
          have "foldr_res ?tp all_types ((0, no_params), p) = Inr ?st"
          proof (rule foldr_res_single [where x = t and f = ?tp and st' = ?st])
            show "t \<in> set all_types" "distinct all_types" by (rule set_types, simp add: all_types_def)
            show "?tp t ((0, no_params), p) = Inr ?st" by (rule p'(1))
            show "?tp u ((0, no_params), p) = Inr ((0, no_params), p)" "?tp u ?st = Inr ?st" if "u \<noteq> t" for u
              using dead t that p'(2) by (auto intro!: idle_p s0)
          qed
          moreover have "?tc x ?st = Inr ?st" if x: "x \<in> set (children (nodes ! i))" for x
          proof -
            have "us \<noteq> map Lit (fst x)" using t by (cases "fst x") auto
            then show ?thesis using dead [OF lit [OF x]] by (intro idle_c s0 p'(2) x) simp
          qed
          ultimately show ?thesis using run [OF s0] p'(2) foldr_res_idle [of "children (nodes ! i)" ?tc ?st] by simp
        next
          fix c assume c: "(c, j) \<in> set (children (nodes ! i))" "us = map Lit c"
          obtain p' where p': "?tc (c, j) ((0, no_params), p) = Inr ((n_index (nodes ! k), foldl params_add p (tvals num ts s)), p')" "ple p' p"
            using try_child_cases(2) [OF assms(1) i room s0 sub ple_refl c(1), of ts' k] u(2) alone e c(2) by auto
          let ?st = "((n_index (nodes ! k), foldl params_add p (tvals num ts s)), p')"
          have "?tp t ((0, no_params), p) = Inr ((0, no_params), p)" for t
          proof -
            have "us \<noteq> [Param t]" using c(2) by (cases c) auto
            then show ?thesis using dead by (intro idle_p s0 ple_refl) simp
          qed
          then have "foldr_res ?tp all_types ((0, no_params), p) = Inr ((0, no_params), p)" by (intro foldr_res_idle)
          moreover have "foldr_res ?tc (children (nodes ! i)) ((0, no_params), p) = Inr ?st"
          proof (rule foldr_res_single [where x = "(c, j)" and f = ?tc and st' = ?st])
            show "(c, j) \<in> set (children (nodes ! i))" "distinct (children (nodes ! i))"
              by (rule c(1), rule prefix_freeD(1) [OF assms(2) i])
            show "?tc (c, j) ((0, no_params), p) = Inr ?st" by (rule p'(1))
            show "?tc x ((0, no_params), p) = Inr ((0, no_params), p)" "?tc x ?st = Inr ?st"
              if x: "x \<in> set (children (nodes ! i))" "x \<noteq> (c, j)" for x
            proof -
              have "us \<noteq> map Lit (fst x) \<or> j \<noteq> snd x" using c(2) x(2) by (cases x) auto
              then have "endings num nodes (snd x) (map Lit (fst x)) s = {}" by (rule dead [OF lit [OF x(1)]])
              note idle = idle_c [OF s0 _ x(1) this]
              show "?tc x ((0, no_params), p) = Inr ((0, no_params), p)" "?tc x ?st = Inr ?st"
                by (rule idle [OF ple_refl], rule idle [OF p'(2)])
            qed
          qed
          ultimately show ?thesis using run [OF s0] p'(2) by simp
        qed
      qed
    qed
  qed
qed

lemma find_route_params:
  assumes "up nodes" "prefix_free nodes" "roomy nodes 0 0"
    and "endings num nodes 0 [] url = {(ts, k)}" "n_index (nodes ! k) \<noteq> 0"
  shows "find_route num [] nodes url = Inr (n_index (nodes ! k), params_of (tvals num ts url))"
proof -
  have "0 < length nodes" "roomy nodes 0 (psize (no_params :: 'a routing_params))"
    using assms(1,3) by (simp_all add: up_def psize_def no_params_def)
  then show ?thesis
    using find_at_searches [OF assms(1,2), of num "Suc (length url)"] assms(4,5)
    unfolding searches_def find_route_def params_of_def by fastforce
qed

end
