(* ===== verification/Route_Optimize.thy ===== *)
theory Route_Optimize
  imports Route_Find
begin

text \<open>
  Optimizing the route trie keeps its routes: joining the fragments of a node with those of its
  children, node by node, and copying what is reachable to a new array.
\<close>

section \<open>What an optimization keeps\<close>

definition keeps :: "node list \<Rightarrow> node list \<Rightarrow> bool" where
  "keeps nodes nodes' \<longleftrightarrow>
     length nodes' = length nodes \<and> up nodes' \<and> prefix_free nodes' \<and>
     (\<forall>i. n_index (nodes' ! i) = n_index (nodes ! i) \<and> param_children (nodes' ! i) = param_children (nodes ! i)) \<and>
     (\<forall>i < length nodes. \<forall>ts k. walk nodes' i ts k \<longrightarrow> walk nodes i ts k) \<and>
     (\<forall>i < length nodes. \<forall>ts k. walk nodes i ts k \<and> n_index (nodes ! k) \<noteq> 0 \<longrightarrow> walk nodes' i ts k)"

lemma keeps_refl: "up nodes \<Longrightarrow> prefix_free nodes \<Longrightarrow> keeps nodes nodes"
  by (simp add: keeps_def)

lemma keeps_trans: "keeps a b \<Longrightarrow> keeps b c \<Longrightarrow> keeps a c"
  unfolding keeps_def by metis

lemma keepsD:
  assumes "keeps nodes nodes'"
  shows "length nodes' = length nodes" "up nodes'" "prefix_free nodes'"
    "n_index (nodes' ! i) = n_index (nodes ! i)" "param_children (nodes' ! i) = param_children (nodes ! i)"
    "i < length nodes \<Longrightarrow> walk nodes' i ts k \<Longrightarrow> walk nodes i ts k"
    "i < length nodes \<Longrightarrow> walk nodes i ts k \<Longrightarrow> n_index (nodes ! k) \<noteq> 0 \<Longrightarrow> walk nodes' i ts k"
  using assms unfolding keeps_def by blast+

lemma keeps_routes: "keeps nodes nodes' \<Longrightarrow> i < length nodes \<Longrightarrow> routes nodes' i = routes nodes i"
  unfolding routes_def using keepsD(4,6,7) by (intro Collect_cong) (fastforce split: prod.splits)

section \<open>One merge\<close>

lemma merge_children_at:
  assumes "i < length nodes"
  shows "children (merge_children nodes i ! a) = (if a = i then
      concat (map (\<lambda>(k, v). map (\<lambda>(ck, cv). (k @ ck, cv)) (children (nodes ! v))) (children (nodes ! i))) else children (nodes ! a))"
    "param_children (merge_children nodes i ! a) = param_children (nodes ! a)"
    "n_index (merge_children nodes i ! a) = n_index (nodes ! a)" "length (merge_children nodes i) = length nodes"
  using assms by (cases "a = i"; simp add: merge_children_def)+

lemma merged_keys:
  assumes "distinct (map fst cs)" "\<And>k k'. k \<in> fst ` set cs \<Longrightarrow> k' \<in> fst ` set cs \<Longrightarrow> prefix k k' \<Longrightarrow> k = k'"
    and "\<And>k v. (k, v) \<in> set cs \<Longrightarrow> distinct (map fst (D v))"
  shows "distinct (map fst (concat (map (\<lambda>(k, v). map (\<lambda>(ck, cv). (k @ ck, cv)) (D v)) cs)))"
  using assms
proof (induction cs)
  case (Cons c cs)
  obtain k v where c: "c = (k, v)" by fastforce
  let ?A = "map (\<lambda>(ck, cv). (k @ ck, cv)) (D v)"
  let ?B = "concat (map (\<lambda>(k, v). map (\<lambda>(ck, cv). (k @ ck, cv)) (D v)) cs)"
  have keys: "map fst ?A = map ((@) k) (map fst (D v))" by (simp add: case_prod_unfold)
  have "x \<notin> set (map fst ?B)" if x: "x \<in> set (map fst ?A)" for x
  proof
    assume "x \<in> set (map fst ?B)"
    then obtain k' v' ck' where k': "(k', v') \<in> set cs" "x = k' @ ck'" by auto
    obtain ck where "x = k @ ck" using x by auto
    then have "prefix k k' \<or> prefix k' k" using k'(2) by (metis prefixI prefix_same_cases)
    moreover have "k' \<in> fst ` set (c # cs)" "k \<in> fst ` set (c # cs)" using k'(1) c by force+
    ultimately have eq: "k = k'" using Cons.prems(2) by metis
    have "k' \<in> fst ` set cs" using k'(1) by force
    then show False using eq Cons.prems(1) c by simp
  qed
  then have "set (map fst ?A) \<inter> set (map fst ?B) = {}" by blast
  moreover have "distinct (map fst ?A)"
    unfolding keys using Cons.prems(3) [of k v] c by (simp add: distinct_map inj_on_def del: map_map)
  moreover have "distinct (map fst ?B)"
  proof (rule Cons.IH)
    show "k = k'" if "k \<in> fst ` set cs" "k' \<in> fst ` set cs" "prefix k k'" for k k'
      by (rule Cons.prems(2)) (use that in auto)
  qed (use Cons.prems(1,3) in auto)
  ultimately have "distinct (map fst (?A @ ?B))" by (simp only: map_append distinct_append simp_thms)
  then show ?case using c by simp
qed simp

lemma merge_edges:
  assumes "i < length nodes"
  shows "(us, j) \<in> set (edges (merge_children nodes i ! a)) \<longleftrightarrow>
    (if a = i then (\<exists>t. us = [Param t] \<and> j = param_children (nodes ! i) ! type_index t \<and> j \<noteq> 0) \<or>
        (\<exists>k v ck. (k, v) \<in> set (children (nodes ! i)) \<and> (ck, j) \<in> set (children (nodes ! v)) \<and> us = map Lit k @ map Lit ck)
     else (us, j) \<in> set (edges (nodes ! a)))"
proof (cases "a = i")
  case True
  have "(\<exists>k. (k, j) \<in> set (concat (map (\<lambda>(k, v). map (\<lambda>(ck, cv). (k @ ck, cv)) (children (nodes ! v))) (children (nodes ! i)))) \<and> us = map Lit k) \<longleftrightarrow>
      (\<exists>k v ck. (k, v) \<in> set (children (nodes ! i)) \<and> (ck, j) \<in> set (children (nodes ! v)) \<and> us = map Lit k @ map Lit ck)"
    by (force simp: image_iff)
  then show ?thesis using True unfolding edge_iff merge_children_at [OF assms] by simp
next
  case False
  then show ?thesis unfolding edge_iff merge_children_at [OF assms] by simp
qed

lemma merge_edge_cases:
  assumes "i < length nodes" "(us, j) \<in> set (edges (merge_children nodes i ! i))"
  obtains (param) "(us, j) \<in> set (edges (nodes ! i))"
  | (pair) k v ck where "(k, v) \<in> set (children (nodes ! i))" "(ck, j) \<in> set (children (nodes ! v))" "us = map Lit k @ map Lit ck"
proof -
  have "(\<exists>t. us = [Param t] \<and> j = param_children (nodes ! i) ! type_index t \<and> j \<noteq> 0) \<or>
      (\<exists>k v ck. (k, v) \<in> set (children (nodes ! i)) \<and> (ck, j) \<in> set (children (nodes ! v)) \<and> us = map Lit k @ map Lit ck)"
    using assms(2) merge_edges [OF assms(1), of us j i] by simp
  then show ?thesis using param pair edge_iff [of us j "nodes ! i"] by blast
qed

lemma merge_keeps:
  assumes "up nodes" "prefix_free nodes" "i < length nodes"
    and "list_all (\<lambda>(k, v). is_simple (nodes ! v)) (children (nodes ! i))"
  shows "keeps nodes (merge_children nodes i)"
proof -
  let ?m = "merge_children nodes i"
  note at = merge_children_at [OF assms(3)] and me = merge_edges [OF assms(3)]
  have lit: "(map Lit k, v) \<in> set (edges (nodes ! a))" if "(k, v) \<in> set (children (nodes ! a))" for k v a
    using that by (auto simp: edge_iff)
  have child: "v < length nodes \<and> i < v \<and> k \<noteq> []" if "(k, v) \<in> set (children (nodes ! i))" for k v
    using up_edge [OF assms(1) lit [OF that] assms(3)] by auto
  have up: "up ?m" unfolding up_def at(4)
  proof (intro conjI allI impI)
    show "?m \<noteq> []" using assms(3) at(4) by (metis length_0_conv not_less_zero)
  next
    fix a assume a: "a < length nodes"
    show "length (param_children (?m ! a)) = 5" using assms(1) a unfolding at up_def by blast
    fix us j assume e: "(us, j) \<in> set (edges (?m ! a))"
    have "us \<noteq> [] \<and> a < j \<and> j < length nodes"
    proof (cases "a = i")
      case True
      from e True have "(us, j) \<in> set (edges (?m ! i))" by simp
      with assms(3) show ?thesis
      proof (cases rule: merge_edge_cases)
        case param
        then show ?thesis using up_edge [OF assms(1) _ a] True by blast
      next
        case (pair k v ck)
        then show ?thesis using child [OF pair(1)] up_edge [OF assms(1) lit [OF pair(2)]] True by auto
      qed
    next
      case False
      then show ?thesis using e [unfolded me] up_edge [OF assms(1) _ a] by auto
    qed
    then show "us \<noteq> []" "a < j" "j < length nodes" by auto
  qed
  have keys: "distinct (map fst (children (nodes ! a)))"
      "\<And>k k'. k \<in> fst ` set (children (nodes ! a)) \<Longrightarrow> k' \<in> fst ` set (children (nodes ! a)) \<Longrightarrow> prefix k k' \<Longrightarrow> k = k'"
    if "a < length nodes" for a
    using assms(2) that unfolding prefix_free_def by blast+
  have free: "prefix_free ?m" unfolding prefix_free_def at(4)
  proof (intro allI impI)
    fix a assume a: "a < length nodes"
    show "distinct (map fst (children (?m ! a))) \<and>
     (\<forall>k \<in> fst ` set (children (?m ! a)). \<forall>k' \<in> fst ` set (children (?m ! a)). prefix k k' \<longrightarrow> k = k')"
    proof (cases "a = i")
      case True
      have "distinct (map fst (children (?m ! i)))"
        unfolding at(1) using merged_keys [OF keys [OF assms(3)], of "\<lambda>v. children (nodes ! v)"] keys(1) child by auto
      moreover have "x = y"
        if x: "(x, vx) \<in> set (children (?m ! i))" and y: "(y, vy) \<in> set (children (?m ! i))" and p: "prefix x y" for x vx y vy
      proof -
        obtain k v ck where k: "(k, v) \<in> set (children (nodes ! i))" "(ck, vx) \<in> set (children (nodes ! v))" "x = k @ ck"
          using x unfolding at(1) by auto
        obtain k' v' ck' where k': "(k', v') \<in> set (children (nodes ! i))" "(ck', vy) \<in> set (children (nodes ! v'))" "y = k' @ ck'"
          using y unfolding at(1) by auto
        have "prefix k y" "prefix k' y" using p k(3) k'(3) by (auto simp: prefix_def)
        then have "prefix k k' \<or> prefix k' k" by (rule prefix_same_cases)
        then have "k = k' \<and> v = v'"
          using prefix_freeD(2) [OF assms(2,3) k(1) k'(1)] prefix_freeD(2) [OF assms(2,3) k'(1) k(1)] by blast
        then show ?thesis using prefix_freeD(2) [OF assms(2) _ k(2), of ck' vy] k' k(3) child [OF k(1)] p by auto
      qed
      ultimately show ?thesis using True by force
    next
      case False
      then show ?thesis unfolding at(1) using keys [OF a] by simp
    qed
  qed
  have back1: "walk nodes a ts k" if "walk ?m a ts k" "a < length nodes" for a ts k
    using that
  proof (induction rule: walk.induct)
    case (step us j a ts k)
    have j: "j < length nodes" using up_edge [OF up step.hyps(1)] step.prems at(4) by simp
    show ?case
    proof (cases "a = i")
      case True
      from step.hyps(1) True have "(us, j) \<in> set (edges (?m ! i))" by simp
      with assms(3) show ?thesis
      proof (cases rule: merge_edge_cases)
        case param
        then show ?thesis using walk.step step.IH [OF j] True by blast
      next
        case (pair c v cc)
        have "walk nodes v (map Lit cc @ ts) k" using walk.step [OF lit [OF pair(2)] step.IH [OF j]] .
        then show ?thesis using walk.step [OF lit [OF pair(1)]] pair(3) True by fastforce
      qed
    next
      case False
      then show ?thesis using step.hyps(1) [unfolded me] walk.step step.IH [OF j] by auto
    qed
  qed (rule walk.stop)
  have forth: "walk nodes a ts k \<Longrightarrow> a < length nodes \<Longrightarrow> n_index (nodes ! k) \<noteq> 0 \<Longrightarrow> walk ?m a ts k" for a ts k
  proof (induction "length ts" arbitrary: a ts rule: less_induct)
    case less
    from less.prems(1) show ?case
    proof (cases rule: walk.cases)
      case (step us j ts')
      note e = up_edge [OF assms(1) step(2) less.prems(2)]
      have IH: "walk ?m j ts' k" using step e less.prems(3) by (intro less.hyps) auto
      show ?thesis
      proof (cases "a = i \<and> (\<exists>c. (c, j) \<in> set (children (nodes ! i)) \<and> us = map Lit c)")
        case True
        then obtain c where c: "(c, j) \<in> set (children (nodes ! i))" "us = map Lit c" "a = i" by blast
        have simple: "is_simple (nodes ! j)" using assms(4) c(1) by (auto simp: list_all_iff)
        from step(3) show ?thesis
        proof (cases rule: walk.cases)
          case stop
          then show ?thesis using simple less.prems(3) by (simp add: is_simple_def)
        next
          case inner: (step us2 j2 ts2)
          have "param_children (nodes ! j) ! type_index t = 0" for t
          proof -
            have "length (param_children (nodes ! j)) = 5" using e assms(1) unfolding up_def by blast
            then show ?thesis using simple type_index_less [of t] by (simp add: is_simple_def list_all_length)
          qed
          then obtain cc where cc: "(cc, j2) \<in> set (children (nodes ! j))" "us2 = map Lit cc"
            using inner(2) unfolding edge_iff by auto
          have e2: "us2 \<noteq> [] \<and> j2 < length nodes" using up_edge [OF assms(1) inner(2)] e by simp
          have "walk ?m j2 ts2 k" using inner step e e2 less.prems(3) by (intro less.hyps) auto
          moreover have "(us @ us2, j2) \<in> set (edges (?m ! i))" unfolding me using c cc by auto
          ultimately show ?thesis using walk.step [of "us @ us2" j2 ?m i ts2 k] step(1) inner(1) c(3) by simp
        qed
      next
        case False
        have "(us, j) \<in> set (edges (?m ! a))"
          using step(2) False me [of us j a] edge_iff [of us j "nodes ! a"] by (cases "a = i") auto
        then show ?thesis using walk.step IH step(1) by blast
      qed
    qed (simp add: walk.stop)
  qed
  show ?thesis unfolding keeps_def using up free at back1 forth by simp
qed

section \<open>All merges\<close>

text \<open>How deep the recursion can go: a merge makes the nearest child of the node a later one.\<close>

definition nearest :: "node list \<Rightarrow> nat \<Rightarrow> nat" where
  "nearest nodes i = (if children (nodes ! i) = [] then length nodes else Min (snd ` set (children (nodes ! i))))"

definition depth :: "node list \<Rightarrow> nat \<Rightarrow> nat" where
  "depth nodes i = (length nodes - i) * (length nodes + 1) + (length nodes - nearest nodes i)"

lemma depth_later:
  assumes "i < x" "x < length nodes" "length ns = length nodes"
  shows "depth ns x < depth nodes i"
proof -
  let ?N = "length nodes"
  have "depth ns x \<le> (?N - x) * (?N + 1) + ?N" using assms(3) by (simp add: depth_def)
  also have "\<dots> < (?N - x + 1) * (?N + 1)" by simp
  also have "\<dots> \<le> (?N - i) * (?N + 1)" using assms(1,2) by (intro mult_le_mono1) simp
  also have "\<dots> \<le> depth nodes i" by (simp add: depth_def)
  finally show ?thesis .
qed

lemma depth_merge:
  assumes "up nodes" "i < length nodes" "children (nodes ! i) \<noteq> []"
  shows "depth (merge_children nodes i) i < depth nodes i"
proof -
  let ?m = "merge_children nodes i"
  note at = merge_children_at [OF assms(2)]
  have far: "v < length nodes" if "(k, v) \<in> set (children (nodes ! i))" for k v
    using up_edge [OF assms(1) _ assms(2), of "map Lit k" v] that by (auto simp: edge_iff)
  obtain c where c: "c \<in> set (children (nodes ! i))" using assms(3) by (meson list.set_sel(1))
  then have "nearest nodes i \<le> snd c" using assms(3) by (simp add: nearest_def)
  then have less: "nearest nodes i < length nodes" using far [of "fst c" "snd c"] c by simp
  have "nearest nodes i < nearest ?m i"
  proof (cases "children (?m ! i) = []")
    case True
    then show ?thesis using less at(4) by (simp add: nearest_def)
  next
    case False
    have "nearest nodes i < cv" if cv: "cv \<in> snd ` set (children (?m ! i))" for cv
    proof -
      obtain k v ck where e: "(k, v) \<in> set (children (nodes ! i))" "(ck, cv) \<in> set (children (nodes ! v))"
        using cv unfolding at(1) by auto
      have "v < cv" using up_edge [OF assms(1) _ far [OF e(1)], of "map Lit ck" cv] e(2) by (auto simp: edge_iff)
      moreover have "nearest nodes i \<le> v"
        using e(1) assms(3) by (auto simp: nearest_def intro!: Min_le image_eqI [of _ snd "(k, v)"])
      ultimately show ?thesis by simp
    qed
    then show ?thesis using False by (simp add: nearest_def Min_gr_iff)
  qed
  then show ?thesis using less at(4) by (simp add: depth_def)
qed

lemma optimize_node_keeps:
  assumes "up nodes" "prefix_free nodes" "i < length nodes" "depth nodes i < f"
  shows "\<exists>ns. optimize_node f nodes i = Inr ns \<and> keeps nodes ns \<and> (\<forall>a < i. ns ! a = nodes ! a)"
  using assms
proof (induction f arbitrary: nodes i)
  case (Suc f)
  let ?I = "\<lambda>base zs ns. keeps base ns \<and> (\<forall>a \<le> i. ns ! a = base ! a)"
  have later: "\<exists>ns'. optimize_node f ns x = Inr ns' \<and> ?I base (zs @ [z]) ns'"
    if I: "?I base zs ns" and x: "i < x" "x < length nodes" and b: "length base = length nodes" for base zs z ns x
  proof -
    note k = keepsD(1-3) [OF conjunct1 [OF I]]
    have l: "length ns = length nodes" using k(1) b by simp
    have "depth ns x < f" using depth_later [OF x l] Suc.prems(4) by simp
    then obtain ns' where ns': "optimize_node f ns x = Inr ns'" "keeps ns ns'" "\<forall>a < x. ns' ! a = ns ! a"
      using Suc.IH [OF k(2,3)] l x(2) by auto
    have "keeps base ns'" by (rule keeps_trans [OF conjunct1 [OF I] ns'(2)])
    then show ?thesis using I x(1) ns' by simp
  qed
  have N: "length (param_children (nodes ! i)) = 5" using Suc.prems(1,3) unfolding up_def by blast
  obtain n1 where n1: "foldr_res (\<lambda>x ns. if x = 0 then Inr ns else optimize_node f ns x) (param_children (nodes ! i)) nodes = Inr n1"
      "keeps nodes n1" "\<forall>a \<le> i. n1 ! a = nodes ! a"
  proof -
    have "\<exists>n1. foldr_res (\<lambda>x ns. if x = 0 then Inr ns else optimize_node f ns x) (param_children (nodes ! i)) nodes = Inr n1 \<and>
        ?I nodes ([] @ param_children (nodes ! i)) n1"
    proof (rule foldr_res_inv)
      show "?I nodes [] nodes" using keeps_refl [OF Suc.prems(1,2)] by simp
      show "\<exists>s'. (if x = 0 then Inr ns else optimize_node f ns x) = Inr s' \<and> ?I nodes (zs @ [x]) s'"
        if x: "x \<in> set (param_children (nodes ! i))" and I: "?I nodes zs ns" for zs x ns
      proof (cases "x = 0")
        case False
        obtain m where "m < 5" "param_children (nodes ! i) ! m = x" using x N by (auto simp: in_set_conv_nth)
        then obtain t where "param_children (nodes ! i) ! type_index t = x"
          using type_index_surj by blast
        then have "([Param t], x) \<in> set (edges (nodes ! i))" using False by (auto simp: edge_iff)
        then have "i < x \<and> x < length nodes" using up_edge [OF Suc.prems(1) _ Suc.prems(3)] by blast
        then show ?thesis using later [OF I] False by simp
      qed (use I in simp)
    qed
    then show ?thesis using that by auto
  qed
  note k1 = keepsD(1-3) [OF n1(2)]
  show ?case
  proof (cases "children (n1 ! i) = []")
    case True
    then show ?thesis using n1 by simp
  next
    case ne: False
    have i1: "i < length n1" using k1(1) Suc.prems(3) by simp
    show ?thesis
    proof (cases "list_all (\<lambda>(k, v). is_simple (n1 ! v)) (children (n1 ! i))")
      case True
      have mk: "keeps n1 (merge_children n1 i)" by (rule merge_keeps [OF k1(2,3) i1 True])
      have frame: "\<forall>a < i. merge_children n1 i ! a = n1 ! a" by (simp add: merge_children_def)
      have "nearest n1 i = nearest nodes i" using n1(3) k1(1) by (simp add: nearest_def)
      then have d: "depth (merge_children n1 i) i < f"
        using depth_merge [OF k1(2) i1 ne] Suc.prems(4) k1(1) by (simp add: depth_def)
      have "i < length (merge_children n1 i)" using keepsD(1) [OF mk] i1 by simp
      then obtain ns where ns: "optimize_node f (merge_children n1 i) i = Inr ns" "keeps (merge_children n1 i) ns"
          "\<forall>a < i. ns ! a = merge_children n1 i ! a"
        using Suc.IH [OF keepsD(2,3) [OF mk] _ d] by blast
      have "keeps nodes ns" using keeps_trans [OF n1(2) keeps_trans [OF mk ns(2)]] .
      then show ?thesis using n1(1,3) ns(1,3) ne True frame by simp
    next
      case False
      have "\<exists>ns. foldr_res (\<lambda>(k, v) ns. optimize_node f ns v) (children (n1 ! i)) n1 = Inr ns \<and> ?I n1 ([] @ children (n1 ! i)) ns"
      proof (rule foldr_res_inv)
        show "?I n1 [] n1" using keeps_refl [OF k1(2,3)] by simp
        show "\<exists>s'. (case e of (k, v) \<Rightarrow> \<lambda>ns. optimize_node f ns v) ns = Inr s' \<and> ?I n1 (zs @ [e]) s'"
          if e: "e \<in> set (children (n1 ! i))" and I: "?I n1 zs ns" for zs e ns
        proof -
          obtain k v where kv: "e = (k, v)" by fastforce
          have "(map Lit k, v) \<in> set (edges (n1 ! i))" using e kv by (auto simp: edge_iff)
          then have "i < v \<and> v < length nodes" using up_edge [OF k1(2) _ i1] k1(1) by fastforce
          then show ?thesis using later [OF I _ _ k1(1)] kv by simp
        qed
      qed
      then obtain ns where ns: "foldr_res (\<lambda>(k, v) ns. optimize_node f ns v) (children (n1 ! i)) n1 = Inr ns"
          "keeps n1 ns" "\<forall>a \<le> i. ns ! a = n1 ! a" by auto
      then show ?thesis using n1 ne False keeps_trans [OF n1(2) ns(2)] by simp
    qed
  qed
qed simp

section \<open>Gathering\<close>

definition outs :: "node list \<Rightarrow> nat \<Rightarrow> (token list \<times> nat) set" where
  "outs nodes i = {(ts, x). \<exists>k. walk nodes i ts k \<and> x = n_index (nodes ! k)}"

definition hop :: "node list \<Rightarrow> token list \<times> nat \<Rightarrow> (token list \<times> nat) set" where
  "hop nodes e = (\<lambda>(ts, x). (fst e @ ts, x)) ` outs nodes (snd e)"

lemma outs_step: "outs nodes i = insert ([], n_index (nodes ! i)) (\<Union>e \<in> set (edges (nodes ! i)). hop nodes e)"
proof (intro set_eqI iffI)
  fix p assume "p \<in> outs nodes i"
  then obtain ts k where p: "p = (ts, n_index (nodes ! k))" "walk nodes i ts k" by (auto simp: outs_def)
  from p(2) show "p \<in> insert ([], n_index (nodes ! i)) (\<Union>e \<in> set (edges (nodes ! i)). hop nodes e)"
  proof (cases rule: walk.cases)
    case stop
    then show ?thesis using p(1) by simp
  next
    case (step us j ts')
    then have "(ts', n_index (nodes ! k)) \<in> outs nodes j" by (auto simp: outs_def)
    then have "p \<in> hop nodes (us, j)" using p(1) step(1) by (force simp: hop_def)
    then show ?thesis using step(2) by blast
  qed
next
  fix p assume "p \<in> insert ([], n_index (nodes ! i)) (\<Union>e \<in> set (edges (nodes ! i)). hop nodes e)"
  then consider "p = ([], n_index (nodes ! i))"
    | us j ts k where "(us, j) \<in> set (edges (nodes ! i))" "walk nodes j ts k" "p = (us @ ts, n_index (nodes ! k))"
    by (auto simp: outs_def hop_def)
  then show "p \<in> outs nodes i"
  proof cases
    case 1
    then show ?thesis using walk.stop by (auto simp: outs_def)
  next
    case 2
    show ?thesis using walk.step [OF 2(1,2)] 2(3) by (auto simp: outs_def)
  qed
qed

definition tidy :: "node list \<Rightarrow> nat \<Rightarrow> nat \<Rightarrow> bool" where
  "tidy d h a \<longleftrightarrow> length (param_children (d ! a)) = 5 \<and>
     (\<forall>us j. (us, j) \<in> set (edges (d ! a)) \<longrightarrow> us \<noteq> [] \<and> a < j \<and> j < h) \<and>
     distinct (map fst (children (d ! a))) \<and>
     (\<forall>k \<in> fst ` set (children (d ! a)). \<forall>k' \<in> fst ` set (children (d ! a)). prefix k k' \<longrightarrow> k = k')"

definition segment :: "node list \<Rightarrow> nat \<Rightarrow> bool" where
  "segment d l \<longleftrightarrow> (\<forall>a. l \<le> a \<and> a < length d \<longrightarrow> tidy d (length d) a)"

lemma tidy_frame:
  assumes "tidy d h a" "d' ! a = d ! a" "h \<le> h'"
  shows "tidy d' h' a"
proof -
  have "us \<noteq> [] \<and> a < j \<and> j < h'" if "(us, j) \<in> set (edges (d ! a))" for us j
  proof -
    have "us \<noteq> [] \<and> a < j \<and> j < h" using assms(1) that unfolding tidy_def by blast
    then show ?thesis using assms(3) by simp
  qed
  then show ?thesis using assms(1) unfolding tidy_def assms(2) by blast
qed

lemma outs_frame:
  assumes "segment d l" "\<And>a. l \<le> a \<Longrightarrow> a < length d \<Longrightarrow> d' ! a = d ! a" "l \<le> j" "j < length d"
  shows "outs d' j = outs d j"
proof -
  have edge: "l \<le> v \<and> v < length d" if "(us, v) \<in> set (edges (d ! a))" "l \<le> a" "a < length d" for us v a
  proof -
    have "tidy d (length d) a" using assms(1) that(2,3) unfolding segment_def by blast
    then have "a < v \<and> v < length d" using that(1) unfolding tidy_def by blast
    then show ?thesis using that(2) by simp
  qed
  have there: "walk d' a ts k \<and> l \<le> k \<and> k < length d" if "walk d a ts k" "l \<le> a" "a < length d" for a ts k
    using that
  proof (induction rule: walk.induct)
    case (step us v a ts k)
    have v: "l \<le> v" "v < length d" using edge [OF step.hyps(1) step.prems] by auto
    have "(us, v) \<in> set (edges (d' ! a))" using step.hyps(1) assms(2) [OF step.prems] by simp
    then show ?case using walk.step step.IH [OF v] by blast
  qed (simp add: walk.stop)
  have hither: "walk d a ts k \<and> l \<le> k \<and> k < length d" if "walk d' a ts k" "l \<le> a" "a < length d" for a ts k
    using that
  proof (induction rule: walk.induct)
    case (step us v a ts k)
    have e: "(us, v) \<in> set (edges (d ! a))" using step.hyps(1) assms(2) [OF step.prems] by simp
    have v: "l \<le> v" "v < length d" using edge [OF e step.prems] by auto
    show ?case using walk.step [OF e] step.IH [OF v] by blast
  qed (simp add: walk.stop)
  have same: "walk d' j ts k \<and> x = n_index (d' ! k) \<longleftrightarrow> walk d j ts k \<and> x = n_index (d ! k)" for ts k x
    using there [OF _ assms(3,4)] hither [OF _ assms(3,4)] assms(2) by metis
  show ?thesis unfolding outs_def same ..
qed

definition extends :: "node list \<Rightarrow> node list \<Rightarrow> bool" where
  "extends d d' \<longleftrightarrow> length d \<le> length d' \<and> take (length d) d' = d \<and> segment d' (length d)"

lemma extends_at: "extends d d' \<Longrightarrow> a < length d \<Longrightarrow> d' ! a = d ! a"
  unfolding extends_def by (metis nth_take)

lemma extends_refl: "extends d d"
  by (auto simp: extends_def segment_def)

lemma extends_trans:
  assumes "extends a b" "extends b c"
  shows "extends a c"
  unfolding extends_def
proof (intro conjI)
  have l: "length a \<le> length b" "length b \<le> length c" using assms by (simp_all add: extends_def)
  show "length a \<le> length c" using l by simp
  show "take (length a) c = a" using assms l unfolding extends_def by (metis min.absorb1 take_take)
  show "segment c (length a)" unfolding segment_def
  proof (intro allI impI)
    fix i assume i: "length a \<le> i \<and> i < length c"
    show "tidy c (length c) i"
    proof (cases "i < length b")
      case True
      have "tidy b (length b) i" using assms(1) i True unfolding extends_def segment_def by blast
      then show ?thesis using tidy_frame extends_at [OF assms(2) True] l(2) by blast
    next
      case False
      then show ?thesis using assms(2) i unfolding extends_def segment_def by simp
    qed
  qed
qed

lemma extends_outs:
  assumes "extends a b" "extends b c" "length a \<le> j" "j < length b"
  shows "outs c j = outs b j"
  using assms(1) extends_at [OF assms(2)] by (intro outs_frame [OF _ _ assms(3,4)]) (simp_all add: extends_def)

text \<open>What a copy is to the node it copies.\<close>

definition copied :: "node list \<Rightarrow> nat \<Rightarrow> node list \<Rightarrow> node list \<Rightarrow> nat \<Rightarrow> bool" where
  "copied nodes v d d' j \<longleftrightarrow> length d \<le> j \<and> j < length d' \<and> outs d' j = outs nodes v"

definition gathers :: "node list \<Rightarrow> (node list \<Rightarrow> nat \<Rightarrow> node list result) \<Rightarrow> nat \<Rightarrow> bool" where
  "gathers nodes g v \<longleftrightarrow> (\<forall>d. \<exists>d'. g d v = Inr d' \<and> extends d d' \<and> copied nodes v d d' (length d))"

lemma copied_later: "copied nodes v d d1 j \<Longrightarrow> extends d d1 \<Longrightarrow> extends d1 d2 \<Longrightarrow> copied nodes v d d2 j"
  using extends_outs [of d d1 d2 j] by (auto simp: copied_def extends_def)

lemma copied_earlier: "copied nodes v d1 d2 j \<Longrightarrow> extends d d1 \<Longrightarrow> copied nodes v d d2 j"
  by (auto simp: copied_def extends_def)

lemma gather_children_copies:
  assumes "\<And>k v. (k, v) \<in> set cs \<Longrightarrow> gathers nodes g v"
  shows "\<exists>cs' d'. gather_children g cs d = Inr (cs', d') \<and> extends d d' \<and>
    list_all2 (\<lambda>e e'. fst e' = fst e \<and> copied nodes (snd e) d d' (snd e')) cs cs'"
  using assms
proof (induction cs arbitrary: d)
  case (Cons c cs)
  obtain k v where c: "c = (k, v)" by fastforce
  obtain d1 where d1: "g d v = Inr d1" "extends d d1" "copied nodes v d d1 (length d)"
    using Cons.prems [of k v] c unfolding gathers_def by auto
  obtain cs' d' where r: "gather_children g cs d1 = Inr (cs', d')" "extends d1 d'"
      "list_all2 (\<lambda>e e'. fst e' = fst e \<and> copied nodes (snd e) d1 d' (snd e')) cs cs'"
    using Cons.IH [of d1] Cons.prems by auto
  have "list_all2 (\<lambda>e e'. fst e' = fst e \<and> copied nodes (snd e) d d' (snd e')) cs cs'"
    using r(3) by (rule list_all2_mono) (use copied_earlier [OF _ d1(2)] in blast)
  then show ?case using c d1 r extends_trans [OF d1(2) r(2)] copied_later [OF d1(3,2) r(2)] by auto
qed (simp add: extends_refl)

lemma gather_params_copies:
  assumes "\<And>v. v \<in> set vs \<Longrightarrow> v \<noteq> 0 \<Longrightarrow> gathers nodes g v"
  shows "\<exists>vs' d'. gather_params g vs d = Inr (vs', d') \<and> extends d d' \<and>
    list_all2 (\<lambda>v v'. if v = 0 then v' = 0 else copied nodes v d d' v') vs vs'"
  using assms
proof (induction vs arbitrary: d)
  case (Cons v vs)
  show ?case
  proof (cases "v = 0")
    case True
    then show ?thesis using Cons by fastforce
  next
    case False
    obtain d1 where d1: "g d v = Inr d1" "extends d d1" "copied nodes v d d1 (length d)"
      using Cons.prems [of v] False unfolding gathers_def by auto
    obtain vs' d' where r: "gather_params g vs d1 = Inr (vs', d')" "extends d1 d'"
        "list_all2 (\<lambda>v v'. if v = 0 then v' = 0 else copied nodes v d1 d' v') vs vs'"
      using Cons.IH [of d1] Cons.prems by auto
    have "list_all2 (\<lambda>v v'. if v = 0 then v' = 0 else copied nodes v d d' v') vs vs'"
      using r(3) by (rule list_all2_mono) (use copied_earlier [OF _ d1(2)] in \<open>auto split: if_splits\<close>)
    then show ?thesis using False d1 r extends_trans [OF d1(2) r(2)] copied_later [OF d1(3,2) r(2)] by auto
  qed
qed (simp add: extends_refl)


text \<open>The copy of a node has the edges of the node, to the copies of the nodes they led to.\<close>

lemma copy_edges:
  assumes "length (param_children n) = 5"
    and cs: "list_all2 (\<lambda>e e'. fst e' = fst e \<and> copied nodes (snd e) d d2 (snd e')) (children n) cs"
    and ps: "list_all2 (\<lambda>v v'. if v = 0 then v' = 0 else copied nodes v d d2 v') (param_children n) ps"
    and d: "d \<noteq> []"
  shows "list_all2 (\<lambda>e e'. fst e' = fst e \<and> copied nodes (snd e) d d2 (snd e'))
    (edges n) (edges \<lparr>n_index = x, param_children = ps, children = cs\<rparr>)"
proof -
  have at: "if param_children n ! type_index t = 0 then ps ! type_index t = 0
      else copied nodes (param_children n ! type_index t) d d2 (ps ! type_index t)" for t
    using list_all2_nthD [OF ps, of "type_index t"] assms(1) by simp
  have zero: "ps ! type_index t \<noteq> 0 \<longleftrightarrow> param_children n ! type_index t \<noteq> 0" for t
  proof -
    have "0 < length d" using d by simp
    then show ?thesis using at [of t] unfolding copied_def by (metis le_zero_eq less_irrefl)
  qed
  have "list_all2 (\<lambda>e e'. fst e' = fst e \<and> copied nodes (snd e) d d2 (snd e'))
      (map (\<lambda>t. ([Param t], param_children n ! type_index t)) ts) (map (\<lambda>t. ([Param t], ps ! type_index t)) ts)"
    if "\<And>t. t \<in> set ts \<Longrightarrow> param_children n ! type_index t \<noteq> 0" for ts
    using at that by (simp add: list_all2_map1 list_all2_map2 list_all2_same)
  note maps = this
  have "list_all2 (\<lambda>e e'. fst e' = fst e \<and> copied nodes (snd e) d d2 (snd e'))
      (map (\<lambda>t. ([Param t], param_children n ! type_index t)) (filter (\<lambda>t. param_children n ! type_index t \<noteq> 0) all_types))
      (map (\<lambda>t. ([Param t], ps ! type_index t)) (filter (\<lambda>t. ps ! type_index t \<noteq> 0) all_types))"
    unfolding zero by (rule maps) simp
  moreover have "list_all2 (\<lambda>e e'. fst e' = fst e \<and> copied nodes (snd e) d d2 (snd e'))
      (map (\<lambda>(k, v). (map Lit k, v)) (children n)) (map (\<lambda>(k, v). (map Lit k, v)) cs)"
    unfolding list_all2_map1 list_all2_map2 by (rule list_all2_mono [OF cs]) auto
  ultimately show ?thesis unfolding edges_def by (simp add: list_all2_appendI)
qed

lemma list_all2_in1: "list_all2 P xs ys \<Longrightarrow> y \<in> set ys \<Longrightarrow> \<exists>x \<in> set xs. P x y"
  by (induction rule: list_all2_induct) auto

lemma list_all2_in2: "list_all2 P xs ys \<Longrightarrow> x \<in> set xs \<Longrightarrow> \<exists>y \<in> set ys. P x y"
  by (induction rule: list_all2_induct) auto

lemma copy_keys: "list_all2 (\<lambda>e e'. fst e' = fst e \<and> Q e e') cs cs' \<Longrightarrow> map fst cs' = map fst cs"
  by (induction rule: list_all2_induct) auto

text \<open>The copy of a node has the ways of the node.\<close>

lemma copy_outs:
  assumes all: "list_all2 (\<lambda>e e'. fst e' = fst e \<and> copied nodes (snd e) d0 d2 (snd e')) (edges (nodes ! i)) (edges (d' ! a))"
    and d': "\<And>j. length d0 \<le> j \<Longrightarrow> j < length d2 \<Longrightarrow> outs d' j = outs d2 j"
    and x: "n_index (d' ! a) = n_index (nodes ! i)"
  shows "outs d' a = outs nodes i"
proof -
  have hop: "hop d' e' = hop nodes e" if "fst e' = fst e \<and> copied nodes (snd e) d0 d2 (snd e')" for e e'
    using that d' [of "snd e'"] by (simp add: hop_def copied_def)
  have 1: "\<exists>e \<in> set (edges (nodes ! i)). hop d' e' \<subseteq> hop nodes e" if "e' \<in> set (edges (d' ! a))" for e'
    using list_all2_in1 [OF all that] hop by (metis order_refl)
  have 2: "\<exists>e' \<in> set (edges (d' ! a)). hop nodes e \<subseteq> hop d' e'" if "e \<in> set (edges (nodes ! i))" for e
    using list_all2_in2 [OF all that] hop by (metis order_refl)
  have "(\<Union>e \<in> set (edges (d' ! a)). hop d' e) = (\<Union>e \<in> set (edges (nodes ! i)). hop nodes e)"
  proof (intro equalityI UN_least)
    fix e' assume "e' \<in> set (edges (d' ! a))"
    then show "hop d' e' \<subseteq> (\<Union>e \<in> set (edges (nodes ! i)). hop nodes e)" using 1 by (meson UN_upper subset_trans)
  next
    fix e assume "e \<in> set (edges (nodes ! i))"
    then show "hop nodes e \<subseteq> (\<Union>e \<in> set (edges (d' ! a)). hop d' e)" using 2 by (meson UN_upper subset_trans)
  qed
  then show ?thesis using outs_step [of d' a] outs_step [of nodes i] x by simp
qed

lemma copy_tidy:
  assumes "up nodes" "prefix_free nodes" "i < length nodes"
    and all: "list_all2 (\<lambda>e e'. fst e' = fst e \<and> copied nodes (snd e) d0 d2 (snd e')) (edges (nodes ! i)) (edges (d' ! a))"
    and keys: "map fst (children (d' ! a)) = map fst (children (nodes ! i))"
    and "length (param_children (d' ! a)) = 5" "a < length d0"
  shows "tidy d' (length d2) a"
proof -
  have "us \<noteq> [] \<and> a < j \<and> j < length d2" if E: "(us, j) \<in> set (edges (d' ! a))" for us j
  proof -
    obtain e where e: "e \<in> set (edges (nodes ! i))" "us = fst e" "copied nodes (snd e) d0 d2 j"
      using list_all2_in1 [OF all E] by auto
    then have "us \<noteq> []" using up_edge [OF assms(1) _ assms(3)] by (metis prod.collapse)
    then show ?thesis using e(3) assms(7) by (simp add: copied_def)
  qed
  moreover have "fst ` set (children (d' ! a)) = fst ` set (children (nodes ! i))" using keys by (metis list.set_map)
  ultimately show ?thesis using assms(2,3,6) unfolding tidy_def prefix_free_def keys by simp
qed

lemma gather_gathers:
  assumes up: "up nodes" and pf: "prefix_free nodes"
  shows "i < length nodes \<Longrightarrow> length nodes - i \<le> f \<Longrightarrow> gathers nodes (gather f nodes) i"
proof (induction f arbitrary: i)
  case (Suc f)
  let ?n = "nodes ! i"
  show ?case unfolding gathers_def
  proof
    fix d :: "node list"
    let ?d0 = "d @ [new_node]"
    have below: "gathers nodes (gather f nodes) v" if "(us, v) \<in> set (edges ?n)" for us v
    proof -
      have v: "i < v" "v < length nodes" using up_edge [OF up that Suc.prems(1)] by blast+
      have "length nodes - v \<le> f" using v Suc.prems(2) by linarith
      then show ?thesis by (rule Suc.IH [OF v(2)])
    qed
    have five: "length (param_children ?n) = 5" using up Suc.prems(1) unfolding up_def by blast
    have child: "gathers nodes (gather f nodes) v" if "(k, v) \<in> set (children ?n)" for k v
      using below edge_iff that by blast
    have param: "gathers nodes (gather f nodes) v" if v: "v \<in> set (param_children ?n)" "v \<noteq> 0" for v
    proof -
      obtain m where m: "m < 5" "v = param_children ?n ! m" using v(1) five by (metis in_set_conv_nth)
      then obtain t where "v = param_children ?n ! type_index t" using type_index_surj by metis
      then have "([Param t], v) \<in> set (edges ?n)" using v(2) edge_iff by blast
      then show ?thesis by (rule below)
    qed
    obtain cs d1 where c: "gather_children (gather f nodes) (children ?n) ?d0 = Inr (cs, d1)" "extends ?d0 d1"
        "list_all2 (\<lambda>e e'. fst e' = fst e \<and> copied nodes (snd e) ?d0 d1 (snd e')) (children ?n) cs"
      using gather_children_copies [of "children ?n" nodes "gather f nodes" ?d0] child by blast
    obtain ps d2 where p: "gather_params (gather f nodes) (param_children ?n) d1 = Inr (ps, d2)" "extends d1 d2"
        "list_all2 (\<lambda>v v'. if v = 0 then v' = 0 else copied nodes v d1 d2 v') (param_children ?n) ps"
      using gather_params_copies [of "param_children ?n" nodes "gather f nodes" d1] param by blast
    have ext: "extends ?d0 d2" using extends_trans c(2) p(2) by blast
    let ?m = "\<lparr>n_index = n_index ?n, param_children = ps, children = cs\<rparr>"
    let ?d' = "d2[length d := ?m]"
    have "list_all2 (\<lambda>e e'. fst e' = fst e \<and> copied nodes (snd e) ?d0 d2 (snd e')) (children ?n) cs"
      by (rule list_all2_mono [OF c(3)]) (use copied_later c(2) p(2) in blast)
    moreover have "list_all2 (\<lambda>v v'. if v = 0 then v' = 0 else copied nodes v ?d0 d2 v') (param_children ?n) ps"
      by (rule list_all2_mono [OF p(3)]) (use copied_earlier c(2) in \<open>auto split: if_splits\<close>)
    ultimately have all: "list_all2 (\<lambda>e e'. fst e' = fst e \<and> copied nodes (snd e) ?d0 d2 (snd e')) (edges ?n) (edges ?m)"
      using copy_edges [OF five] by blast
    have len: "length d < length d2" using ext by (simp add: extends_def)
    have at: "?d' ! length d = ?m" using len by simp
    have later: "?d' ! a = d2 ! a" if "a \<noteq> length d" for a using that by simp
    have o: "outs ?d' j = outs d2 j" if "length ?d0 \<le> j" "j < length d2" for j
      using ext later that by (intro outs_frame [OF _ _ that]) (auto simp: extends_def)
    have copy: "outs ?d' (length d) = outs nodes i" using copy_outs [of nodes ?d0 d2 i ?d' "length d"] all at o by simp
    have "tidy ?d' (length ?d') a" if a: "length d \<le> a" "a < length ?d'" for a
    proof (cases "a = length d")
      case True
      have "length ps = 5" using list_all2_lengthD [OF p(3)] five by simp
      then have five': "length (param_children (?d' ! length d)) = 5" using at by simp
      have all': "list_all2 (\<lambda>e e'. fst e' = fst e \<and> copied nodes (snd e) ?d0 d2 (snd e')) (edges ?n) (edges (?d' ! length d))"
        using all at by (simp only:)
      have keys: "map fst (children (?d' ! length d)) = map fst (children ?n)" using copy_keys [OF c(3)] at by simp
      have "tidy ?d' (length d2) (length d)"
        by (rule copy_tidy [OF up pf Suc.prems(1) all' keys five']) simp
      then show ?thesis by (simp only: True length_list_update)
    next
      case False
      then have "tidy d2 (length d2) a" using ext a unfolding extends_def segment_def by simp
      then show ?thesis using tidy_frame later [OF False] by simp
    qed
    then have "segment ?d' (length d)" by (simp add: segment_def)
    moreover have "take (length d) ?d' = d" 
    proof -
      have "take (length d) (take (length ?d0) d2) = d" using ext by (simp add: extends_def)
      then show ?thesis by simp
    qed
    ultimately have "extends d ?d'" using len by (simp add: extends_def)
    moreover have "copied nodes i d ?d' (length d)" using len copy by (simp add: copied_def)
    moreover have "gather (Suc f) nodes d i = Inr ?d'" using c(1) p(1) by simp
    ultimately show "\<exists>d'. gather (Suc f) nodes d i = Inr d' \<and> extends d d' \<and> copied nodes i d d' (length d)" by blast
  qed
qed simp

end
