(* ===== verification/Route_Table.thy ===== *)
theory Route_Table
  imports Route_Optimize
begin

text \<open>
  The route trie as a table: a trie made by adding rules and then optimized finds, for a URL, the
  least index of the rules that match it.
\<close>

lemma new_trie_tree: "tree new_trie"
  by (simp add: tree_def up_def new_trie_def) (simp add: new_node_def)

lemma new_trie_routes: "routes new_trie 0 = {}"
proof -
  have "n_index (new_trie ! k) = 0" if "walk new_trie 0 ts k" for ts k
  proof -
    have "k < length new_trie" using walk_up [OF that tree_up [OF new_trie_tree]] by (simp add: new_trie_def)
    then show ?thesis by (simp add: new_trie_def new_node_def)
  qed
  then show ?thesis unfolding routes_def by fastforce
qed

lemma tree_prefix_free:
  assumes "tree nodes"
  shows "prefix_free nodes"
  unfolding prefix_free_def
proof (intro allI impI conjI ballI)
  fix i assume i: "i < length nodes"
  show "distinct (map fst (children (nodes ! i)))" using assms i unfolding tree_def by blast
  fix k k' assume k: "k \<in> fst ` set (children (nodes ! i))" "k' \<in> fst ` set (children (nodes ! i))" "prefix k k'"
  have "length k = 1" "length k' = 1" using tree_keys [OF assms i] k(1,2) by auto
  then show "k = k'" using k(3) by (auto simp: prefix_def)
qed

lemma walk_det_prefix_free:
  assumes "up nodes" "prefix_free nodes" "walk nodes i ts k" "walk nodes i ts k'" "i < length nodes"
  shows "k = k'"
  using assms(3,4,5)
proof (induction arbitrary: k' rule: walk.induct)
  case (stop i)
  then show ?case using walk_up [OF _ assms(1)] by blast
next
  case (step us j i ts k)
  from step.prems(1) show ?case
  proof (cases rule: walk.cases)
    case stop
    then have "us = []" by simp
    then show ?thesis using up_edge [OF assms(1) step.hyps(1) step.prems(2)] by blast
  next
    case (step us' j' ts')
    have "us = us' \<and> j = j'" using edge_unique [OF assms(1,2) step.prems(2) step.hyps(1) step(2)] step(1) by blast
    then show ?thesis using step step.IH up_edge [OF assms(1) step.hyps(1) step.prems(2)] by simp
  qed
qed

text \<open>Optimizing never fails and keeps the routes; what is left of the trie was in it before.\<close>

lemma optimize_keeps:
  assumes "up nodes" "prefix_free nodes"
  shows "\<exists>ns. optimize nodes = Inr ns \<and> up ns \<and> prefix_free ns \<and> routes ns 0 = routes nodes 0 \<and>
    outs ns 0 \<subseteq> outs nodes 0"
proof -
  have N: "0 < length nodes" using assms(1) unfolding up_def by blast
  have "depth nodes 0 \<le> length nodes * (length nodes + 1) + length nodes" by (simp add: depth_def)
  also have "\<dots> < (length nodes + 1) * (length nodes + 1)" by simp
  finally obtain ns1 where ns1: "optimize_node ((length nodes + 1) * (length nodes + 1)) nodes 0 = Inr ns1" "keeps nodes ns1"
    using optimize_node_keeps [OF assms N] by blast
  note k = keepsD [OF ns1(2)]
  have len: "0 < length ns1" using N k(1) by simp
  have "gathers ns1 (gather (length ns1) ns1) 0" using gather_gathers [OF k(2,3) len] by simp
  then obtain ns where ns: "gather (length ns1) ns1 [] 0 = Inr ns" "extends [] ns" "copied ns1 0 [] ns 0"
    unfolding gathers_def by (metis list.size(3))
  have o: "outs ns 0 = outs ns1 0" "0 < length ns" using ns(3) by (simp_all add: copied_def)
  have tidy: "tidy ns (length ns) a" if "a < length ns" for a
    using ns(2) that unfolding extends_def segment_def by simp
  have "up ns" unfolding up_def using tidy o(2) unfolding tidy_def by blast
  moreover have "prefix_free ns" unfolding prefix_free_def using tidy unfolding tidy_def by blast
  moreover have r: "routes n 0 = {p \<in> outs n 0. snd p \<noteq> 0}" for n by (auto simp: routes_def outs_def)
  have "routes ns 0 = routes nodes 0" using keeps_routes [OF ns1(2) N] r [of ns] r [of ns1] o(1) by simp
  moreover have "outs ns1 0 \<subseteq> outs nodes 0" unfolding outs_def using k(4) k(6) [OF N] by auto
  moreover have "optimize nodes = Inr ns" using ns1(1) ns(1) by (simp add: optimize_def)
  ultimately show ?thesis using o(1) by blast
qed

lemma roomy_outs: "roomy nodes 0 0 \<longleftrightarrow> (\<forall>ts x. (ts, x) \<in> outs nodes 0 \<longrightarrow> nparams ts \<le> 128)"
  unfolding roomy_def outs_def by auto

section \<open>Rules added one after the other\<close>

text \<open>The tokens of a rule are a beginning of some rule's.\<close>

definition within :: "token list set \<Rightarrow> node list \<Rightarrow> bool" where
  "within P nodes \<longleftrightarrow> tree nodes \<and> (\<forall>ts k. walk nodes 0 ts k \<longrightarrow> ts = [] \<or> (\<exists>vs. ts @ vs \<in> P))"

lemma within_new: "within P new_trie"
proof -
  have "ts = []" if "walk new_trie 0 ts k" for ts k
    using that by (cases rule: walk.cases) (simp_all add: new_trie_def)
  then show ?thesis using new_trie_tree by (auto simp: within_def)
qed

lemma within_mono: "within P nodes \<Longrightarrow> P \<subseteq> Q \<Longrightarrow> within Q nodes"
  unfolding within_def by blast

lemma within_add:
  assumes "within P nodes" "x \<noteq> 0" "add nodes url x = (r, nodes')"
  shows "within (insert (tokens url) P) nodes'"
proof -
  have t: "tree nodes" using assms(1) by (simp add: within_def)
  have "ts = [] \<or> (\<exists>vs. ts @ vs \<in> insert (tokens url) P)" if w: "walk nodes' 0 ts k" for ts k
    using add_walks [OF t assms(3) w] assms(1) unfolding within_def by fastforce
  then show ?thesis using add_spec [OF t assms(2,3)] unfolding within_def by blast
qed

lemma within_simple:
  assumes "within P nodes" "\<And>ts. ts \<in> P \<Longrightarrow> \<exists>c us. ts = Lit c # us" "routes nodes 0 \<subseteq> {(ts, x). ts \<in> P}"
  shows "is_simple (nodes ! 0)"
proof -
  have up: "up nodes" and N: "0 < length nodes" using assms(1) tree_up unfolding within_def up_def by auto
  have five: "length (param_children (nodes ! 0)) = 5" using up N unfolding up_def by blast
  have "n_index (nodes ! 0) = 0"
  proof (rule ccontr)
    assume "n_index (nodes ! 0) \<noteq> 0"
    then have "([], n_index (nodes ! 0)) \<in> routes nodes 0" unfolding routes_def using walk.stop by auto
    then have "[] \<in> P" using assms(3) by auto
    then show False using assms(2) by blast
  qed
  moreover have "param_children (nodes ! 0) ! type_index t = 0" for t
  proof (rule ccontr)
    assume n: "param_children (nodes ! 0) ! type_index t \<noteq> 0"
    then have "([Param t], param_children (nodes ! 0) ! type_index t) \<in> set (edges (nodes ! 0))" using edge_iff by blast
    from walk.step [OF this walk.stop] obtain vs where "[Param t] @ vs \<in> P" using assms(1) unfolding within_def by fastforce
    then show False using assms(2) by fastforce
  qed
  then have "\<forall>m < 5. param_children (nodes ! 0) ! m = 0" using type_index_surj by metis
  ultimately show ?thesis using five by (simp add: is_simple_def list_all_length)
qed

text \<open>The trie as the server uses it.\<close>

lemma table_find:
  assumes "within P nodes" "\<And>ts. ts \<in> P \<Longrightarrow> nparams ts \<le> 128"
    and opt: "optimize nodes = Inr ns"
  shows "\<exists>ps. find_route num [] ns url = Inr (least {x. \<exists>ts. (ts, x) \<in> routes nodes 0 \<and> tmatch num ts url}, ps)"
proof -
  have t: "tree nodes" using assms(1) by (simp add: within_def)
  obtain ns' where n: "optimize nodes = Inr ns'" "up ns'" "routes ns' 0 = routes nodes 0" "outs ns' 0 \<subseteq> outs nodes 0"
    using optimize_keeps [OF tree_up [OF t] tree_prefix_free [OF t]] by blast
  have "nparams ts \<le> 128" if w: "(ts, x) \<in> outs nodes 0" for ts x
  proof -
    from w obtain k where "walk nodes 0 ts k" by (auto simp: outs_def)
    then consider "ts = []" | vs where "ts @ vs \<in> P" using assms(1) unfolding within_def by blast
    then show ?thesis
    proof cases
      case 2
      then show ?thesis using assms(2) [OF 2] by simp
    qed simp
  qed
  then have "roomy ns' 0 0" using n(4) roomy_outs by blast
  then show ?thesis using find_route_index [OF n(2)] n(1,3) opt by (simp add: matched_def)
qed

text \<open>The parameters, when the URL matches one beginning of a rule only, the whole of one.\<close>

lemma table_params:
  assumes "within P nodes" "\<And>ts. ts \<in> P \<Longrightarrow> nparams ts \<le> 128"
    and opt: "optimize nodes = Inr ns" and url: "url \<noteq> []"
    and one: "{ts. (\<exists>vs. ts @ vs \<in> P) \<and> tmatch num ts url} = {us}" and x: "(us, x) \<in> routes nodes 0"
  shows "find_route num [] ns url = Inr (x, params_of (tvals num us url))"
proof -
  have t: "tree nodes" using assms(1) by (simp add: within_def)
  obtain ns' where n: "optimize nodes = Inr ns'" "up ns'" "prefix_free ns'" "routes ns' 0 = routes nodes 0"
      "outs ns' 0 \<subseteq> outs nodes 0"
    using optimize_keeps [OF tree_up [OF t] tree_prefix_free [OF t]] by blast
  have N: "0 < length ns'" using n(2) unfolding up_def by blast
  have begins: "ts = [] \<or> (\<exists>vs. ts @ vs \<in> P)" if "walk ns' 0 ts k" for ts k
  proof -
    have "(ts, n_index (ns' ! k)) \<in> outs nodes 0" using n(5) that unfolding outs_def by blast
    then show ?thesis using assms(1) unfolding within_def outs_def by blast
  qed
  have "nparams ts \<le> 128" if "walk ns' 0 ts k" for ts k
    using begins [OF that] assms(2) by fastforce
  then have room: "roomy ns' 0 0" by (simp add: roomy_def)
  have "(us, x) \<in> routes ns' 0" using x n(4) by simp
  then obtain k where k: "walk ns' 0 us k" "n_index (ns' ! k) = x" "x \<noteq> 0" unfolding routes_def by auto
  have "us \<in> {ts. (\<exists>vs. ts @ vs \<in> P) \<and> tmatch num ts url}" unfolding one by simp
  then have us: "tmatch num us url" by simp
  have only: "(ts, m) = (us, k)" if m: "walk ns' 0 ts m" "tmatch num ts url" for ts m
  proof -
    have "ts \<noteq> []" using m(2) url by auto
    then have "ts \<in> {ts. (\<exists>vs. ts @ vs \<in> P) \<and> tmatch num ts url}" using begins [OF m(1)] m(2) by simp
    then have "ts = us" unfolding one by simp
    then show ?thesis using walk_det_prefix_free [OF n(2,3) m(1) _ N] k(1) by simp
  qed
  have "endings num ns' 0 [] url = {(us, k)}"
  proof (intro equalityI subsetI)
    fix p assume p: "p \<in> endings num ns' 0 [] url"
    then have "walk ns' 0 (fst p) (snd p)" "tmatch num (fst p) url" by (simp_all add: endings_def case_prod_unfold)
    from only [OF this] show "p \<in> {(us, k)}" by simp
  qed (use k(1) us in \<open>simp add: endings_def\<close>)
  from find_route_params [OF n(2,3) room this] show ?thesis using k(2,3) n(1) opt by simp
qed

end
