(* ===== verification/Http_Message.thy ===== *)
theory Http_Message
  imports Str
begin

unbundle bit_operations_syntax

text \<open>
  What the HTTP server sends: methods and status lines (\<open>libs/http/src/common.cpp\<close>), cookies
  (\<open>cookie.cpp\<close>), the response (\<open>server/response.cpp\<close>) and how a connection writes it
  (\<open>ConnectionImpl::sendResponse\<close>, \<open>server/connection.cpp\<close>). Texts are character lists; the map of
  header fields is a list of its entries in the order it gives them, with the source's hash and
  comparison. The date of a cookie and of the response are parameters.
\<close>

section \<open>Methods and status lines\<close>

datatype http_method = Delete | Get | Head | Post | Put | Connect | Options | Trace | Unknown

fun method_code :: "http_method \<Rightarrow> nat" where
  "method_code Delete = 0"
| "method_code Get = 1"
| "method_code Head = 2"
| "method_code Post = 3"
| "method_code Put = 4"
| "method_code Connect = 5"
| "method_code Options = 6"
| "method_code Trace = 7"
| "method_code Unknown = 8"

fun method_text :: "http_method \<Rightarrow> string" where
  "method_text Delete = ''DELETE''"
| "method_text Get = ''GET''"
| "method_text Head = ''HEAD''"
| "method_text Post = ''POST''"
| "method_text Put = ''PUT''"
| "method_text Connect = ''CONNECT''"
| "method_text Options = ''OPTIONS''"
| "method_text Trace = ''TRACE''"
| "method_text Unknown = ''Invalid''"

definition method_of_text :: "string \<Rightarrow> http_method" where
  "method_of_text name =
     (let c = to_upper (cur name) in
      if c = CHR ''D'' then Delete
      else if c = CHR ''G'' then Get
      else if c = CHR ''H'' then Head
      else if c = CHR ''P'' then (if to_upper (cur (tl name)) = CHR ''O'' then Post else Put)
      else if c = CHR ''C'' then Connect
      else if c = CHR ''O'' then Options
      else if c = CHR ''T'' then Trace
      else Unknown)"

definition status_lines :: "(nat \<times> string) list" where
  "status_lines =
     [(100, ''HTTP/1.1 100 Continue''), (101, ''HTTP/1.1 101 Switching Protocols''),
      (200, ''HTTP/1.1 200 OK''), (201, ''HTTP/1.1 201 Created''), (202, ''HTTP/1.1 202 Accepted''),
      (203, ''HTTP/1.1 203 Non-Authoritative Information''), (204, ''HTTP/1.1 204 No Content''),
      (205, ''HTTP/1.1 205 Reset Content''), (206, ''HTTP/1.1 206 Partial Content''),
      (300, ''HTTP/1.1 300 Multiple Choices''), (301, ''HTTP/1.1 301 Moved Permanently''),
      (302, ''HTTP/1.1 302 Found''), (303, ''HTTP/1.1 303 See Other''), (304, ''HTTP/1.1 304 Not Modified''),
      (305, ''HTTP/1.1 305 Use Proxy''), (307, ''HTTP/1.1 307 Temporary Redirect''),
      (400, ''HTTP/1.1 400 Bad Request''), (401, ''HTTP/1.1 401 Unauthorized''),
      (402, ''HTTP/1.1 402 Payment Required''), (403, ''HTTP/1.1 403 Forbidden''),
      (404, ''HTTP/1.1 404 Not Found''), (405, ''HTTP/1.1 405 Method Not Allowed''),
      (406, ''HTTP/1.1 406 Not Acceptable''), (407, ''HTTP/1.1 407 Proxy Authentication Required''),
      (408, ''HTTP/1.1 408 Request Time-out''), (409, ''HTTP/1.1 409 Conflict''), (410, ''HTTP/1.1 410 Gone''),
      (411, ''HTTP/1.1 411 Length Required''), (412, ''HTTP/1.1 412 Precondition Failed''),
      (413, ''HTTP/1.1 413 Request Entity Too Large''), (414, ''HTTP/1.1 414 Request-URI Too Large''),
      (415, ''HTTP/1.1 415 Unsupported Media Type''), (416, ''HTTP/1.1 416 Requested range not satisfiable''),
      (417, ''HTTP/1.1 417 Expectation Failed''), (500, ''HTTP/1.1 500 Internal Server Error''),
      (501, ''HTTP/1.1 501 Not Implemented''), (502, ''HTTP/1.1 502 Bad Gateway''),
      (503, ''HTTP/1.1 503 Service Unavailable''), (504, ''HTTP/1.1 504 Gateway Time-out''),
      (505, ''HTTP/1.1 505 HTTP Version not supported'')]"

definition status_text :: "nat \<Rightarrow> string" where
  "status_text st = (case map_of status_lines st of None \<Rightarrow> ''HTTP/1.1 500  '' | Some r \<Rightarrow> r)"

section \<open>Header fields\<close>

text \<open>The names are compared up to the length of the shorter one; what keeps \<open>Date\<close> and \<open>Dat\<close> apart
  is the hash, which the map compares first. A \<open>char\<close> is signed.\<close>

definition schar :: "char \<Rightarrow> int" where
  "schar c = (if ord c < 128 then int (ord c) else int (ord c) - 256)"

definition ci_hash :: "string \<Rightarrow> 64 word" where
  "ci_hash k = foldl (\<lambda>h c. (h XOR word_of_int (schar (to_upper c))) * 0x100000001b3) 0xcbf29ce484222325 k"

definition ci_compare :: "string \<Rightarrow> string \<Rightarrow> bool" where
  "ci_compare l r \<longleftrightarrow> strncasecmp_eq l r (min (length l) (length r))"

definition same_field :: "string \<Rightarrow> string \<Rightarrow> bool" where
  "same_field l r \<longleftrightarrow> ci_hash l = ci_hash r \<and> ci_compare l r"

type_synonym 'v fields = "(string \<times> 'v) list"

definition field_get :: "'v fields \<Rightarrow> string \<Rightarrow> 'v option" where
  "field_get fs k = map_option snd (List.find (\<lambda>(l, v). same_field k l) fs)"

text \<open>\<open>emplace\<close> keeps an entry that is there.\<close>

definition field_emplace :: "'v fields \<Rightarrow> string \<Rightarrow> 'v \<Rightarrow> 'v fields" where
  "field_emplace fs k v = (if field_get fs k = None then fs @ [(k, v)] else fs)"

definition field_erase :: "'v fields \<Rightarrow> string \<Rightarrow> 'v fields" where
  "field_erase fs k = filter (\<lambda>(l, v). \<not> same_field k l) fs"

section \<open>Cookies\<close>

record cookie =
  ck_name :: string
  ck_value :: string
  ck_path :: string
  ck_domain :: string
  ck_secure :: bool
  ck_max_age :: int
  ck_expires :: int

definition new_cookie :: "string \<Rightarrow> string \<Rightarrow> cookie" where
  "new_cookie name val =
     \<lparr>ck_name = name, ck_value = val, ck_path = [], ck_domain = [], ck_secure = False, ck_max_age = 0, ck_expires = 0\<rparr>"

definition set_expires :: "int \<Rightarrow> int \<Rightarrow> cookie \<Rightarrow> cookie" where
  "set_expires now secs c = c\<lparr>ck_expires := (if secs > 0 then now + secs else secs)\<rparr>"

text \<open>The path that is written is the domain.\<close>

definition cookie_encode :: "(int \<Rightarrow> string) \<Rightarrow> cookie \<Rightarrow> string option" where
  "cookie_encode date c =
     (if ck_name c = [] \<or> ck_value c = [] then None
      else Some (ck_name c @ ''='' @ ck_value c @
        (if ck_domain c \<noteq> [] then ''; Domain='' @ ck_domain c else []) @
        (if ck_path c \<noteq> [] then ''; Path='' @ ck_domain c else []) @
        (if ck_secure c then ''; Secure'' else []) @
        (if ck_max_age c > 0 then ''; Max-Age='' @ dec_string (ck_max_age c) else []) @
        (if ck_expires c > 0 then ''; Expires='' @ date (ck_expires c) else [])))"

section \<open>The response\<close>

text \<open>A piece of the content: memory, or a part of a file (descriptor, offset, length).\<close>

datatype chunk = Mem_Chunk string | File_Chunk nat nat nat

fun chunk_size :: "chunk \<Rightarrow> nat" where
  "chunk_size (Mem_Chunk s) = length s"
| "chunk_size (File_Chunk fd off n) = n"

record response =
  chunks :: "chunk list"
  chunks_size :: nat
  headers :: "string fields"
  cookies :: "cookie fields"
  status :: nat
  body :: string
  completed :: bool
  upgrade :: bool

definition new_response :: response where
  "new_response =
     \<lparr>chunks = [], chunks_size = 0, headers = [], cookies = [], status = 200, body = [], completed = False, upgrade = False\<rparr>"

definition response_of_status :: "nat \<Rightarrow> response" where
  "response_of_status st = new_response\<lparr>status := st\<rparr>"

definition set_header :: "string \<Rightarrow> string \<Rightarrow> response \<Rightarrow> response" where
  "set_header f v r = r\<lparr>headers := field_emplace (headers r) f v\<rparr>"

definition get_header :: "response \<Rightarrow> string \<Rightarrow> string" where
  "get_header r f = (case field_get (headers r) f of None \<Rightarrow> [] | Some v \<Rightarrow> v)"

definition set_content_type :: "string \<Rightarrow> response \<Rightarrow> response" where
  "set_content_type = set_header ''Content-Type''"

definition set_cookie :: "cookie \<Rightarrow> response \<Rightarrow> response" where
  "set_cookie c r = (if ck_name c = [] then r else r\<lparr>cookies := field_emplace (cookies r) (ck_name c) c\<rparr>)"

definition add_chunk :: "chunk \<Rightarrow> response \<Rightarrow> response" where
  "add_chunk c r = r\<lparr>chunks_size := chunks_size r + chunk_size c, chunks := chunks r @ [c]\<rparr>"

definition append_text :: "string \<Rightarrow> response \<Rightarrow> response" where
  "append_text s r = r\<lparr>body := body r @ s\<rparr>"

definition append_json :: "string \<Rightarrow> response \<Rightarrow> response" where
  "append_json s r =
     add_chunk (Mem_Chunk s)
       (if body r \<noteq> [] then add_chunk (Mem_Chunk (body r)) (r\<lparr>body := []\<rparr>)
        else set_content_type ''application/json'' r)"

definition end_plain :: "response \<Rightarrow> response" where
  "end_plain r = r\<lparr>completed := True\<rparr>"

definition end_status :: "nat \<Rightarrow> response \<Rightarrow> response" where
  "end_status st r = r\<lparr>status := st, completed := True\<rparr>"

definition end_buffer :: "nat \<Rightarrow> string \<Rightarrow> response \<Rightarrow> response" where
  "end_buffer st b r =
     (let r1 = (if body r \<noteq> [] then add_chunk (Mem_Chunk (body r)) (r\<lparr>body := []\<rparr>) else r);
          r2 = (if chunks r1 \<noteq> [] then add_chunk (Mem_Chunk b) r1 else r1\<lparr>body := b\<rparr>)
      in end_status st r2)"

definition end_upgrade :: "response \<Rightarrow> response" where
  "end_upgrade r = r\<lparr>upgrade := True, status := 101, completed := True\<rparr>"

definition redirect :: "nat \<Rightarrow> string \<Rightarrow> response \<Rightarrow> response" where
  "redirect st loc r = end_status st (set_header ''Location'' loc r)"

text \<open>The header map holds one \<open>Set-Cookie\<close> at most: the first cookie's.\<close>

definition flush_cookies :: "(int \<Rightarrow> string) \<Rightarrow> response \<Rightarrow> response" where
  "flush_cookies date r =
     foldl (\<lambda>r (k, c). case cookie_encode date c of None \<Rightarrow> r | Some t \<Rightarrow> set_header ''Set-Cookie'' t r) r (cookies r)"

definition response_size :: "response \<Rightarrow> nat" where
  "response_size r = length (body r) + chunks_size r"

definition clear_content :: "response \<Rightarrow> response" where
  "clear_content r = r\<lparr>chunks := [], body := [], headers := field_erase (headers r) ''Content-Type''\<rparr>"

definition clear_response :: "response \<Rightarrow> response" where
  "clear_response r =
     (clear_content r)\<lparr>status := 200, upgrade := False, completed := False, cookies := [], headers := []\<rparr>"

definition merge :: "response \<Rightarrow> response \<Rightarrow> response" where
  "merge r q =
     r\<lparr>status := status q, body := body q, chunks_size := chunks_size q, chunks := chunks q,
       cookies := foldl (\<lambda>fs (k, c). field_emplace fs k c) (cookies r) (cookies q),
       headers := foldl (\<lambda>fs (k, v). field_emplace fs k v) (headers r) (headers q)\<rparr>"

text \<open>Moving: what the new response holds, and what is left.\<close>

definition move_response :: "response \<Rightarrow> response \<times> response" where
  "move_response r =
     (r, r\<lparr>chunks := [], chunks_size := 0, headers := [], cookies := [], status := 500, body := [],
          completed := True, upgrade := False\<rparr>)"

section \<open>Writing a response\<close>

record http_config =
  keep_alive_time :: nat
  hsts_enable :: nat
  server_name :: string
  send_chunk :: nat

abbreviation crlf :: string where
  "crlf \<equiv> [CHR 0x0D, CHR 0x0A]"

definition ci_equal :: "string \<Rightarrow> string \<Rightarrow> bool" where
  "ci_equal a b \<longleftrightarrow> length a = length b \<and> strncasecmp_eq a b (length a)"

text \<open>\<open>conn\<close> is the request's \<open>Connection\<close> header, \<open>reply\<close> the route's content type (empty for none),
  \<open>rq_status\<close> the request's status. The result is the response with the headers of the cookies, what is
  sent, and whether the connection is closed afterwards.\<close>

definition closes :: "bool \<Rightarrow> string \<Rightarrow> bool \<Rightarrow> bool" where
  "closes err conn closing \<longleftrightarrow> err \<or> ci_equal conn ''Close'' \<or> closing"

definition field_line :: "string \<Rightarrow> string \<Rightarrow> string" where
  "field_line k v = k @ '': '' @ v @ crlf"

definition default_line :: "response \<Rightarrow> string \<Rightarrow> string \<Rightarrow> string" where
  "default_line r k v = (if field_get (headers r) k = None then field_line k v else [])"

definition response_head ::
  "http_config \<Rightarrow> string \<Rightarrow> string \<Rightarrow> bool \<Rightarrow> string \<Rightarrow> bool \<Rightarrow> response \<Rightarrow> string" where
  "response_head cfg now reply err conn closing r =
     status_text (status r) @ crlf @
     (if err then []
      else
        (if keep_alive_time cfg \<noteq> 0 \<and> \<not> closes err conn closing then
           field_line ''Connection'' ''Keep-Alive'' @ field_line ''KeepAlive'' (dec_digits (keep_alive_time cfg) [])
         else []) @
        (if hsts_enable cfg \<noteq> 0 then
           ''Strict-Transport-Security: max-age '' @ dec_digits (hsts_enable cfg) [] @ ''; includeSubdomains'' @ crlf
         else [])) @
     concat (map (\<lambda>(k, v). field_line k v) (headers r)) @
     default_line r ''Server'' (server_name cfg) @
     default_line r ''Date'' now @
     default_line r ''Content-Length'' (dec_digits (response_size r) []) @
     default_line r ''Content-Type'' (if reply \<noteq> [] then reply else ''text/plain'') @
     crlf"

text \<open>\<open>sb.reserve(headers - chunks + 5)\<close> is unsigned arithmetic: with more chunks than that the
  reservation is refused with an exception that nobody catches.\<close>

definition send_response ::
  "http_config \<Rightarrow> (int \<Rightarrow> string) \<Rightarrow> string \<Rightarrow> nat \<Rightarrow> string \<Rightarrow> bool \<Rightarrow> string \<Rightarrow> bool \<Rightarrow> response \<Rightarrow>
   (response \<times> chunk list \<times> bool) result" where
  "send_response cfg date now rq_status reply err conn closing r =
     (if length (chunks r) > length (headers r) + 5 then Inl LengthError
      else
        let r1 = (if rq_status > 400 \<and> response_size r = 0 then append_text (drop 9 (status_text (status r))) r else r);
            r2 = flush_cookies date r1
        in Inr (r2\<lparr>chunks := []\<rparr>,
             Mem_Chunk (response_head cfg now reply err conn closing r2) # chunks r2 @
               (if body r2 \<noteq> [] then [Mem_Chunk (body r2)] else []),
             closes err conn closing))"

text \<open>What \<open>start\<close> does when the handler throws, an \<open>HttpError\<close> or anything else.\<close>

definition fail_response :: "nat option \<Rightarrow> response \<Rightarrow> response" where
  "fail_response code r =
     (case code of
        Some st \<Rightarrow> append_text (status_text st) (r\<lparr>status := st, body := [], chunks := []\<rparr>)
      | None \<Rightarrow> r\<lparr>status := 500, body := [], chunks := []\<rparr>)"

text \<open>The socket, as a connection uses it: \<open>cs_sendfile\<close> takes a descriptor, an offset and a number of
  bytes; both senders give the number of bytes that went. \<open>put_chunk\<close> sends \<open>n\<close> bytes of a chunk from
  position \<open>sent\<close>.\<close>

record 's conn_sock =
  cs_open :: "'s \<Rightarrow> bool"
  cs_send :: "string \<Rightarrow> 's \<Rightarrow> nat \<times> 's"
  cs_sendfile :: "nat \<Rightarrow> nat \<Rightarrow> nat \<Rightarrow> 's \<Rightarrow> nat \<times> 's"
  cs_flush :: "'s \<Rightarrow> bool \<times> 's"

fun put_chunk :: "'s conn_sock \<Rightarrow> chunk \<Rightarrow> nat \<Rightarrow> nat \<Rightarrow> 's \<Rightarrow> nat \<times> 's" where
  "put_chunk sk (Mem_Chunk d) sent n s = cs_send sk (take n (drop sent d)) s"
| "put_chunk sk (File_Chunk fd off len) sent n s = cs_sendfile sk fd (off + sent) n s"

text \<open>A chunk goes in pieces of at most \<open>sendChunk\<close>, until its size is reached. A piece of which the
  socket takes less than asked for, and an empty one, is a failure.\<close>

primrec write_piece :: "nat \<Rightarrow> nat \<Rightarrow> 's conn_sock \<Rightarrow> chunk \<Rightarrow> nat \<Rightarrow> 's \<Rightarrow> (bool \<times> 's) option" where
  "write_piece 0 lim sk c sent s = None"
| "write_piece (Suc f) lim sk c sent s =
     (let n = min lim (chunk_size c - sent); (rc, s1) = put_chunk sk c sent n s in
      if rc = 0 \<or> rc \<noteq> n then Some (False, s1)
      else if sent + n < chunk_size c then write_piece f lim sk c (sent + n) s1
      else Some (True, s1))"

text \<open>\<open>tx\<close> counts the bytes sent; a chunk that fails is not counted. In the end the socket is flushed.\<close>

fun write_response ::
  "nat \<Rightarrow> 's conn_sock \<Rightarrow> chunk list \<Rightarrow> 's \<Rightarrow> nat \<Rightarrow> (bool \<times> 's \<times> nat) option" where
  "write_response lim sk [] s tx = (let (ok, s1) = cs_flush sk s in Some (ok, s1, tx))"
| "write_response lim sk (c # cs) s tx =
     (case write_piece (chunk_size c + 1) lim sk c 0 s of
        None \<Rightarrow> None
      | Some (ok, s1) \<Rightarrow>
          if ok then write_response lim sk cs s1 (tx + chunk_size c) else Some (False, s1, tx))"

text \<open>All of \<open>sendResponse\<close>: the response, the closing flag, the socket and the count afterwards.\<close>

definition respond ::
  "http_config \<Rightarrow> (int \<Rightarrow> string) \<Rightarrow> string \<Rightarrow> nat \<Rightarrow> string \<Rightarrow> bool \<Rightarrow> string \<Rightarrow> bool \<Rightarrow> 's conn_sock \<Rightarrow>
   response \<Rightarrow> 's \<Rightarrow> nat \<Rightarrow> (response \<times> bool \<times> 's \<times> nat) option result" where
  "respond cfg date now rq_status reply err conn closing sk r s tx =
     (if \<not> cs_open sk s then Inr (Some (r, True, s, tx))
      else rbind (send_response cfg date now rq_status reply err conn closing r) (\<lambda>(r1, cs, close).
        Inr (map_option (\<lambda>(ok, s1, tx1). if ok then (r1, close, s1, tx1) else (clear_response r1, True, s1, tx1))
               (write_response (send_chunk cfg) sk cs s tx))))"

section \<open>Lengths\<close>

definition in_sync :: "response \<Rightarrow> bool" where
  "in_sync r \<longleftrightarrow> chunks_size r = sum_list (map chunk_size (chunks r))"

text \<open>What a handler does to its response, with the public operations of the class: \<open>Edit_Body\<close> is what it
  does through the reference that \<open>body()\<close> gives; the response that is merged is one that has been made
  in the same way.\<close>

datatype response_op =
    Set_Header string string
  | Set_Cookie cookie
  | Add_Text string
  | Add_Json string
  | Add_Chunk chunk
  | Edit_Body "string \<Rightarrow> string"
  | End_Plain
  | End_Status nat
  | End_Buffer nat string
  | End_Text nat string
  | End_Json nat string
  | End_Upgrade
  | Redirect nat string
  | Clear_Content
  | Clear
  | Merge "response_op list"

definition end_text :: "nat \<Rightarrow> string \<Rightarrow> response \<Rightarrow> response" where
  "end_text st s r = (append_text s r)\<lparr>status := st, completed := True\<rparr>"

text \<open>With an object to encode, \<open>end\<close> does not complete the response.\<close>

definition end_json :: "nat \<Rightarrow> string \<Rightarrow> response \<Rightarrow> response" where
  "end_json st s r = (append_json s r)\<lparr>status := st\<rparr>"

fun apply_op :: "response_op \<Rightarrow> response \<Rightarrow> response"
  and apply_ops :: "response_op list \<Rightarrow> response \<Rightarrow> response" where
  "apply_op (Set_Header f v) r = set_header f v r"
| "apply_op (Set_Cookie c) r = set_cookie c r"
| "apply_op (Add_Text s) r = append_text s r"
| "apply_op (Add_Json s) r = append_json s r"
| "apply_op (Add_Chunk c) r = add_chunk c r"
| "apply_op (Edit_Body g) r = r\<lparr>body := g (body r)\<rparr>"
| "apply_op End_Plain r = end_plain r"
| "apply_op (End_Status st) r = end_status st r"
| "apply_op (End_Buffer st b) r = end_buffer st b r"
| "apply_op (End_Text st s) r = end_text st s r"
| "apply_op (End_Json st s) r = end_json st s r"
| "apply_op End_Upgrade r = end_upgrade r"
| "apply_op (Redirect st l) r = redirect st l r"
| "apply_op Clear_Content r = clear_content r"
| "apply_op Clear r = clear_response r"
| "apply_op (Merge ops) r = merge r (apply_ops ops new_response)"
| "apply_ops [] r = r"
| "apply_ops (x # xs) r = apply_ops xs (apply_op x r)"

definition content_size :: "chunk list \<Rightarrow> nat" where
  "content_size cs = sum_list (map chunk_size cs)"

text \<open>How many bytes of chunks have been cleared away: \<open>clear\<close> and \<open>clearContent\<close> drop the chunks, merging
  takes over what the other response has lost.\<close>

fun lost_op :: "response_op \<Rightarrow> response \<Rightarrow> nat \<Rightarrow> nat"
  and lost_ops :: "response_op list \<Rightarrow> response \<Rightarrow> nat \<Rightarrow> nat" where
  "lost_op Clear_Content r n = n + content_size (chunks r)"
| "lost_op Clear r n = n + content_size (chunks r)"
| "lost_op (Merge ops) r n = lost_ops ops new_response 0"
| "lost_op _ r n = n"
| "lost_ops [] r n = n"
| "lost_ops (x # xs) r n = lost_ops xs (apply_op x r) (lost_op x r n)"

lemmas response_defs =
  set_header_def set_cookie_def append_text_def append_json_def add_chunk_def end_plain_def end_status_def
  end_buffer_def end_upgrade_def redirect_def merge_def set_content_type_def end_text_def end_json_def
  clear_content_def clear_response_def

lemma lost_invariant:
  "chunks_size r = content_size (chunks r) + n \<Longrightarrow>
     chunks_size (apply_op x r) = content_size (chunks (apply_op x r)) + lost_op x r n"
  "chunks_size r = content_size (chunks r) + n \<Longrightarrow>
     chunks_size (apply_ops xs r) = content_size (chunks (apply_ops xs r)) + lost_ops xs r n"
proof (induction x r and xs r arbitrary: n and n rule: apply_op_apply_ops.induct)
  case (16 ops r)
  have "chunks_size new_response = content_size (chunks new_response) + 0"
    by (simp add: new_response_def content_size_def)
  from "16.IH" [OF this] show ?case by (simp add: merge_def)
qed (simp_all add: response_defs content_size_def Let_def)

lemma set_header_same:
  "chunks (set_header f v r) = chunks r" "chunks_size (set_header f v r) = chunks_size r"
  "body (set_header f v r) = body r" "status (set_header f v r) = status r"
  by (simp_all add: set_header_def)

lemma find_append: "List.find P (xs @ ys) = (case List.find P xs of None \<Rightarrow> List.find P ys | Some x \<Rightarrow> Some x)"
  by (induction xs) simp_all

lemma field_get_emplace: "\<not> same_field k l \<Longrightarrow> field_get (field_emplace fs l v) k = field_get fs k"
  by (simp add: field_get_def field_emplace_def find_append split: option.split)

lemma flush_cookies_same:
  defines "F \<equiv> \<lambda>date r (k :: string, c). case cookie_encode date c of None \<Rightarrow> r | Some t \<Rightarrow> set_header ''Set-Cookie'' t r"
  shows "chunks (flush_cookies date r) = chunks r" "chunks_size (flush_cookies date r) = chunks_size r"
    "body (flush_cookies date r) = body r" "status (flush_cookies date r) = status r"
    "\<not> same_field k ''Set-Cookie'' \<Longrightarrow> field_get (headers (flush_cookies date r)) k = field_get (headers r) k"
proof -
  have F: "chunks (F date r p) = chunks r \<and> chunks_size (F date r p) = chunks_size r \<and> body (F date r p) = body r \<and>
      status (F date r p) = status r \<and>
      (\<not> same_field k ''Set-Cookie'' \<longrightarrow> field_get (headers (F date r p)) k = field_get (headers r) k)" for r p
    by (cases p) (simp add: F_def set_header_same field_get_emplace set_header_def split: option.split)
  have "chunks (foldl (F date) r cs) = chunks r \<and> chunks_size (foldl (F date) r cs) = chunks_size r \<and>
      body (foldl (F date) r cs) = body r \<and> status (foldl (F date) r cs) = status r \<and>
      (\<not> same_field k ''Set-Cookie'' \<longrightarrow> field_get (headers (foldl (F date) r cs)) k = field_get (headers r) k)" for cs
    by (induction cs arbitrary: r) (use F in simp_all)
  then show "chunks (flush_cookies date r) = chunks r" "chunks_size (flush_cookies date r) = chunks_size r"
    "body (flush_cookies date r) = body r" "status (flush_cookies date r) = status r"
    "\<not> same_field k ''Set-Cookie'' \<Longrightarrow> field_get (headers (flush_cookies date r)) k = field_get (headers r) k"
    by (simp_all add: flush_cookies_def F_def)
qed

lemma length_not_cookie: "\<not> same_field ''Content-Length'' ''Set-Cookie''"
  by (simp add: same_field_def ci_compare_def to_lower_def is_upper_def)

lemma send_response_lost:
  assumes "chunks_size r0 = content_size (chunks r0) + n"
    and "send_response cfg date now rq_status reply err conn closing r0 = Inr (r, Mem_Chunk head # content, close)"
  shows "response_size r = content_size content + n" "head = response_head cfg now reply err conn closing (r\<lparr>chunks := chunks r0\<rparr>)"
proof -
  let ?r1 = "if rq_status > 400 \<and> response_size r0 = 0 then append_text (drop 9 (status_text (status r0))) r0 else r0"
  let ?r2 = "flush_cookies date ?r1"
  have sync: "chunks_size ?r2 = content_size (chunks ?r2) + n" "chunks ?r2 = chunks r0"
    using assms(1) by (simp_all add: flush_cookies_same append_text_def)
  have out: "r = ?r2\<lparr>chunks := []\<rparr>" "head = response_head cfg now reply err conn closing ?r2"
      "content = chunks ?r2 @ (if body ?r2 \<noteq> [] then [Mem_Chunk (body ?r2)] else [])"
    using assms(2) unfolding send_response_def Let_def by (auto split: if_splits)
  show "response_size r = content_size content + n"
    using sync(1) unfolding out(1,3) by (simp add: response_size_def content_size_def)
  have "r\<lparr>chunks := chunks r0\<rparr> = ?r2" using sync(2) unfolding out(1) by (cases ?r2) simp
  then show "head = response_head cfg now reply err conn closing (r\<lparr>chunks := chunks r0\<rparr>)" using out(2) by simp
qed

text \<open>C16: the content length. Whatever a handler does to a new response with the public operations, the
  \<open>Content-Length\<close> in the head (unless the handler has set that field itself) is the number of bytes that
  are sent after the head and, on top of it, the bytes of the chunks that \<open>clear\<close> or \<open>clearContent\<close> has
  dropped since the last merge, which the two do not subtract. So it is right exactly when no clear has
  dropped a chunk with bytes. (\<open>start\<close> drops the chunks of a failed request in the same way; that is not
  an operation here.)\<close>

theorem content_length:
  assumes "send_response cfg date now rq_status reply err conn closing (apply_ops ops new_response) =
      Inr (r, Mem_Chunk head # content, close)"
  shows "response_size r = content_size content + lost_ops ops new_response 0 \<and>
    (field_get (headers r) ''Content-Length'' = None \<longrightarrow>
       (\<exists>a b. head = a @ ''Content-Length: '' @ dec_digits (content_size content + lost_ops ops new_response 0) [] @ crlf @ b))"
proof -
  let ?r0 = "apply_ops ops new_response" and ?n = "content_size content + lost_ops ops new_response 0"
  have "chunks_size new_response = content_size (chunks new_response) + 0"
    by (simp add: new_response_def content_size_def)
  note out = send_response_lost [OF lost_invariant(2) [OF this] assms]
  have "\<exists>a b. head = a @ ''Content-Length: '' @ dec_digits ?n [] @ crlf @ b"
    if "field_get (headers r) ''Content-Length'' = None"
  proof -
    have "default_line (r\<lparr>chunks := chunks ?r0\<rparr>) ''Content-Length'' (dec_digits ?n []) = ''Content-Length: '' @ dec_digits ?n [] @ crlf"
      using that by (simp add: default_line_def field_line_def)
    moreover have "response_size (r\<lparr>chunks := chunks ?r0\<rparr>) = ?n" using out(1) by (simp add: response_size_def)
    ultimately show ?thesis unfolding out(2) response_head_def by (metis append.assoc)
  qed
  with out(1) show ?thesis by simp
qed

theorem content_length_witness:
  "\<exists>a b. response_head \<lparr>keep_alive_time = 0, hsts_enable = 0, server_name = ''suil'', send_chunk = 8\<rparr> ''now'' [] False [] False
      (append_text ''ok'' (clear_content (add_chunk (Mem_Chunk ''gone'') new_response))) =
    a @ ''Content-Length: '' @ dec_digits 6 [] @ crlf @ b"
proof -
  let ?cfg = "\<lparr>keep_alive_time = 0, hsts_enable = 0, server_name = ''suil'', send_chunk = 8\<rparr>"
  let ?r = "append_text ''ok'' (clear_content (add_chunk (Mem_Chunk ''gone'') new_response))"
  let ?ops = "[Add_Chunk (Mem_Chunk ''gone''), Clear_Content, Add_Text ''ok'']"
  have s: "send_response ?cfg (\<lambda>_. []) ''now'' 200 [] False [] False (apply_ops ?ops new_response) =
      Inr (?r, Mem_Chunk (response_head ?cfg ''now'' [] False [] False ?r) # [Mem_Chunk ''ok''], False)"
    by (simp add: send_response_def new_response_def append_text_def clear_content_def add_chunk_def field_erase_def
        flush_cookies_def closes_def ci_equal_def Let_def)
  have "field_get (headers ?r) ''Content-Length'' = None"
    by (simp add: append_text_def new_response_def field_get_def clear_content_def add_chunk_def field_erase_def)
  moreover have "content_size [Mem_Chunk ''ok''] + lost_ops ?ops new_response 0 = 6"
    by (simp add: content_size_def add_chunk_def new_response_def)
  ultimately show ?thesis using content_length [OF s] by simp
qed

section \<open>The send loop\<close>

fun chunk_bytes :: "(nat \<Rightarrow> string) \<Rightarrow> chunk \<Rightarrow> string" where
  "chunk_bytes files (Mem_Chunk s) = s"
| "chunk_bytes files (File_Chunk fd off n) = take n (drop off (files fd))"

text \<open>What a socket promises of the bytes it has taken: they are those it was given, as many as it says, of
  a file at most those that are there; when it reports a failure (0) some of them may have gone.
  Flushing adds nothing.\<close>

definition takes_some :: "string \<Rightarrow> string \<Rightarrow> nat \<Rightarrow> string \<Rightarrow> bool" where
  "takes_some before p rc after \<longleftrightarrow>
     rc \<le> length p \<and> (\<exists>k \<le> length p. after = before @ take k p \<and> (0 < rc \<longrightarrow> k = rc))"

definition honest_sock :: "'s conn_sock \<Rightarrow> (nat \<Rightarrow> string) \<Rightarrow> ('s \<Rightarrow> string) \<Rightarrow> bool" where
  "honest_sock sk files taken \<longleftrightarrow>
     (\<forall>p s. takes_some (taken s) p (fst (cs_send sk p s)) (taken (snd (cs_send sk p s)))) \<and>
     (\<forall>fd off n s. takes_some (taken s) (take n (drop off (files fd))) (fst (cs_sendfile sk fd off n s))
        (taken (snd (cs_sendfile sk fd off n s)))) \<and>
     (\<forall>s. taken (snd (cs_flush sk s)) = taken s)"

lemma takes_all: "takes_some a p (length p) (a @ p)"
  by (auto simp: takes_some_def intro!: exI [of _ "length p"])

lemma put_chunk_takes:
  assumes "honest_sock sk files taken" "put_chunk sk c sent n s = (rc, s1)" "sent + n \<le> chunk_size c"
  shows "takes_some (taken s) (take n (drop sent (chunk_bytes files c))) rc (taken s1)"
proof (cases c)
  case (Mem_Chunk d)
  then have "cs_send sk (take n (drop sent d)) s = (rc, s1)" using assms(2) by simp
  with assms(1) Mem_Chunk show ?thesis
    by (simp add: honest_sock_def) (metis fst_conv snd_conv)
next
  case (File_Chunk fd off len)
  then have "cs_sendfile sk fd (off + sent) n s = (rc, s1)" using assms(2) by simp
  moreover have "take n (drop sent (take len (drop off (files fd)))) = take n (drop (off + sent) (files fd))"
    using assms(3) File_Chunk by (simp add: drop_take min_def add.commute)
  ultimately show ?thesis using assms(1) File_Chunk
    by (simp add: honest_sock_def) (metis fst_conv snd_conv)
qed

text \<open>One chunk: what is sent of it after position \<open>sent\<close>.\<close>

lemma write_piece_ends:
  assumes "honest_sock sk files taken"
  shows "sent \<le> chunk_size c \<Longrightarrow> chunk_size c - sent < f \<Longrightarrow>
    \<exists>ok s' k. write_piece f lim sk c sent s = Some (ok, s') \<and>
      taken s' = taken s @ take k (drop sent (chunk_bytes files c)) \<and>
      (ok \<longrightarrow> sent < chunk_size c \<and> k = chunk_size c - sent \<and> length (chunk_bytes files c) = chunk_size c)"
proof (induction f arbitrary: sent s)
  case (Suc f)
  let ?n = "min lim (chunk_size c - sent)" and ?d = "drop sent (chunk_bytes files c)"
  obtain rc s1 where n: "put_chunk sk c sent ?n s = (rc, s1)" by fastforce
  have "sent + ?n \<le> chunk_size c" using Suc.prems(1) by linarith
  note t = put_chunk_takes [OF assms n this]
  consider "rc = 0 \<or> rc \<noteq> ?n" | "rc \<noteq> 0" "rc = ?n" by blast
  then show ?case
  proof cases
    case 1
    obtain k where "taken s1 = taken s @ take (min k ?n) ?d"
      using t by (auto simp: takes_some_def min.commute)
    then show ?thesis using n 1 by (intro exI [of _ False] exI [of _ s1] exI [of _ "min k ?n"]) (simp add: Let_def)
  next
    case 2
    then have e: "taken s1 = taken s @ take ?n ?d" "?n \<le> length ?d"
      using t by (auto simp: takes_some_def min_def split: if_splits)
    show ?thesis
    proof (cases "sent + ?n < chunk_size c")
      case True
      have "sent + ?n \<le> chunk_size c" "chunk_size c - (sent + ?n) < f" using True Suc.prems 2 by simp_all
      from Suc.IH [OF this, of s1] obtain ok s' k where r: "write_piece f lim sk c (sent + ?n) s1 = Some (ok, s')"
          "taken s' = taken s1 @ take k (drop ?n ?d)"
          "ok \<longrightarrow> k = chunk_size c - (sent + ?n) \<and> length (chunk_bytes files c) = chunk_size c"
        by (auto simp: add.commute)
      define m where "m = ?n"
      have "write_piece (Suc f) lim sk c sent s = Some (ok, s')"
        using n 2 True r(1) unfolding m_def [symmetric] by (simp add: Let_def m_def [symmetric])
      moreover have "taken s' = taken s @ take (?n + k) ?d" using e(1) r(2) by (simp add: take_add)
      moreover have "ok \<longrightarrow> sent < chunk_size c \<and> ?n + k = chunk_size c - sent \<and> length (chunk_bytes files c) = chunk_size c"
        using r(3) True 2 by auto
      ultimately show ?thesis by blast
    next
      case False
      then have l: "?n = chunk_size c - sent" "sent < chunk_size c" using 2 by simp_all
      have "length (chunk_bytes files c) \<le> chunk_size c" by (cases c) simp_all
      then have "length (chunk_bytes files c) = chunk_size c" using e(2) l by simp
      then show ?thesis using n 2 False e(1) l by (intro exI [of _ True] exI [of _ s1] exI [of _ ?n]) (simp add: Let_def)
    qed
  qed
qed simp

text \<open>C29: \<open>writeResponse\<close> always ends, for any socket that counts honestly and any limit, with a prefix of
  the bytes of the chunks gone. When it reports success, exactly these bytes have gone, in their order;
  every chunk has at least one byte and every file those it should have; all are counted, and the last
  flush has succeeded.\<close>

theorem write_response_total:
  assumes "honest_sock sk files taken"
  shows "\<exists>ok s' tx' sent rest. write_response lim sk cs s tx = Some (ok, s', tx') \<and>
     taken s' = taken s @ sent \<and> sent @ rest = concat (map (chunk_bytes files) cs) \<and>
     (ok \<longrightarrow> rest = [] \<and> tx' = tx + content_size cs \<and> (\<exists>s1. cs_flush sk s1 = (True, s')) \<and>
        (\<forall>c \<in> set cs. 0 < chunk_size c \<and> length (chunk_bytes files c) = chunk_size c))"
proof (induction cs arbitrary: s tx)
  case Nil
  obtain ok s1 where f: "cs_flush sk s = (ok, s1)" by fastforce
  have "taken s1 = taken s" using assms f by (auto simp: honest_sock_def dest: spec [of _ s])
  with f show ?case by (auto simp: content_size_def)
next
  case (Cons c cs)
  obtain ok1 s1 k where w: "write_piece (chunk_size c + 1) lim sk c 0 s = Some (ok1, s1)"
      "taken s1 = taken s @ take k (chunk_bytes files c)"
      "ok1 \<longrightarrow> 0 < chunk_size c \<and> k = chunk_size c \<and> length (chunk_bytes files c) = chunk_size c"
    using write_piece_ends [OF assms, of 0 c "chunk_size c + 1" lim s] by auto
  show ?case
  proof (cases ok1)
    case False
    have "write_response lim sk (c # cs) s tx = Some (False, s1, tx)" using w(1) False by simp
    then show ?thesis using w(2)
      by (intro exI [of _ False] exI [of _ s1] exI [of _ tx] exI [of _ "take k (chunk_bytes files c)"]
          exI [of _ "drop k (chunk_bytes files c) @ concat (map (chunk_bytes files) cs)"]) simp
  next
    case True
    have "write_response lim sk (c # cs) s tx = write_response lim sk cs s1 (tx + chunk_size c)" using w(1) True by simp
    moreover have "taken s1 = taken s @ chunk_bytes files c" using w(2,3) True by simp
    ultimately show ?thesis using Cons.IH [of s1 "tx + chunk_size c"] w(3) True
      by (fastforce simp: content_size_def)
  qed
qed

theorem write_response_total_witness:
  "\<exists>ok s' tx' sent rest.
     write_response 2 \<lparr>cs_open = \<lambda>_. True, cs_send = \<lambda>p s. (length p, s @ p),
        cs_sendfile = \<lambda>fd off n s. (length (take n (drop off ''hello'')), s @ take n (drop off ''hello'')),
        cs_flush = \<lambda>s. (True, s)\<rparr> [Mem_Chunk ''abc'', File_Chunk 3 1 3] [] 0 = Some (ok, s', tx') \<and>
     s' = [] @ sent \<and> sent @ rest = ''abcell'' \<and> ok \<and> tx' = 6"
proof -
  let ?sk = "\<lparr>cs_open = \<lambda>_. True, cs_send = \<lambda>p s. (length p, s @ p),
        cs_sendfile = \<lambda>fd off n s. (length (take n (drop off ''hello'')), s @ take n (drop off ''hello'')),
        cs_flush = \<lambda>s. (True, s)\<rparr> :: string conn_sock"
  have "honest_sock ?sk (\<lambda>_. ''hello'') (\<lambda>s. s)"
    using takes_all by (simp add: honest_sock_def del: length_take length_drop)
  from write_response_total [OF this, of 2 "[Mem_Chunk ''abc'', File_Chunk 3 1 3]" "[]" 0]
  show ?thesis by (auto simp: eval_nat_numeral content_size_def)
qed

end
