(* ===== verification/Router.thy ===== *)
theory Router
  imports Route_Table Http_Message
begin

text \<open>
  Rules and the router of the HTTP server (\<open>libs/http/src/server/router.cpp\<close>, \<open>rules.cpp\<close>,
  \<open>rules.hpp\<close>, \<open>rch.hpp\<close>), and the parameter tags of \<open>crow.hpp\<close> that tie a rule to the types of its
  handler. A handler is a function from the request, the decoded arguments and the response to the
  response or an exception.
\<close>

section \<open>Parameter tags\<close>

text \<open>The tag of the parameter that starts here; \<open>at\<close> tells which of the names does.\<close>

definition tag_digit :: "(string \<Rightarrow> bool) \<Rightarrow> nat option" where
  "tag_digit at =
     (if at ''{int}'' then Some 1
      else if at ''{uint}'' then Some 2
      else if at ''{float}'' \<or> at ''{double}'' then Some 3
      else if at ''{str}'' \<or> at ''{string}'' then Some 4
      else if at ''{path}'' then Some 5
      else None)"

definition is_equ_n :: "string \<Rightarrow> string \<Rightarrow> bool" where
  "is_equ_n s w \<longleftrightarrow> length w \<le> length s \<and> take (length w) s = w"

text \<open>At compile time; the digits of the tag are 64 bits together.\<close>

function get_parameter_tag :: "string \<Rightarrow> nat result" where
  "get_parameter_tag [] = Inr 0"
| "get_parameter_tag (c # s) =
     (if c = CHR ''{'' then
        (case tag_digit (is_equ_n (c # s)) of
           None \<Rightarrow> Inl RuntimeError
         | Some d \<Rightarrow>
             rbind (get_parameter_tag (dropWhile (\<lambda>x. x \<noteq> CHR ''}'') s)) (\<lambda>t. Inr ((t * 6 + d) mod 2 ^ 64)))
      else get_parameter_tag s)"
  by pat_completeness auto
termination
  by (relation "measure length") (auto simp: le_imp_less_Suc length_dropWhile_le)

text \<open>At run time, on the characters before the terminator.\<close>

function get_parameter_tag_runtime :: "string \<Rightarrow> nat result" where
  "get_parameter_tag_runtime [] = Inr 0"
| "get_parameter_tag_runtime (c # s) =
     (if c = NUL then Inr 0
      else if c = CHR ''{'' then
        (case tag_digit (\<lambda>w. strncmp_eq (c # s) w (length w)) of
           None \<Rightarrow> Inl RuntimeError
         | Some d \<Rightarrow>
             (let r = dropWhile (\<lambda>x. x \<noteq> CHR ''}'' \<and> x \<noteq> NUL) s in
              if cur r = NUL then Inl RuntimeError
              else rbind (get_parameter_tag_runtime r) (\<lambda>t. Inr ((t * 6 + d) mod 2 ^ 64))))
      else get_parameter_tag_runtime s)"
  by pat_completeness auto
termination
  by (relation "measure length") (auto simp: le_imp_less_Suc length_dropWhile_le)

datatype arg_type = AInt | AUint | ADouble | AString

fun single_tag_to_type :: "nat \<Rightarrow> arg_type option" where
  "single_tag_to_type n =
     (if n = 1 then Some AInt else if n = 2 then Some AUint else if n = 3 then Some ADouble
      else if n = 4 \<or> n = 5 then Some AString else None)"

text \<open>The argument types of a tagged rule.\<close>

fun arguments :: "nat \<Rightarrow> arg_type list option" where
  "arguments tag =
     (if tag = 0 then Some []
      else case (single_tag_to_type (tag mod 6), arguments (tag div 6)) of
          (Some t, Some ts) \<Rightarrow> Some (t # ts)
        | _ \<Rightarrow> None)"

declare arguments.simps [simp del]

text \<open>The types of a handler's parameters behind the request and the response, which have no tag and are not
  arguments. Those that can be called with are the types \<open>promote\<close> turns into one of the four; of these
  \<open>float\<close> alone has no tag. (With any other type the rule does not compile.) The sum is an \<open>int\<close> of the
  compiler.\<close>

datatype handler_arg = Tagged arg_type | Float_Arg

fun promote :: "handler_arg \<Rightarrow> arg_type" where
  "promote (Tagged t) = t"
| "promote Float_Arg = ADouble"

fun parameter_tag :: "handler_arg \<Rightarrow> nat" where
  "parameter_tag Float_Arg = 0"
| "parameter_tag (Tagged AInt) = 1"
| "parameter_tag (Tagged AUint) = 2"
| "parameter_tag (Tagged ADouble) = 3"
| "parameter_tag (Tagged AString) = 4"

fun parameter_tag_of_args :: "handler_arg list \<Rightarrow> nat" where
  "parameter_tag_of_args [] = 0"
| "parameter_tag_of_args (a # as) =
     (let sub_value = parameter_tag_of_args as
      in if parameter_tag a \<noteq> 0 then sub_value * 6 + parameter_tag a else sub_value)"

text \<open>Both digits are taken from the first tag.\<close>

fun is_parameter_tag_compatible :: "nat \<Rightarrow> nat \<Rightarrow> bool" where
  "is_parameter_tag_compatible a b =
     (if a = 0 then b = 0
      else if b = 0 then a = 0
      else
        let sa = (if a mod 6 = 5 then 4 else a mod 6);
            sb = (if a mod 6 = 5 then 4 else a mod 6)
        in if sa \<noteq> sb then False else is_parameter_tag_compatible (a div 6) (b div 6))"

declare is_parameter_tag_compatible.simps [simp del]

section \<open>Calling a handler\<close>

text \<open>\<open>rch::call\<close>: each argument is the next parameter of its type.\<close>

definition param_at :: "'a list \<Rightarrow> nat \<Rightarrow> 'a result" where
  "param_at xs i = (if i < length xs then Inr (xs ! i) else Inl IndexOutOfBounds)"

fun call_args :: "nat \<Rightarrow> nat \<Rightarrow> nat \<Rightarrow> nat \<Rightarrow> arg_type list \<Rightarrow> 'd routing_params \<Rightarrow> 'd pvalue list result" where
  "call_args ni nu nd ns [] p = Inr []"
| "call_args ni nu nd ns (AInt # ts) p =
     rbind (param_at (int_params p) ni) (\<lambda>v. rbind (call_args (ni + 1) nu nd ns ts p) (\<lambda>vs. Inr (PInt v # vs)))"
| "call_args ni nu nd ns (AUint # ts) p =
     rbind (param_at (uint_params p) nu) (\<lambda>v. rbind (call_args ni (nu + 1) nd ns ts p) (\<lambda>vs. Inr (PUint v # vs)))"
| "call_args ni nu nd ns (ADouble # ts) p =
     rbind (param_at (double_params p) nd) (\<lambda>v. rbind (call_args ni nu (nd + 1) ns ts p) (\<lambda>vs. Inr (PDouble v # vs)))"
| "call_args ni nu nd ns (AString # ts) p =
     rbind (param_at (string_params p) ns) (\<lambda>v. rbind (call_args ni nu nd (ns + 1) ts p) (\<lambda>vs. Inr (PString v # vs)))"

section \<open>Rules\<close>

text \<open>The method is the number the parser has for it; C++ leaves \<open>1 << 32\<close> and beyond open, here they are 0.\<close>

record request_head =
  rq_url :: str
  rq_method :: nat
  rq_host :: string

type_synonym 'd handler = "request_head \<Rightarrow> 'd pvalue list \<Rightarrow> response \<Rightarrow> response result"

record 'd rule =
  rl_rule :: str
  rl_id :: nat
  rl_name :: string
  rl_description :: string
  rl_methods :: "32 word"
  rl_method_names :: "string list"
  rl_enabled :: bool
  rl_types :: "arg_type list"
  rl_handler :: "'d handler option"

text \<open>A new rule takes the next number of the generator and answers \<open>GET\<close>.\<close>

definition new_rule :: "str \<Rightarrow> arg_type list \<Rightarrow> nat \<Rightarrow> 'd rule \<times> nat" where
  "new_rule path types gen =
     (\<lparr>rl_rule = path, rl_id = gen, rl_name = [], rl_description = [], rl_methods = push_bit (method_code Get) 1,
       rl_method_names = [], rl_enabled = True, rl_types = types, rl_handler = None\<rparr>, u32 (gen + 1))"

definition add_method :: "http_method \<Rightarrow> 'd rule \<Rightarrow> 'd rule" where
  "add_method m r =
     r\<lparr>rl_methods := rl_methods r OR push_bit (method_code m) 1, rl_method_names := rl_method_names r @ [method_text m]\<rparr>"

definition set_tagged_handler :: "'d handler \<Rightarrow> 'd rule \<Rightarrow> 'd rule" where
  "set_tagged_handler h r = r\<lparr>rl_handler := Some h\<rparr>"

text \<open>A dynamic rule takes any handler that \<open>wrap\<close> accepts.\<close>

definition set_dynamic_handler :: "handler_arg list \<Rightarrow> 'd handler \<Rightarrow> 'd rule \<Rightarrow> 'd rule result" where
  "set_dynamic_handler args h r =
     rbind (get_parameter_tag_runtime (mem (rl_rule r))) (\<lambda>tag.
       if \<not> is_parameter_tag_compatible tag (parameter_tag_of_args args) then Inl InvalidArguments
       else Inr (r\<lparr>rl_handler := Some h, rl_types := map promote args\<rparr>))"

definition validate_rule :: "'d rule \<Rightarrow> unit result" where
  "validate_rule r = (if rl_handler r = None then Inl InvalidArguments else Inr ())"

definition rule_handle :: "'d rule \<Rightarrow> request_head \<Rightarrow> 'd routing_params \<Rightarrow> response \<Rightarrow> response result" where
  "rule_handle r req p resp =
     rbind (call_args 0 0 0 0 (rl_types r) p) (\<lambda>vs.
       case rl_handler r of None \<Rightarrow> Inl RuntimeError | Some h \<Rightarrow> h req vs resp)"

section \<open>The router\<close>

record 'd router =
  rt_rules :: "'d rule option list"
  api_base :: str
  rt_trie :: "node list"

definition redirect_slash :: nat where
  "redirect_slash = 1"

definition new_router :: "str \<Rightarrow> 'd router" where
  "new_router base =
     \<lparr>rt_rules = [None, None], api_base = (if str_eq base (lit ''/'') then lit [] else base), rt_trie = new_trie\<rparr>"

text \<open>The rule is in the list, and what the trie got of it stays there, when the trie refuses it.\<close>

definition internal_add_rule :: "str \<Rightarrow> 'd rule \<Rightarrow> 'd router \<Rightarrow> unit result \<times> 'd router" where
  "internal_add_rule path obj rt =
     (let rt1 = rt\<lparr>rt_rules := rt_rules rt @ [Some obj]\<rparr>;
          (r, nodes) = add (rt_trie rt1) (text_of path) (length (rt_rules rt1) - 1);
          rt2 = rt1\<lparr>rt_trie := nodes\<rparr>
      in if r \<noteq> Inr () then (r, rt2)
         else if back_char path = CHR ''/'' then
           let without = substr path 0 (m_len path - 1) True;
               (r', nodes') = add (rt_trie rt2) (text_of without) redirect_slash
           in (r', rt2\<lparr>rt_trie := nodes'\<rparr>)
         else (Inr (), rt2))"

definition validate_router :: "'d router \<Rightarrow> 'd router result" where
  "validate_router rt =
     rbind (validate (rt_trie rt)) (\<lambda>nodes.
     rbind (mapM (\<lambda>r. case r of None \<Rightarrow> Inr () | Some x \<Rightarrow> validate_rule x) (rt_rules rt)) (\<lambda>us.
       Inr (rt\<lparr>rt_trie := nodes\<rparr>)))"

record 'd request_params =
  rp_index :: nat
  rp_decoded :: "'d routing_params"
  rp_enabled :: "bool option"
  rp_methods :: "32 word"
  rp_route_id :: nat

definition file_server_route :: string where
  "file_server_route = ''/1b7647618ea63937daae8ebb903e9175''"

text \<open>The first assignment of \<open>url\<close> is always overwritten. The number readers of the trie see what is behind the
  URL in memory.\<close>

definition before :: "(string \<Rightarrow> 'd option) \<Rightarrow> 'd router \<Rightarrow> request_head \<Rightarrow> 'd request_params result" where
  "before num rt req =
     (let tmp = peek (rq_url req);
          url = (if str_empty (api_base rt) \<or> starts_with tmp (api_base rt) False
                 then substr tmp (m_len (api_base rt)) 0 True else lit file_server_route)
      in rbind (find_route num (drop (m_len url) (mem url)) (rt_trie rt) (text_of url)) (\<lambda>(first, second).
        if first = 0 then Inl (HttpError 404)
        else if first \<ge> length (rt_rules rt) then Inl (HttpError 500)
        else case rt_rules rt ! first of
            None \<Rightarrow> Inl NullDereference
          | Some r \<Rightarrow>
              if \<not> rl_enabled r then Inl (HttpError 404)
              else Inr \<lparr>rp_index = first, rp_decoded = second, rp_enabled = Some (rl_enabled r),
                        rp_methods = rl_methods r, rp_route_id = rl_id r\<rparr>))"

text \<open>Exceptions, not undefined behaviour, are what the router catches.\<close>

fun is_exception :: "exn \<Rightarrow> bool" where
  "is_exception OutOfBoundsWrite = False"
| "is_exception OutOfBoundsRead = False"
| "is_exception StackExhausted = False"
| "is_exception AssertionFailure = False"
| "is_exception NullDereference = False"
| "is_exception IntegerOverflow = False"
| "is_exception UseAfterFree = False"
| "is_exception _ = True"

fun handler_error :: "exn \<Rightarrow> exn" where
  "handler_error (HttpError st) = HttpError st"
| "handler_error e = (if is_exception e then HttpError 500 else e)"

definition handle :: "'d router \<Rightarrow> request_head \<Rightarrow> 'd request_params \<Rightarrow> response \<Rightarrow> response result" where
  "handle rt req p resp =
     (if rp_index p = redirect_slash then
        let loc = (if rq_host req \<noteq> [] then ''http://'' @ rq_host req @ text_of (rq_url req) @ ''/''
                   else text_of (rq_url req) @ ''/'')
        in Inr (end_status 301 (set_header ''Location'' loc new_response))
      else if length (rt_rules rt) \<le> rp_index p then Inl OutOfBoundsRead
      else case rt_rules rt ! rp_index p of
          None \<Rightarrow> Inl NullDereference
        | Some r \<Rightarrow>
            if rl_methods r AND push_bit (rq_method req) 1 = 0 then Inl (HttpError 404)
            else (case rule_handle r req (rp_decoded p) resp of
                Inl e \<Rightarrow> Inl (handler_error e)
              | Inr resp' \<Rightarrow> Inr resp'))"


section \<open>Tags and tokens\<close>

fun ptypes :: "token list \<Rightarrow> param_type list" where
  "ptypes [] = []"
| "ptypes (Lit c # ts) = ptypes ts"
| "ptypes (Param t # ts) = t # ptypes ts"

fun type_digit :: "param_type \<Rightarrow> nat" where
  "type_digit TInt = 1"
| "type_digit TUint = 2"
| "type_digit TDouble = 3"
| "type_digit TString = 4"
| "type_digit TPath = 5"

fun arg_of :: "param_type \<Rightarrow> arg_type" where
  "arg_of TInt = AInt"
| "arg_of TUint = AUint"
| "arg_of TDouble = ADouble"
| "arg_of TString = AString"
| "arg_of TPath = AString"

fun tag_value :: "param_type list \<Rightarrow> nat" where
  "tag_value [] = 0"
| "tag_value (t # ts) = tag_value ts * 6 + type_digit t"

lemma length_ptypes [simp]: "length (ptypes ts) = nparams ts"
  by (induction ts rule: nparams.induct) simp_all

lemma type_digit_range: "0 < type_digit t" "type_digit t < 6" "single_tag_to_type (type_digit t) = Some (arg_of t)"
  by (cases t; simp)+

lemma tag_value_bound: "tag_value ts < 6 ^ length ts"
proof (induction ts)
  case (Cons t ts)
  then have "tag_value ts + 1 \<le> 6 ^ length ts" by simp
  then have "(tag_value ts + 1) * 6 \<le> 6 ^ length ts * 6" by (rule mult_le_mono1)
  then show ?case using type_digit_range(2) [of t] by simp
qed simp

lemma tag_value_64: "length ts \<le> 24 \<Longrightarrow> tag_value ts < 2 ^ 64"
proof -
  assume l: "length ts \<le> 24"
  have "tag_value ts < 6 ^ length ts" by (rule tag_value_bound)
  also have "\<dots> \<le> (6 :: nat) ^ 24" using l by (intro power_increasing) simp_all
  also have "\<dots> < 2 ^ 64" by simp
  finally show ?thesis .
qed

lemma arguments_tag: "arguments (tag_value ts) = Some (map arg_of ts)"
proof (induction ts)
  case Nil
  show ?case by (simp add: arguments.simps)
next
  case (Cons t ts)
  have "(tag_value ts * 6 + type_digit t) mod 6 = type_digit t" "(tag_value ts * 6 + type_digit t) div 6 = tag_value ts"
    using type_digit_range(2) [of t] by simp_all
  then show ?case
    using Cons type_digit_range(1,3) [of t] by (subst arguments.simps) (simp del: single_tag_to_type.simps)
qed

text \<open>The names of the table are told apart by what they begin with.\<close>

lemma is_equ_n_iff: "is_equ_n s w \<longleftrightarrow> take (length w) s = w"
  unfolding is_equ_n_def by (metis length_take min.absorb_iff2 min.commute nat_le_linear take_all)

lemma trait_at_digit: "tag_digit (is_equ_n s) = map_option (\<lambda>(t, n). type_digit t) (trait_at s)"
  unfolding is_equ_n_iff tag_digit_def by (simp add: trait_at_def param_traits_def)

lemma tag_digit_cong:
  "(\<And>w. w \<in> {''{int}'', ''{uint}'', ''{float}'', ''{double}'', ''{str}'', ''{string}'', ''{path}''} \<Longrightarrow> P w = Q w) \<Longrightarrow>
   tag_digit P = tag_digit Q"
  by (simp add: tag_digit_def)

lemma trait_at_rest:
  assumes "trait_at (c # cs) = Some (t, n)"
  shows "dropWhile (\<lambda>x. x \<noteq> CHR ''}'') cs = CHR ''}'' # drop (n - 1) cs"
proof -
  obtain name where name: "(t, name) \<in> set param_traits" "n = length name" "take (length name) (c # cs) = name"
    using assms unfolding trait_at_def by (auto simp: find_Some_iff dest: nth_mem)
  then have "cs = tl name @ drop (n - 1) cs"
    by (metis append_take_drop_id drop_Suc_Cons length_tl list.sel(3) take_Suc_Cons take_tl tl_append2 tl_take)
  moreover have "dropWhile (\<lambda>x. x \<noteq> CHR ''}'') (tl name @ r) = CHR ''}'' # r" for r
    using name(1) unfolding param_traits_def by auto
  ultimately show ?thesis by metis
qed

lemma get_tag_tokens: "get_parameter_tag s = Inr tag \<Longrightarrow> nparams (tokens s) \<le> 24 \<Longrightarrow> tag = tag_value (ptypes (tokens s))"
proof (induction s arbitrary: tag rule: tokens.induct)
  case (2 c cs)
  show ?case
  proof (cases "c = CHR ''{''")
    case brace: True
    show ?thesis
    proof (cases "trait_at (c # cs)")
      case None
      then have "tag_digit (is_equ_n (c # cs)) = None" using trait_at_digit [of "c # cs"] by simp
      then show ?thesis using "2.prems"(1) brace by simp
    next
      case (Some tn)
      obtain t n where tn: "tn = (t, n)" by fastforce
      then have d: "tag_digit (is_equ_n (c # cs)) = Some (type_digit t)"
        using trait_at_digit [of "c # cs"] Some by simp
      have r: "dropWhile (\<lambda>x. x \<noteq> CHR ''}'') cs = CHR ''}'' # drop (n - 1) cs"
        using trait_at_rest Some tn by blast
      have tok: "tokens (c # cs) = Param t # tokens (drop (n - 1) cs)" using brace Some tn by simp
      obtain tag' where tag': "get_parameter_tag (drop (n - 1) cs) = Inr tag'" "tag = (tag' * 6 + type_digit t) mod 2 ^ 64"
        using "2.prems"(1) brace d r by (cases "get_parameter_tag (drop (n - 1) cs)") simp_all
      have "tag' = tag_value (ptypes (tokens (drop (n - 1) cs)))"
        using "2.IH"(2) [OF brace Some tn [symmetric] tag'(1)] "2.prems"(2) tok by simp
      then have "tag = tag_value (ptypes (tokens (c # cs))) mod 2 ^ 64" using tag'(2) tok by simp
      then show ?thesis using tag_value_64 [of "ptypes (tokens (c # cs))"] "2.prems"(2) by simp
    qed
  next
    case False
    then show ?thesis using "2.IH"(3) "2.prems" by simp
  qed
qed simp

lemma runtime_tag: "NUL \<notin> set s \<Longrightarrow> get_parameter_tag_runtime s = get_parameter_tag s"
proof (induction s rule: get_parameter_tag.induct)
  case (2 c s)
  show ?case
  proof (cases "c = CHR ''{''")
    case True
    have same: "strncmp_eq (c # s) w (length w) \<longleftrightarrow> is_equ_n (c # s) w" if "NUL \<notin> set w" for w
      using strncmp_eq_prefix [of w "c # s"] that "2.prems" unfolding is_equ_n_iff by blast
    have "tag_digit (\<lambda>w. strncmp_eq (c # s) w (length w)) = tag_digit (is_equ_n (c # s))"
      by (intro tag_digit_cong same) auto
    moreover have "dropWhile (\<lambda>x. x \<noteq> CHR ''}'' \<and> x \<noteq> NUL) s = dropWhile (\<lambda>x. x \<noteq> CHR ''}'') s"
      using "2.prems" by (intro dropWhile_cong) auto
    moreover have "cur (dropWhile (\<lambda>x. x \<noteq> CHR ''}'') s) \<noteq> NUL" if "tag_digit (is_equ_n (c # s)) = Some d" for d
    proof -
      have "trait_at (c # s) \<noteq> None" using that trait_at_digit [of "c # s"] by auto
      then show ?thesis using trait_at_rest by fastforce
    qed
    moreover have "get_parameter_tag_runtime (dropWhile (\<lambda>x. x \<noteq> CHR ''}'') s) = get_parameter_tag (dropWhile (\<lambda>x. x \<noteq> CHR ''}'') s)"
      if "tag_digit (is_equ_n (c # s)) = Some d" for d
      using "2.IH"(1) [OF True that] "2.prems" by (metis set_dropWhileD list.set_intros(2))
    ultimately show ?thesis using True by (simp split: option.split)
  next
    case False
    then show ?thesis using 2 by auto
  qed
qed simp

section \<open>Arguments and parameters\<close>

fun value_type :: "'d pvalue \<Rightarrow> arg_type" where
  "value_type (PInt v) = AInt"
| "value_type (PUint v) = AUint"
| "value_type (PDouble v) = ADouble"
| "value_type (PString v) = AString"

lemma read_param_type: "read_param num after t s = Some (v, n) \<Longrightarrow> value_type v = arg_of t"
  by (cases t) (auto simp: Let_def split: if_splits prod.splits)

lemma tvals_types: "tmatch num ts s \<Longrightarrow> map value_type (tvals num ts s) = map arg_of (ptypes ts)"
  by (induction ts arbitrary: s rule: nparams.induct)
     (auto simp: read_param_type split: list.splits option.splits prod.splits)

fun p_len :: "'d routing_params \<Rightarrow> arg_type \<Rightarrow> nat" where
  "p_len p AInt = length (int_params p)"
| "p_len p AUint = length (uint_params p)"
| "p_len p ADouble = length (double_params p)"
| "p_len p AString = length (string_params p)"

lemma params_add_p_len: "p_len (params_add p v) t = p_len p t + (if value_type v = t then 1 else 0)"
  by (cases v; cases t) (simp_all add: params_add_def)

lemma params_all_p_len: "p_len (foldl params_add p vs) t = p_len p t + count_list (map value_type vs) t"
  by (induction vs arbitrary: p) (simp_all add: params_add_p_len)

lemma params_kept:
  "\<exists>r. int_params (foldl params_add p vs) = int_params p @ r" "\<exists>r. uint_params (foldl params_add p vs) = uint_params p @ r"
  "\<exists>r. double_params (foldl params_add p vs) = double_params p @ r" "\<exists>r. string_params (foldl params_add p vs) = string_params p @ r"
proof -
  have "(\<exists>r. int_params (foldl params_add p vs) = int_params p @ r) \<and> (\<exists>r. uint_params (foldl params_add p vs) = uint_params p @ r) \<and>
      (\<exists>r. double_params (foldl params_add p vs) = double_params p @ r) \<and> (\<exists>r. string_params (foldl params_add p vs) = string_params p @ r)"
  proof (induction vs arbitrary: p)
    case (Cons v vs)
    show ?case using Cons [of "params_add p v"] by (cases v) (auto simp: params_add_def)
  qed simp
  then show "\<exists>r. int_params (foldl params_add p vs) = int_params p @ r" "\<exists>r. uint_params (foldl params_add p vs) = uint_params p @ r"
    "\<exists>r. double_params (foldl params_add p vs) = double_params p @ r" "\<exists>r. string_params (foldl params_add p vs) = string_params p @ r"
    by blast+
qed

text \<open>The arguments are the values in their order.\<close>

lemma call_args_values:
  "call_args (p_len p AInt) (p_len p AUint) (p_len p ADouble) (p_len p AString) (map value_type vs) (foldl params_add p vs) = Inr vs"
proof (induction vs arbitrary: p)
  case (Cons v vs)
  have ih: "call_args (p_len (params_add p v) AInt) (p_len (params_add p v) AUint) (p_len (params_add p v) ADouble)
      (p_len (params_add p v) AString) (map value_type vs) (foldl params_add (params_add p v) vs) = Inr vs" by (rule Cons)
  show ?case
  proof (cases v)
    case (PInt x)
    obtain r where "int_params (foldl params_add (params_add p v) vs) = int_params (params_add p v) @ r" using params_kept(1) by blast
    then have "param_at (int_params (foldl params_add (params_add p v) vs)) (p_len p AInt) = Inr x"
      using PInt by (simp add: param_at_def params_add_def nth_append)
    then show ?thesis using ih PInt by (simp add: params_add_p_len del: p_len.simps)
  next
    case (PUint x)
    obtain r where "uint_params (foldl params_add (params_add p v) vs) = uint_params (params_add p v) @ r" using params_kept(2) by blast
    then have "param_at (uint_params (foldl params_add (params_add p v) vs)) (p_len p AUint) = Inr x"
      using PUint by (simp add: param_at_def params_add_def nth_append)
    then show ?thesis using ih PUint by (simp add: params_add_p_len del: p_len.simps)
  next
    case (PDouble x)
    obtain r where "double_params (foldl params_add (params_add p v) vs) = double_params (params_add p v) @ r" using params_kept(3) by blast
    then have "param_at (double_params (foldl params_add (params_add p v) vs)) (p_len p ADouble) = Inr x"
      using PDouble by (simp add: param_at_def params_add_def nth_append)
    then show ?thesis using ih PDouble by (simp add: params_add_p_len del: p_len.simps)
  next
    case (PString x)
    obtain r where "string_params (foldl params_add (params_add p v) vs) = string_params (params_add p v) @ r" using params_kept(4) by blast
    then have "param_at (string_params (foldl params_add (params_add p v) vs)) (p_len p AString) = Inr x"
      using PString by (simp add: param_at_def params_add_def nth_append)
    then show ?thesis using ih PString by (simp add: params_add_p_len del: p_len.simps)
  qed
qed simp

lemma p_len_none: "p_len no_params t = 0"
  by (cases t) (simp_all add: no_params_def)

lemma call_args_params: "call_args 0 0 0 0 (map value_type vs) (params_of vs) = Inr vs"
  using call_args_values [of no_params vs] unfolding params_of_def p_len_none .

text \<open>A call fails just when there are more arguments of a type than parameters.\<close>

lemma call_args_fit:
  assumes "\<And>t. n t \<le> p_len p t"
  shows "if \<forall>t. n t + count_list ts t \<le> p_len p t
    then \<exists>vs. call_args (n AInt) (n AUint) (n ADouble) (n AString) ts p = Inr vs
    else call_args (n AInt) (n AUint) (n ADouble) (n AString) ts p = Inl IndexOutOfBounds"
  using assms
proof (induction ts arbitrary: n)
  case (Cons a ts)
  show ?case
  proof (cases "n a < p_len p a")
    case True
    let ?n = "n(a := n a + 1)"
    have ih: "if \<forall>t. ?n t + count_list ts t \<le> p_len p t
        then \<exists>vs. call_args (?n AInt) (?n AUint) (?n ADouble) (?n AString) ts p = Inr vs
        else call_args (?n AInt) (?n AUint) (?n ADouble) (?n AString) ts p = Inl IndexOutOfBounds"
      using Cons.prems True by (intro Cons.IH) (simp add: Suc_leI)
    have same: "?n t + count_list ts t = n t + count_list (a # ts) t" for t by simp
    show ?thesis using ih True unfolding same by (cases a) (auto simp: param_at_def split: if_splits)
  next
    case False
    then have "\<not> n a + count_list (a # ts) a \<le> p_len p a" by simp
    then have "\<not> (\<forall>t. n t + count_list (a # ts) t \<le> p_len p t)" by blast
    moreover have "call_args (n AInt) (n AUint) (n ADouble) (n AString) (a # ts) p = Inl IndexOutOfBounds"
      using False by (cases a) (simp_all add: param_at_def)
    ultimately show ?thesis by simp
  qed
qed simp

section \<open>The check of a dynamic rule\<close>

function tag_len :: "nat \<Rightarrow> nat" where
  "tag_len n = (if n = 0 then 0 else Suc (tag_len (n div 6)))"
  by auto
termination by (relation "measure id") auto

declare tag_len.simps [simp del]

lemma tag_len_0 [simp]: "tag_len n = 0 \<longleftrightarrow> n = 0"
  by (subst tag_len.simps) simp

lemma compatible_zero: "is_parameter_tag_compatible 0 b \<longleftrightarrow> b = 0" "is_parameter_tag_compatible a 0 \<longleftrightarrow> a = 0"
  by (subst is_parameter_tag_compatible.simps, simp)+

lemma compatible_len: "is_parameter_tag_compatible a b \<longleftrightarrow> tag_len a = tag_len b"
proof (induction a b rule: is_parameter_tag_compatible.induct)
  case (1 a b)
  show ?case
  proof (cases "a = 0 \<or> b = 0")
    case True
    then show ?thesis using compatible_zero tag_len_0 by metis
  next
    case False
    then have ih: "is_parameter_tag_compatible (a div 6) (b div 6) \<longleftrightarrow> tag_len (a div 6) = tag_len (b div 6)"
      by (intro 1) simp_all
    have "is_parameter_tag_compatible a b \<longleftrightarrow> is_parameter_tag_compatible (a div 6) (b div 6)"
      using False by (subst is_parameter_tag_compatible.simps) simp
    moreover have "tag_len a = Suc (tag_len (a div 6))" "tag_len b = Suc (tag_len (b div 6))"
      using False by (subst tag_len.simps, simp)+
    ultimately show ?thesis using ih by simp
  qed
qed

lemma tag_len_digit: "0 < d \<Longrightarrow> d < 6 \<Longrightarrow> tag_len (t * 6 + d) = Suc (tag_len t)"
  by (subst tag_len.simps) simp

lemma tag_len_value: "tag_len (tag_value ts) = length ts"
  by (induction ts) (simp_all add: tag_len_digit type_digit_range)

lemma tag_len_args: "tag_len (parameter_tag_of_args args) = length (filter (\<lambda>a. a \<noteq> Float_Arg) args)"
proof (induction args)
  case (Cons a args)
  have "tag_len (parameter_tag_of_args (Tagged t # args)) = Suc (tag_len (parameter_tag_of_args args))" for t
  proof -
    have "0 < parameter_tag (Tagged t)" "parameter_tag (Tagged t) < 6" by (cases t; simp)+
    then show ?thesis using tag_len_digit by (simp del: parameter_tag.simps)
  qed
  then show ?case using Cons by (cases a) simp_all
qed simp

end
