(* ===== verification/Routing.thy ===== *)
theory Routing
  imports Router "HOL-Library.Multiset"
begin

text \<open>
  What the router promises: a request goes to the registered rule with the least number whose path
  the URL has the form of, its handler gets the values the URL has for the parameters, and what the
  checks let through that is not so.
\<close>

section \<open>Registering rules\<close>

text \<open>An application adds its rules one after the other; the first refusal ends it.\<close>

fun add_rules :: "(str \<times> 'd rule) list \<Rightarrow> 'd router \<Rightarrow> unit result \<times> 'd router" where
  "add_rules [] rt = (Inr (), rt)"
| "add_rules ((path, obj) # ps) rt =
     (let (r, rt') = internal_add_rule path obj rt in
      case r of Inl e \<Rightarrow> (Inl e, rt') | Inr u \<Rightarrow> add_rules ps rt')"

definition path_text :: "str \<times> 'd rule \<Rightarrow> string" where
  "path_text x = text_of (fst x)"

text \<open>The paths the trie has been given, and the rules of the table: a rule that ends in a slash also
  stands, without it, for the redirection.\<close>

definition slashed :: "string \<Rightarrow> bool" where
  "slashed t \<longleftrightarrow> t \<noteq> [] \<and> last t = CHR ''/''"

definition path_tokens :: "(str \<times> 'd rule) list \<Rightarrow> token list set" where
  "path_tokens ps = (\<lambda>x. tokens (path_text x)) ` set ps \<union>
     (\<lambda>x. tokens (butlast (path_text x))) ` {x \<in> set ps. slashed (path_text x)}"

definition table :: "(str \<times> 'd rule) list \<Rightarrow> (token list \<times> nat) set" where
  "table ps = {(tokens (path_text (ps ! i)), i + 2) | i. i < length ps} \<union>
     (\<lambda>x. (tokens (butlast (path_text x)), 1)) ` {x \<in> set ps. slashed (path_text x)}"

definition tabled :: "(str \<times> 'd rule) list \<Rightarrow> 'd router \<Rightarrow> bool" where
  "tabled ps rt \<longleftrightarrow> rt_rules rt = [None, None] @ map (\<lambda>x. Some (snd x)) ps \<and>
     within (path_tokens ps) (rt_trie rt) \<and> routes (rt_trie rt) 0 = table ps \<and>
     (\<forall>x \<in> set ps. slashed (path_text x) \<longrightarrow> length (path_text x) \<noteq> 1)"

lemma back_slashed: "str_ok p \<Longrightarrow> back_char p = CHR ''/'' \<longleftrightarrow> slashed (text_of p)"
proof -
  assume ok: "str_ok p"
  have l: "length (text_of p) = m_len p" using ok by (simp add: text_of_def str_ok_def)
  have "text_of p \<noteq> [] \<Longrightarrow> last (text_of p) = mem p ! (m_len p - 1)"
    using ok l by (simp add: last_conv_nth) (simp add: text_of_def str_ok_def)
  moreover have "str_empty p \<longleftrightarrow> text_of p = []"
    using ok l by (cases "m_cstr p") (auto simp: str_empty_def str_ok_def mem_def)
  ultimately show ?thesis by (auto simp: back_char_def slashed_def)
qed

lemma without_text:
  assumes "str_ok p" "0 < m_len p"
  shows "text_of (substr p 0 (m_len p - 1) True) = (if m_len p = 1 then text_of p else butlast (text_of p))"
proof (cases "m_len p = 1")
  case True
  have "substr p 0 0 True = of_view (Some (mem p)) 1 False" using substr_rest [OF assms] True by simp
  then show ?thesis using True assms by (simp add: text_of_def)
next
  case False
  then have "text_of (substr p 0 (m_len p - 1) True) = take (m_len p - 1) (text_of p)"
    using substr_text [OF assms(1), of 0 "m_len p - 1" True] assms(2) by simp
  moreover have "length (text_of p) = m_len p" using assms(1) by (simp add: text_of_def str_ok_def)
  ultimately show ?thesis using False by (simp add: butlast_conv_take)
qed

lemma table_nil [simp]: "table [] = {}" "path_tokens [] = {}"
  by (simp_all add: table_def path_tokens_def)

lemma slashed_snoc:
  "{y \<in> set (ps @ [x]). slashed (path_text y)} =
     (if slashed (path_text x) then insert x {y \<in> set ps. slashed (path_text y)} else {y \<in> set ps. slashed (path_text y)})"
  by auto

lemma path_tokens_snoc:
  "path_tokens (ps @ [x]) = insert (tokens (path_text x))
     (path_tokens ps \<union> (if slashed (path_text x) then {tokens (butlast (path_text x))} else {}))"
  unfolding path_tokens_def slashed_snoc by auto

lemma table_snoc:
  "table (ps @ [x]) = insert (tokens (path_text x), length ps + 2)
     (table ps \<union> (if slashed (path_text x) then {(tokens (butlast (path_text x)), 1)} else {}))"
proof -
  have "{(tokens (path_text ((ps @ [x]) ! i)), i + 2) | i. i < length (ps @ [x])} =
      insert (tokens (path_text x), length ps + 2) {(tokens (path_text (ps ! i)), i + 2) | i. i < length ps}"
    (is "?A = ?B")
  proof (intro equalityI subsetI)
    fix p assume "p \<in> ?A"
    then obtain i where "i < Suc (length ps)" "p = (tokens (path_text ((ps @ [x]) ! i)), i + 2)" by auto
    then show "p \<in> ?B" by (cases "i = length ps") (auto simp: nth_append)
  next
    fix p assume "p \<in> ?B"
    then consider "p = (tokens (path_text x), length ps + 2)"
      | i where "i < length ps" "p = (tokens (path_text (ps ! i)), i + 2)" by auto
    then show "p \<in> ?A"
    proof cases
      case 1
      then show ?thesis by (auto intro!: exI [of _ "length ps"])
    next
      case (2 i)
      then show ?thesis by (auto simp: nth_append intro!: exI [of _ i])
    qed
  qed
  then show ?thesis unfolding table_def slashed_snoc by auto
qed

lemma tabled_new: "tabled [] (new_router base)"
  using within_new new_trie_routes by (simp add: tabled_def new_router_def)

lemma internal_add_rule_tabled:
  assumes tab: "tabled ps rt" and ok: "str_ok p" and add: "internal_add_rule p obj rt = (Inr (), rt')"
  shows "tabled (ps @ [(p, obj)]) rt' \<and> api_base rt' = api_base rt"
proof -
  let ?t = "text_of p"
  have len: "length (rt_rules rt @ [Some obj]) - 1 = length ps + 2" using tab by (simp add: tabled_def)
  obtain r nodes where a: "Route_Trie.add (rt_trie rt) ?t (length ps + 2) = (r, nodes)" by fastforce
  have w: "within (path_tokens ps) (rt_trie rt)" and rs: "routes (rt_trie rt) 0 = table ps"
    and long: "\<And>x. x \<in> set ps \<Longrightarrow> slashed (path_text x) \<Longrightarrow> length (path_text x) \<noteq> 1"
    using tab unfolding tabled_def by blast+
  have t: "tree (rt_trie rt)" using w by (simp add: within_def)
  have r: "r = Inr ()"
  proof (rule ccontr)
    assume "r \<noteq> Inr ()"
    then show False using add a len by (simp add: internal_add_rule_def Let_def split: if_splits)
  qed
  have n1: "within (insert (tokens ?t) (path_tokens ps)) nodes" "routes nodes 0 = insert (tokens ?t, length ps + 2) (table ps)"
    using within_add [OF w _ a] add_spec [OF t _ a] r rs by (auto split: if_splits)
  have rules: "rt_rules rt @ [Some obj] = [None, None] @ map (\<lambda>x. Some (snd x)) (ps @ [(p, obj)])" using tab by (simp add: tabled_def)
  show ?thesis
  proof (cases "slashed ?t")
    case False
    have "rt' = rt\<lparr>rt_rules := rt_rules rt @ [Some obj], rt_trie := nodes\<rparr>"
      using add a r len False back_slashed [OF ok] by (simp add: internal_add_rule_def Let_def)
    then show ?thesis using rules n1 False long unfolding tabled_def path_tokens_snoc table_snoc by (auto simp: path_text_def)
  next
    case True
    let ?w = "text_of (substr p 0 (m_len p - 1) True)"
    obtain r' nodes' where a': "Route_Trie.add nodes ?w redirect_slash = (r', nodes')" by fastforce
    have e: "r' = Inr ()" "rt' = rt\<lparr>rt_rules := rt_rules rt @ [Some obj], rt_trie := nodes'\<rparr>"
      using add a a' r len True back_slashed [OF ok] by (simp_all add: internal_add_rule_def Let_def)
    have t': "tree nodes" using n1(1) by (simp add: within_def)
    have z: "redirect_slash \<noteq> 0" by (simp add: redirect_slash_def)
    have n2: "within (insert (tokens ?w) (insert (tokens ?t) (path_tokens ps))) nodes'"
        "\<not> (\<exists>y. (tokens ?w, y) \<in> routes nodes 0)" "routes nodes' 0 = insert (tokens ?w, 1) (routes nodes 0)"
      using within_add [OF n1(1) z a'] add_spec [OF t' z a'] e(1) by (auto simp: redirect_slash_def split: if_splits)
    have m: "0 < m_len p" using True ok by (cases "m_len p") (simp_all add: slashed_def text_of_def)
    have "length ?t = m_len p" using ok by (simp add: text_of_def str_ok_def)
    moreover have one: "m_len p \<noteq> 1"
    proof
      assume "m_len p = 1"
      then have "?w = ?t" using without_text [OF ok m] by simp
      then show False using n2(2) n1(2) by auto
    qed
    ultimately have "length ?t \<noteq> 1" by simp
    then have all: "slashed (path_text x) \<longrightarrow> length (path_text x) \<noteq> 1" if "x \<in> set (ps @ [(p, obj)])" for x
      using long that by (cases "x = (p, obj)") (auto simp: path_text_def)
    have "?w = butlast ?t" using without_text [OF ok m] one by simp
    then have "within (path_tokens (ps @ [(p, obj)])) nodes'" "routes nodes' 0 = table (ps @ [(p, obj)])"
      using n2(1,3) n1(2) True unfolding path_tokens_snoc table_snoc by (simp_all add: path_text_def insert_commute)
    then show ?thesis using rules all e(2) unfolding tabled_def by simp
  qed
qed

lemma add_rules_tabled:
  "tabled qs rt \<Longrightarrow> (\<And>x. x \<in> set ps \<Longrightarrow> str_ok (fst x)) \<Longrightarrow> add_rules ps rt = (Inr (), rt') \<Longrightarrow>
   tabled (qs @ ps) rt' \<and> api_base rt' = api_base rt"
proof (induction ps arbitrary: qs rt)
  case (Cons x ps)
  obtain p obj where x: "x = (p, obj)" by fastforce
  obtain r rt1 where a: "internal_add_rule p obj rt = (r, rt1)" by fastforce
  have r: "r = Inr ()" using Cons.prems(3) x a by (cases r) simp_all
  have t: "tabled (qs @ [(p, obj)]) rt1 \<and> api_base rt1 = api_base rt"
    using internal_add_rule_tabled [OF Cons.prems(1) _ a [unfolded r]] Cons.prems(2) [of x] x by simp
  then show ?case using Cons.IH [of "qs @ [(p, obj)]" rt1] Cons.prems(2,3) x a r by simp
qed simp

section \<open>Requests\<close>

lemma trait_slash: "trait_at ((c # s) @ ''/'') = trait_at (c # s)"
proof -
  have same: "take n ((c # s) @ ''/'') = name \<longleftrightarrow> take n (c # s) = name" if "n = length name" "CHR ''/'' \<notin> set name" for n name
  proof (cases "n \<le> length (c # s)")
    case False
    then have "take n ((c # s) @ ''/'') = (c # s) @ ''/''" "take n (c # s) = c # s" by simp_all
    moreover have "length (c # s) \<noteq> n" "CHR ''/'' \<in> set ((c # s) @ ''/'')" using False by auto
    ultimately show ?thesis using that by metis
  next
    case True
    then have "take n ((c # s) @ ''/'') = take n (c # s)" unfolding take_append by simp
    then show ?thesis by simp
  qed
  have "List.find (\<lambda>(t, name). take (length name) ((c # s) @ ''/'') = name) param_traits =
      List.find (\<lambda>(t, name). take (length name) (c # s) = name) param_traits"
  proof (rule find_cong [OF refl])
    fix x assume x: "x \<in> set param_traits"
    obtain t name where tn: "x = (t, name)" by fastforce
    have "CHR ''/'' \<notin> set name" using x tn by (auto simp: param_traits_def)
    from same [OF refl this] show "(case x of (t, name) \<Rightarrow> take (length name) ((c # s) @ ''/'') = name) =
        (case x of (t, name) \<Rightarrow> take (length name) (c # s) = name)" unfolding tn prod.case .
  qed
  then show ?thesis unfolding trait_at_def by (rule arg_cong)
qed

lemma trait_len: "trait_at s = Some (t, n) \<Longrightarrow> 1 \<le> n \<and> n \<le> length s"
  by (auto simp: trait_at_def param_traits_def split: if_splits dest: arg_cong [where f = length])

lemma tokens_slash: "tokens (s @ ''/'') = tokens s @ [Lit (CHR ''/'')]"
proof (induction s rule: tokens.induct)
  case (2 c cs)
  show ?case
  proof (cases "c = CHR ''{''")
    case brace: True
    note same = trait_slash [of c cs, simplified]
    show ?thesis
    proof (cases "trait_at (c # cs)")
      case None
      then show ?thesis using "2.IH"(1) [OF brace None] brace same by simp
    next
      case (Some tn)
      obtain t n where tn: "tn = (t, n)" by fastforce
      then have "drop (n - 1) (cs @ ''/'') = drop (n - 1) cs @ ''/''" using trait_len [of "c # cs" t n] Some by simp
      then show ?thesis using "2.IH"(2) [OF brace Some tn [symmetric]] brace same Some tn by simp
    qed
  next
    case False
    then show ?thesis using "2.IH"(3) by simp
  qed
qed simp

lemma slashed_params: "slashed t \<Longrightarrow> nparams (tokens (butlast t)) = nparams (tokens t)"
proof -
  assume s: "slashed t"
  have "t = butlast t @ ''/''" using s append_butlast_last_id [of t] unfolding slashed_def by simp
  then have "tokens t = tokens (butlast t) @ [Lit (CHR ''/'')]" using tokens_slash by metis
  then show ?thesis by simp
qed

lemma tokens_rooted: "cur t = CHR ''/'' \<Longrightarrow> \<exists>us. tokens t = Lit (CHR ''/'') # us"
  by (cases t) simp_all

text \<open>What an application sees to: every path begins with a slash and has at most 128 parameters, every
  rule has a handler.\<close>

definition proper :: "(str \<times> 'd rule) list \<Rightarrow> bool" where
  "proper ps \<longleftrightarrow> (\<forall>x \<in> set ps. str_ok (fst x) \<and> cur (path_text x) = CHR ''/'' \<and>
     nparams (tokens (path_text x)) \<le> 128 \<and> rl_handler (snd x) \<noteq> None)"

lemma proper_tokens:
  assumes "proper ps" "tabled ps rt" "ts \<in> path_tokens ps"
  shows "\<exists>us. ts = Lit (CHR ''/'') # us" "nparams ts \<le> 128"
proof -
  from assms(3) consider x where "x \<in> set ps" "ts = tokens (path_text x)"
    | x where "x \<in> set ps" "slashed (path_text x)" "ts = tokens (butlast (path_text x))"
    unfolding path_tokens_def by blast
  then have "(\<exists>us. ts = Lit (CHR ''/'') # us) \<and> nparams ts \<le> 128"
  proof cases
    case 1
    then show ?thesis using assms(1) tokens_rooted unfolding proper_def by metis
  next
    case 2
    have "length (path_text x) \<noteq> 1" using assms(2) 2 unfolding tabled_def by blast
    then have "cur (butlast (path_text x)) = cur (path_text x)" using 2(2)
      by (cases "path_text x"; cases "tl (path_text x)") (simp_all add: slashed_def)
    then show ?thesis using 2 assms(1) tokens_rooted slashed_params [OF 2(2)] unfolding proper_def by metis
  qed
  then show "\<exists>us. ts = Lit (CHR ''/'') # us" "nparams ts \<le> 128" by blast+
qed

lemma table_tokens: "(ts, x) \<in> table ps \<Longrightarrow> ts \<in> path_tokens ps"
  unfolding table_def path_tokens_def by (auto dest: nth_mem)

lemma validate_tabled:
  assumes "proper ps" "tabled ps rt"
  shows "\<exists>ns. validate_router rt = Inr (rt\<lparr>rt_trie := ns\<rparr>) \<and> optimize (rt_trie rt) = Inr ns"
proof -
  have w: "within (path_tokens ps) (rt_trie rt)" "routes (rt_trie rt) 0 = table ps" using assms(2) by (simp_all add: tabled_def)
  have "is_simple (rt_trie rt ! 0)"
    using proper_tokens(1) [OF assms] table_tokens by (intro within_simple [OF w(1)]) (blast, use w(2) table_tokens in auto)
  moreover obtain ns where ns: "optimize (rt_trie rt) = Inr ns"
    using optimize_keeps tree_up tree_prefix_free w(1) unfolding within_def by blast
  moreover have "mapM (\<lambda>r. case r of None \<Rightarrow> Inr () | Some x \<Rightarrow> validate_rule x) (rt_rules rt) = Inr (map (\<lambda>_. ()) (rt_rules rt))"
    using assms unfolding tabled_def proper_def by (intro mapM_Inr) (auto simp: validate_rule_def)
  ultimately show ?thesis by (simp add: validate_router_def validate_def)
qed

lemma root_base:
  assumes "str_ok (rq_url req)" "m_len (rq_url req) = length (mem (rq_url req))" "str_empty (api_base rt)" "m_len (api_base rt) = 0"
  shows "before num rt req =
    rbind (find_route num [] (rt_trie rt) (text_of (rq_url req))) (\<lambda>(first, second).
        if first = 0 then Inl (HttpError 404)
        else if first \<ge> length (rt_rules rt) then Inl (HttpError 500)
        else case rt_rules rt ! first of
            None \<Rightarrow> Inl NullDereference
          | Some r \<Rightarrow>
              if \<not> rl_enabled r then Inl (HttpError 404)
              else Inr \<lparr>rp_index = first, rp_decoded = second, rp_enabled = Some (rl_enabled r),
                        rp_methods = rl_methods r, rp_route_id = rl_id r\<rparr>)"
proof -
  let ?u = "rq_url req"
  have p: "str_ok (peek ?u)" "m_len (peek ?u) = m_len ?u" "mem (peek ?u) = mem ?u"
    using assms(1) by (simp_all add: peek_def str_ok_def mem_def of_view_def)
  let ?s = "substr (peek ?u) 0 0 True"
  have "mem ?s = mem ?u \<and> m_len ?s = m_len ?u"
  proof (cases "m_len ?u = 0")
    case True
    then have "?s = null_str" using p(2) by (simp add: substr_def sub64_def)
    then show ?thesis using True assms(2) by (simp add: null_str_def mem_def)
  next
    case False
    then have "?s = of_view (Some (mem ?u)) (m_len ?u) False" using substr_rest [OF p(1), of 0] p(2,3) by simp
    then show ?thesis using assms(1) by (simp add: str_ok_def)
  qed
  then have "text_of ?s = text_of ?u" "drop (m_len ?s) (mem ?s) = []" using assms(2) by (simp_all add: text_of_def)
  then show ?thesis using assms(3,4) by (simp add: before_def Let_def)
qed

lemma new_router_base: "str_empty (api_base (new_router (lit ''/'')))" "m_len (api_base (new_router (lit ''/''))) = 0"
  by (simp_all add: new_router_def str_eq_def str_empty_def lit_def of_cstr_def c_str_def mem_def)

lemma dispatched:
  assumes "proper ps" "add_rules ps (new_router (lit ''/'')) = (Inr (), rt)"
    and "str_ok (rq_url req)" "m_len (rq_url req) = length (mem (rq_url req))"
  shows "\<exists>ns. validate_router rt = Inr (rt\<lparr>rt_trie := ns\<rparr>) \<and> optimize (rt_trie rt) = Inr ns \<and> tabled ps rt \<and>
    before num (rt\<lparr>rt_trie := ns\<rparr>) req =
      rbind (find_route num [] ns (text_of (rq_url req))) (\<lambda>(first, second).
        if first = 0 then Inl (HttpError 404)
        else if first \<ge> length (rt_rules rt) then Inl (HttpError 500)
        else case rt_rules rt ! first of
            None \<Rightarrow> Inl NullDereference
          | Some r \<Rightarrow>
              if \<not> rl_enabled r then Inl (HttpError 404)
              else Inr \<lparr>rp_index = first, rp_decoded = second, rp_enabled = Some (rl_enabled r),
                        rp_methods = rl_methods r, rp_route_id = rl_id r\<rparr>)"
proof -
  have ok: "\<And>x. x \<in> set ps \<Longrightarrow> str_ok (fst x)" using assms(1) unfolding proper_def by blast
  note added = add_rules_tabled [OF tabled_new ok assms(2)]
  then have t: "tabled ps rt" by simp
  have base: "str_empty (api_base rt)" "m_len (api_base rt) = 0"
    by (simp_all only: conjunct2 [OF added] new_router_base)
  obtain ns where ns: "validate_router rt = Inr (rt\<lparr>rt_trie := ns\<rparr>)" "optimize (rt_trie rt) = Inr ns"
    using validate_tabled [OF assms(1) t] by blast
  have b: "str_empty (api_base (rt\<lparr>rt_trie := ns\<rparr>))" "m_len (api_base (rt\<lparr>rt_trie := ns\<rparr>)) = 0"
    using base by simp_all
  have r: "rt_rules (rt\<lparr>rt_trie := ns\<rparr>) = rt_rules rt" "rt_trie (rt\<lparr>rt_trie := ns\<rparr>) = ns" by simp_all
  show ?thesis using ns t root_base [OF assms(3,4) b, of num] unfolding r by blast
qed

lemma rule_at:
  assumes "tabled ps rt"
  shows "length (rt_rules rt) = length ps + 2" "rt_rules rt ! 1 = None" "i < length ps \<Longrightarrow> rt_rules rt ! (i + 2) = Some (snd (ps ! i))"
  using assms by (simp_all add: tabled_def)

text \<open>C2: which rule answers. For rules as they should be (\<open>proper\<close>), all accepted, the router validates,
  and then the rule of a request is the one with the least number among those whose path the URL has the
  form of; a rule that ends in a slash stands, without it, for number 1, the redirection, which is
  therefore preferred to every rule. No such rule is status 404, a disabled one too, and the redirection
  follows a null pointer: \<open>before\<close> looks its rule up before \<open>handle\<close> can send it. (The router is one at the
  base \<open>/\<close>, and the request's URL has nothing behind it in memory.)\<close>

theorem request_dispatch:
  assumes "proper ps" "add_rules ps (new_router (lit ''/'')) = (Inr (), rt)"
    and "str_ok (rq_url req)" "m_len (rq_url req) = length (mem (rq_url req))"
  shows "\<exists>rt' params. validate_router rt = Inr rt' \<and>
    (let x = least {x. \<exists>ts. (ts, x) \<in> table ps \<and> tmatch num ts (text_of (rq_url req))};
         r = snd (ps ! (x - 2)) in
     before num rt' req =
       (if x = 0 then Inl (HttpError 404)
        else if x = 1 then Inl NullDereference
        else if \<not> rl_enabled r then Inl (HttpError 404)
        else Inr \<lparr>rp_index = x, rp_decoded = params, rp_enabled = Some True,
                  rp_methods = rl_methods r, rp_route_id = rl_id r\<rparr>))"
proof -
  let ?M = "{x. \<exists>ts. (ts, x) \<in> table ps \<and> tmatch num ts (text_of (rq_url req))}"
  obtain ns where ns: "validate_router rt = Inr (rt\<lparr>rt_trie := ns\<rparr>)" "optimize (rt_trie rt) = Inr ns" "tabled ps rt"
    "before num (rt\<lparr>rt_trie := ns\<rparr>) req =
      rbind (find_route num [] ns (text_of (rq_url req))) (\<lambda>(first, second).
        if first = 0 then Inl (HttpError 404)
        else if first \<ge> length (rt_rules rt) then Inl (HttpError 500)
        else case rt_rules rt ! first of
            None \<Rightarrow> Inl NullDereference
          | Some r \<Rightarrow>
              if \<not> rl_enabled r then Inl (HttpError 404)
              else Inr \<lparr>rp_index = first, rp_decoded = second, rp_enabled = Some (rl_enabled r),
                        rp_methods = rl_methods r, rp_route_id = rl_id r\<rparr>)"
    using dispatched [OF assms] by blast
  have w: "within (path_tokens ps) (rt_trie rt)" "routes (rt_trie rt) 0 = table ps" using ns(3) by (simp_all add: tabled_def)
  define L where "L = least ?M"
  obtain params where f: "find_route num [] ns (text_of (rq_url req)) = Inr (L, params)"
    using table_find [OF w(1) proper_tokens(2) [OF assms(1) ns(3)] ns(2)] unfolding w(2) L_def by blast
  note b = ns(4) [unfolded f]
  consider "L = 0" | "L = 1" | i where "i < length ps" "L = i + 2"
  proof -
    have "?M = {} \<or> L \<in> ?M" using least_in [of ?M] unfolding L_def by blast
    moreover have "L = 0" if "?M = {}" using that by (simp add: L_def least_def)
    ultimately have "L = 0 \<or> (\<exists>ts. (ts, L) \<in> table ps)" by blast
    then show ?thesis using that unfolding table_def by auto
  qed
  then have "before num (rt\<lparr>rt_trie := ns\<rparr>) req =
      (if L = 0 then Inl (HttpError 404)
       else if L = 1 then Inl NullDereference
       else if \<not> rl_enabled (snd (ps ! (L - 2))) then Inl (HttpError 404)
       else Inr \<lparr>rp_index = L, rp_decoded = params, rp_enabled = Some True,
                 rp_methods = rl_methods (snd (ps ! (L - 2))), rp_route_id = rl_id (snd (ps ! (L - 2)))\<rparr>)"
    using b rule_at [OF ns(3)] by cases simp_all
  then show ?thesis using ns(1) unfolding Let_def L_def by blast
qed

text \<open>C6: the arguments of a tagged rule. When the URL has the form of one rule's path and of no other
  beginning of a path, the rule's handler is called with the values the URL has for the parameters, in
  their order, and their types are those the rule's tag stands for; an exception of the handler that is not
  an \<open>HttpError\<close> becomes status 500. (The router is at the base \<open>/\<close>, the rule is enabled and answers the
  request's method, its path has at most 24 parameters, and the URL has nothing behind it in memory.)\<close>

theorem dispatch_arguments:
  assumes "proper ps" "add_rules ps (new_router (lit ''/'')) = (Inr (), rt)"
    and "str_ok (rq_url req)" "m_len (rq_url req) = length (mem (rq_url req))"
    and i: "i < length ps" "nparams (tokens (path_text (ps ! i))) \<le> 24"
    and tag: "get_parameter_tag (path_text (ps ! i)) = Inr tag" "arguments tag = Some (rl_types (snd (ps ! i)))"
    and rule: "rl_enabled (snd (ps ! i))" "rl_handler (snd (ps ! i)) = Some h"
      "rl_methods (snd (ps ! i)) AND push_bit (rq_method req) 1 \<noteq> 0"
    and one: "{ts. (\<exists>vs. ts @ vs \<in> path_tokens ps) \<and> tmatch num ts (text_of (rq_url req))} = {tokens (path_text (ps ! i))}"
  shows "\<exists>rt' p. validate_router rt = Inr rt' \<and> before num rt' req = Inr p \<and>
    handle rt' req p resp =
      (case h req (tvals num (tokens (path_text (ps ! i))) (text_of (rq_url req))) resp of
         Inl e \<Rightarrow> Inl (handler_error e) | Inr resp' \<Rightarrow> Inr resp') \<and>
    map value_type (tvals num (tokens (path_text (ps ! i))) (text_of (rq_url req))) = rl_types (snd (ps ! i))"
proof -
  let ?us = "tokens (path_text (ps ! i))" and ?url = "text_of (rq_url req)"
  let ?vs = "tvals num ?us ?url"
  obtain ns where ns: "validate_router rt = Inr (rt\<lparr>rt_trie := ns\<rparr>)" "optimize (rt_trie rt) = Inr ns" "tabled ps rt"
    "before num (rt\<lparr>rt_trie := ns\<rparr>) req =
      rbind (find_route num [] ns ?url) (\<lambda>(first, second).
        if first = 0 then Inl (HttpError 404)
        else if first \<ge> length (rt_rules rt) then Inl (HttpError 500)
        else case rt_rules rt ! first of
            None \<Rightarrow> Inl NullDereference
          | Some r \<Rightarrow>
              if \<not> rl_enabled r then Inl (HttpError 404)
              else Inr \<lparr>rp_index = first, rp_decoded = second, rp_enabled = Some (rl_enabled r),
                        rp_methods = rl_methods r, rp_route_id = rl_id r\<rparr>)"
    using dispatched [OF assms(1-4)] by blast
  have w: "within (path_tokens ps) (rt_trie rt)" "routes (rt_trie rt) 0 = table ps" using ns(3) by (simp_all add: tabled_def)
  have "?us \<in> {ts. (\<exists>vs. ts @ vs \<in> path_tokens ps) \<and> tmatch num ts ?url}" unfolding one by simp
  then have m: "tmatch num ?us ?url" by simp
  have in_t: "(?us, i + 2) \<in> routes (rt_trie rt) 0" unfolding w(2) table_def using i(1) by blast
  have "?us \<in> path_tokens ps" using in_t w(2) table_tokens by blast
  then obtain us' where "?us = Lit (CHR ''/'') # us'" using proper_tokens(1) [OF assms(1) ns(3)] by blast
  then have "?url \<noteq> []" using m by auto
  from table_params [OF w(1) proper_tokens(2) [OF assms(1) ns(3)] ns(2) this one in_t]
  have f: "find_route num [] ns ?url = Inr (i + 2, params_of ?vs)" by blast
  let ?p = "\<lparr>rp_index = i + 2, rp_decoded = params_of ?vs, rp_enabled = Some True,
    rp_methods = rl_methods (snd (ps ! i)), rp_route_id = rl_id (snd (ps ! i))\<rparr>"
  have b: "before num (rt\<lparr>rt_trie := ns\<rparr>) req = Inr ?p"
    using ns(4) f rule_at [OF ns(3)] i(1) rule(1) by simp
  have types: "map value_type ?vs = rl_types (snd (ps ! i))"
    using tvals_types [OF m] get_tag_tokens [OF tag(1) i(2)] arguments_tag [of "ptypes ?us"] tag(2) by simp
  then have "call_args 0 0 0 0 (rl_types (snd (ps ! i))) (params_of ?vs) = Inr ?vs" using call_args_params by metis
  then have "handle (rt\<lparr>rt_trie := ns\<rparr>) req ?p resp =
      (case h req ?vs resp of Inl e \<Rightarrow> Inl (handler_error e) | Inr resp' \<Rightarrow> Inr resp')"
    using rule_at [OF ns(3)] i(1) rule by (simp add: handle_def redirect_slash_def rule_handle_def)
  then show ?thesis using ns(1) b types by blast
qed

section \<open>Dynamic rules\<close>

lemma count_list_mset: "length ys \<le> length xs \<Longrightarrow> (\<forall>t. count_list xs t \<le> count_list ys t) \<longleftrightarrow> mset xs = mset ys"
proof
  assume l: "length ys \<le> length xs" and c: "\<forall>t. count_list xs t \<le> count_list ys t"
  have sub: "mset xs \<subseteq># mset ys" using c by (simp add: subseteq_mset_def count_mset)
  show "mset xs = mset ys"
  proof (rule ccontr)
    assume "mset xs \<noteq> mset ys"
    then have "mset xs \<subset># mset ys" using sub by (simp add: subset_mset_def)
    then have "size (mset xs) < size (mset ys)" by (rule mset_subset_size)
    then show False using l by simp
  qed
next
  assume "mset xs = mset ys"
  then have "count_list xs t = count_list ys t" for t by (metis count_mset)
  then show "\<forall>t. count_list xs t \<le> count_list ys t" by simp
qed

text \<open>C19: what the check of a dynamic rule is worth, for a path of at most 24 parameters. It accepts a
  handler just when the number of its arguments, those of type \<open>float\<close> not counted, is the number of the
  path's parameters, whatever their types, because it compares a digit of the path's tag with itself. At a
  request every argument takes a parameter, a \<open>float\<close> one of type \<open>double\<close>: the handler can be called
  just when it has no \<open>float\<close> and its types are, but for the order, the path's; all others that are
  accepted fail with \<open>IndexOutOfBounds\<close> at every request.\<close>

theorem dynamic_rule_types:
  assumes "whole (rl_rule r)" "get_parameter_tag_runtime (mem (rl_rule r)) = Inr tag"
    and "nparams (tokens (mem (rl_rule r))) \<le> 24"
  defines "types \<equiv> map arg_of (ptypes (tokens (mem (rl_rule r))))"
  shows "((\<exists>r'. set_dynamic_handler args h r = Inr r') \<longleftrightarrow> length (filter (\<lambda>a. a \<noteq> Float_Arg) args) = length types) \<and>
    (\<forall>r' num url. set_dynamic_handler args h r = Inr r' \<and> tmatch num (tokens (mem (rl_rule r))) url \<longrightarrow>
       (let result = call_args 0 0 0 0 (rl_types r') (params_of (tvals num (tokens (mem (rl_rule r))) url)) in
        if Float_Arg \<notin> set args \<and> mset (map promote args) = mset types then \<exists>vs. result = Inr vs else result = Inl IndexOutOfBounds))"
proof (intro conjI allI impI)
  let ?us = "tokens (mem (rl_rule r))"
  have "NUL \<notin> set (mem (rl_rule r))" using assms(1) by (simp add: whole_def)
  then have tag: "tag = tag_value (ptypes ?us)" using get_tag_tokens [OF _ assms(3)] runtime_tag assms(2) by metis
  have acc: "set_dynamic_handler args h r =
      (if length (filter (\<lambda>a. a \<noteq> Float_Arg) args) = length types then Inr (r\<lparr>rl_handler := Some h, rl_types := map promote args\<rparr>)
       else Inl InvalidArguments)"
    unfolding set_dynamic_handler_def assms(2) compatible_len tag tag_len_args types_def by (simp add: tag_len_value)
  then show "(\<exists>r'. set_dynamic_handler args h r = Inr r') \<longleftrightarrow> length (filter (\<lambda>a. a \<noteq> Float_Arg) args) = length types" by simp
  fix r' num url
  assume a: "set_dynamic_handler args h r = Inr r' \<and> tmatch num ?us url"
  let ?vs = "tvals num ?us url"
  have r': "rl_types r' = map promote args" and n: "length (filter (\<lambda>a. a \<noteq> Float_Arg) args) = length types"
    using a acc by (auto split: if_splits)
  have l: "length types \<le> length (rl_types r')" using r' n length_filter_le [of "\<lambda>a. a \<noteq> Float_Arg" args] by simp
  have float: "Float_Arg \<notin> set args" if "mset (rl_types r') = mset types"
  proof -
    have "length (filter (\<lambda>a. a \<noteq> Float_Arg) args) = length args" using mset_eq_length [OF that] r' n by simp
    then show ?thesis by (metis (mono_tags, lifting) length_filter_less less_irrefl)
  qed
  have "map value_type ?vs = types" using tvals_types a unfolding types_def by blast
  then have p: "p_len (params_of ?vs) t = count_list types t" for t
    unfolding params_of_def params_all_p_len p_len_none by simp
  have "(\<forall>t. 0 + count_list (rl_types r') t \<le> p_len (params_of ?vs) t) \<longleftrightarrow> mset (rl_types r') = mset types"
    unfolding p using count_list_mset [OF l] by simp
  moreover have "if \<forall>t. 0 + count_list (rl_types r') t \<le> p_len (params_of ?vs) t
      then \<exists>vs. call_args 0 0 0 0 (rl_types r') (params_of ?vs) = Inr vs
      else call_args 0 0 0 0 (rl_types r') (params_of ?vs) = Inl IndexOutOfBounds"
    by (rule call_args_fit [of "\<lambda>_. 0"]) simp
  ultimately show "let result = call_args 0 0 0 0 (rl_types r') (params_of ?vs) in
      if Float_Arg \<notin> set args \<and> mset (map promote args) = mset types then \<exists>vs. result = Inr vs else result = Inl IndexOutOfBounds"
    using float unfolding Let_def r' by auto
qed

section \<open>Examples\<close>

definition sample_rule :: "string \<Rightarrow> arg_type list \<Rightarrow> int rule" where
  "sample_rule path types = set_tagged_handler (\<lambda>req vs resp. Inr resp) (fst (new_rule (lit path) types 0))"

definition sample_rules :: "(str \<times> int rule) list" where
  "sample_rules = [(lit ''/{int}'', sample_rule ''/{int}'' [AInt])]"

definition sample_request :: request_head where
  "sample_request = \<lparr>rq_url = lit ''/5'', rq_method = 1, rq_host = []\<rparr>"

lemma sample_texts:
  "text_of (lit ''/{int}'') = ''/{int}''" "mem (lit ''/{int}'') = ''/{int}''" "m_len (lit ''/{int}'') = 6"
  "str_ok (lit ''/{int}'')" "text_of (lit ''/5'') = ''/5''" "mem (lit ''/5'') = ''/5''" "m_len (lit ''/5'') = 2" "str_ok (lit ''/5'')"
  "back_char (lit ''/{int}'') = CHR ''}''"
  by (simp_all add: lit_def of_cstr_def c_str_def text_of_def mem_def str_ok_def back_char_def str_empty_def)

lemma sample_tokens: "tokens ''/{int}'' = [Lit (CHR ''/''), Param TInt]"
  by (simp add: trait_at_def param_traits_def)

lemma sample_proper: "proper sample_rules"
  by (simp add: proper_def sample_rules_def path_text_def sample_texts sample_tokens sample_rule_def set_tagged_handler_def del: tokens.simps)

lemma sample_table: "table sample_rules = {([Lit (CHR ''/''), Param TInt], 2)}"
  "path_tokens sample_rules = {[Lit (CHR ''/''), Param TInt]}"
proof -
  have none: "{x \<in> set sample_rules. slashed (path_text x)} = {}"
    by (auto simp: sample_rules_def path_text_def sample_texts slashed_def)
  have "{(tokens (path_text (sample_rules ! i)), i + 2) | i. i < length sample_rules} = {([Lit (CHR ''/''), Param TInt], 2)}"
    by (simp add: sample_rules_def path_text_def sample_texts sample_tokens del: tokens.simps)
  then show "table sample_rules = {([Lit (CHR ''/''), Param TInt], 2)}" unfolding table_def none by simp
  show "path_tokens sample_rules = {[Lit (CHR ''/''), Param TInt]}"
    unfolding path_tokens_def none by (simp add: sample_rules_def path_text_def sample_texts sample_tokens del: tokens.simps)
qed

lemma sample_added: "\<exists>rt. add_rules sample_rules (new_router (lit ''/'')) = (Inr (), rt)"
  by (simp add: sample_rules_def internal_add_rule_def sample_texts new_router_def add_def new_trie_def new_node_def
      trait_at_def param_traits_def piece_child_def param_child_def Let_def)

lemma sample_match: "tmatch num [Lit (CHR ''/''), Param TInt] ''/5''" "tvals num [Lit (CHR ''/''), Param TInt] ''/5'' = [PInt 5]"
  by (simp_all add: strtoi_def is_digit_def dec_value_def)

lemma sample_facts:
  "str_ok (rq_url sample_request)" "m_len (rq_url sample_request) = length (mem (rq_url sample_request))"
  "text_of (rq_url sample_request) = ''/5''" "rq_method sample_request = 1"
  "rl_enabled (snd (sample_rules ! 0))" "rl_methods (snd (sample_rules ! 0)) = 2" "rl_id (snd (sample_rules ! 0)) = 0"
  "rl_types (snd (sample_rules ! 0)) = [AInt]" "path_text (sample_rules ! 0) = ''/{int}''" "length sample_rules = 1"
  "rl_handler (snd (sample_rules ! 0)) = Some (\<lambda>req vs resp. Inr resp)"
  by (simp_all add: sample_request_def sample_texts sample_rules_def sample_rule_def set_tagged_handler_def new_rule_def path_text_def)

lemma sample_least: "least {x. \<exists>ts. (ts, x) \<in> table sample_rules \<and> tmatch num ts ''/5''} = 2"
proof -
  have "{x. \<exists>ts. (ts, x) \<in> table sample_rules \<and> tmatch num ts ''/5''} = {2}"
    unfolding sample_table(1) using sample_match(1) [of num] by auto
  then show ?thesis using least_in [of "{2}"] by simp
qed

theorem request_dispatch_witness:
  "\<exists>rt rt' params. add_rules sample_rules (new_router (lit ''/'')) = (Inr (), rt) \<and> validate_router rt = Inr rt' \<and>
     before (\<lambda>_. None) rt' sample_request =
       Inr \<lparr>rp_index = 2, rp_decoded = params, rp_enabled = Some True, rp_methods = 2, rp_route_id = 0\<rparr>"
proof -
  obtain rt where rt: "add_rules sample_rules (new_router (lit ''/'')) = (Inr (), rt)" using sample_added by blast
  from request_dispatch [OF sample_proper rt sample_facts(1,2), of "\<lambda>_. None"]
  show ?thesis unfolding sample_facts(3) sample_least Let_def using rt by (simp add: sample_facts)
qed

lemma sample_one:
  "{ts. (\<exists>vs. ts @ vs \<in> path_tokens sample_rules) \<and> tmatch num ts ''/5''} = {[Lit (CHR ''/''), Param TInt]}"
proof -
  have "ts = [Lit (CHR ''/''), Param TInt]" if "ts @ vs = [Lit (CHR ''/''), Param TInt]" "tmatch num ts ''/5''" for ts vs
    using that by (auto simp: append_eq_Cons_conv)
  then show ?thesis unfolding sample_table(2) using sample_match(1) [of num] by auto
qed

theorem dispatch_arguments_witness:
  "\<exists>rt rt' p. add_rules sample_rules (new_router (lit ''/'')) = (Inr (), rt) \<and> validate_router rt = Inr rt' \<and>
     before (\<lambda>_. None) rt' sample_request = Inr p \<and> handle rt' sample_request p new_response = Inr new_response"
proof -
  obtain rt where rt: "add_rules sample_rules (new_router (lit ''/'')) = (Inr (), rt)" using sample_added by blast
  have t: "tokens (path_text (sample_rules ! 0)) = [Lit (CHR ''/''), Param TInt]"
    unfolding sample_facts(9) by (rule sample_tokens)
  have one: "{ts. (\<exists>vs. ts @ vs \<in> path_tokens sample_rules) \<and> tmatch (\<lambda>_. None :: int option) ts (text_of (rq_url sample_request))} =
      {tokens (path_text (sample_rules ! 0))}" unfolding sample_facts(3) t by (rule sample_one)
  have tag: "get_parameter_tag (path_text (sample_rules ! 0)) = Inr 1"
    unfolding sample_facts(9) by (simp add: tag_digit_def is_equ_n_def)
  have args: "arguments 1 = Some (rl_types (snd (sample_rules ! 0)))"
    unfolding sample_facts(8) by (subst arguments.simps, simp, subst arguments.simps, simp)
  have n: "nparams (tokens (path_text (sample_rules ! 0))) \<le> 24" "0 < length sample_rules"
    unfolding t by (simp_all add: sample_facts)
  have bit: "rl_methods (snd (sample_rules ! 0)) AND push_bit (rq_method sample_request) 1 \<noteq> 0"
    by (simp add: sample_facts)
  from dispatch_arguments [OF sample_proper rt sample_facts(1,2) n(2,1) tag args sample_facts(5,11) bit one, of new_response]
  show ?thesis using rt by (simp del: Product_Type.split_paired_Ex) blast
qed

theorem dynamic_rule_types_witness:
  "\<exists>r'. set_dynamic_handler [Tagged AInt, Float_Arg] (\<lambda>req vs resp. Inr resp) (sample_rule ''/{int}'' []) = Inr r' \<and>
     call_args 0 0 0 0 (rl_types r') (params_of (tvals (\<lambda>_. None) [Lit (CHR ''/''), Param TInt] ''/5'')) = Inl IndexOutOfBounds"
proof -
  let ?r = "sample_rule ''/{int}'' []" and ?h = "\<lambda>req vs resp. Inr resp" and ?as = "[Tagged AInt, Float_Arg]"
  have r: "rl_rule ?r = lit ''/{int}''" by (simp add: sample_rule_def set_tagged_handler_def new_rule_def)
  have w: "whole (rl_rule ?r)" unfolding r by (intro lit_whole) simp_all
  have tag: "get_parameter_tag_runtime (mem (rl_rule ?r)) = Inr 1"
    unfolding r sample_texts by (simp add: tag_digit_def strncmp_eq_prefix)
  have t: "tokens (mem (rl_rule ?r)) = [Lit (CHR ''/''), Param TInt]" unfolding r sample_texts by (rule sample_tokens)
  have n: "nparams (tokens (mem (rl_rule ?r))) \<le> 24" unfolding t by simp
  note all = dynamic_rule_types [OF w tag n, of ?as ?h, unfolded t]
  then obtain r' where a: "set_dynamic_handler ?as ?h ?r = Inr r'" by auto
  have "call_args 0 0 0 0 (rl_types r') (params_of (tvals (\<lambda>_. None) [Lit (CHR ''/''), Param TInt] ''/5'')) = Inl IndexOutOfBounds"
    using conjunct2 [OF all, rule_format, OF conjI [OF a sample_match(1)]] unfolding Let_def by simp
  then show ?thesis using a by blast
qed

end
