(* ===== verification/Websock.thy ===== *)
theory Websock
  imports Http_Message Base64 Wire
begin

unbundle bit_operations_syntax

text \<open>
  Web sockets, \<open>libs/http/src/server/websock.cpp\<close>: the handshake, receiving and sending frames, the
  loop of a connection and the broadcast. What the peer sends is the list of bytes that arrive;
  \<open>Socket::receive\<close> takes as many as it is asked for or fails. Integers are copied to and from memory
  as the (little-endian) machine has them, which is what \<open>suil::rd\<close> and \<open>suil::wr\<close> do.
\<close>

section \<open>Frames\<close>

record ws_header =
  opcode :: nat
  rsv :: bool
  fin :: bool
  len7 :: nat
  masked :: bool
  payload_size :: nat
  v_mask :: bytes

text \<open>The bit fields of the first two bytes.\<close>

definition header_of :: "byte \<Rightarrow> byte \<Rightarrow> ws_header" where
  "header_of b0 b1 =
     \<lparr>opcode = unat (b0 AND 0x0F), rsv = bit b0 4 \<or> bit b0 5 \<or> bit b0 6, fin = bit b0 7,
      len7 = unat (b1 AND 0x7F), masked = bit b1 7, payload_size = 0, v_mask = [0, 0, 0, 0]\<rparr>"

definition receive :: "nat \<Rightarrow> bytes \<Rightarrow> (bytes \<times> bytes) option" where
  "receive n input = (if n \<le> length input then Some (take n input, drop n input) else None)"

definition op_cont :: nat where "op_cont = 0"
definition op_text :: nat where "op_text = 1"
definition op_binary :: nat where "op_binary = 2"
definition op_close :: nat where "op_close = 8"
definition op_ping :: nat where "op_ping = 9"
definition op_pong :: nat where "op_pong = 10"

lemmas op_defs = op_cont_def op_text_def op_binary_def op_close_def op_ping_def op_pong_def

text \<open>An extended length is read into a buffer whose first byte is the seven-bit length already
  read: one byte less is received than the length has.\<close>

definition receive_opcode :: "bytes \<Rightarrow> (ws_header \<times> bytes) option" where
  "receive_opcode input =
     (case receive 2 input of
        None \<Rightarrow> None
      | Some (u16, in1) \<Rightarrow>
          let h = header_of (u16 ! 0) (u16 ! 1) in
          if \<not> masked h then None
          else if rsv h then None
          else if \<not> (opcode h \<in> {op_cont, op_text, op_binary} \<or>
                      opcode h \<in> {op_close, op_ping, op_pong} \<and> \<not> (len7 h > 125 \<or> \<not> fin h)) then None
          else
            let extra = (if len7 h = 126 then 2 else if len7 h = 127 then 8 else 0 :: nat) in
            case (if extra \<noteq> 0 then
                    (case receive (extra - 1) in1 of
                       None \<Rightarrow> None
                     | Some (bs, in2) \<Rightarrow> Some (le_value (of_nat (len7 h) # bs), in2))
                  else Some (len7 h, in1)) of
              None \<Rightarrow> None
            | Some (n, in2) \<Rightarrow>
                (case receive 4 in2 of
                   None \<Rightarrow> None
                 | Some (vm, in3) \<Rightarrow> Some (h\<lparr>payload_size := n, v_mask := vm\<rparr>, in3)))"

definition unmask :: "bytes \<Rightarrow> bytes \<Rightarrow> bytes" where
  "unmask vm bs = map (\<lambda>i. bs ! i XOR vm ! (i mod 4)) [0..<length bs]"

text \<open>The payload is received into the memory that the reservation gave, whose size has 32 bits.\<close>

definition receive_frame :: "allocator \<Rightarrow> bytes \<Rightarrow> buffer \<Rightarrow> (ws_header \<times> buffer \<times> bytes) option result" where
  "receive_frame al input b =
     (case receive_opcode input of
        None \<Rightarrow> Inr None
      | Some (h, in1) \<Rightarrow>
          rbind (reserve al (payload_size h + 2) b) (\<lambda>b1.
          case receive (payload_size h) in1 of
            None \<Rightarrow> Inr None
          | Some (bs, in2) \<Rightarrow>
              rbind (poke (m_data b1) (m_offset b1) (unmask (v_mask h) bs)) (\<lambda>d.
              rbind (seek (int (payload_size h)) (b1\<lparr>m_data := d\<rparr>)) (\<lambda>b2.
              Inr (Some (h, b2, in2))))))"

text \<open>What \<open>send\<close> writes: the header, the extended length, the data.\<close>

definition payload_1 :: "nat \<Rightarrow> nat" where
  "payload_1 n = (if n > 125 then if n < 65535 then 126 else 127 else n)"

definition send_frame :: "nat \<Rightarrow> bytes \<Rightarrow> bytes" where
  "send_frame op data =
     (let n = length data; p1 = payload_1 n in
      [of_nat op AND 0x0F OR 0x80, of_nat p1 AND 0x7F] @
      (if p1 > 125 then if p1 = 126 then le_bytes 2 n else le_bytes 8 n else []) @ data)"

section \<open>Handshake\<close>

definition ws_server_response :: string where
  "ws_server_response = ''258EAFA5-E914-47DA-95CA-C5AB0DC85B11''"

text \<open>The key is answered with the Base64 text of itself and the constant.\<close>

definition handshake :: "string \<Rightarrow> string \<Rightarrow> response \<Rightarrow> nat \<times> response" where
  "handshake key version resp =
     (if key = [] then (400, resp)
      else if version \<noteq> ''13'' then (400, set_header ''Sec-WebSocket-Version'' ''13'' resp)
      else
        let encoded = string_of_bytes (enc_loop (bytes_of_string (key @ ws_server_response)));
            r1 = set_header ''Upgrade'' ''WebSocket'' resp;
            r2 = set_header ''Connection'' ''Upgrade'' r1;
            r3 = set_header ''Sec-WebSocket-Accept'' encoded r2
        in (101, end_upgrade r3))"

definition ws_handshake :: "string \<Rightarrow> string \<Rightarrow> response \<Rightarrow> response" where
  "ws_handshake key version resp = (let (s, r) = handshake key version resp in end_status s r)"

section \<open>The connection\<close>

text \<open>What a connection does: it calls the application's handlers and it sends. \<open>stops\<close> says for which
  message the application stops the session.\<close>

datatype ws_event = On_Message nat bytes | On_Close | Sent bytes | Not_Supported nat

type_synonym app = "nat \<Rightarrow> bytes \<Rightarrow> bool"

text \<open>The events of one frame, and whether the session ends. \<open>Pong\<close> and \<open>Cont\<close> end it and fall through
  to the message handler. The answer to a ping is \<open>send(b, WsOp::Pong)\<close> with the buffer \<open>b\<close>: of the
  overloads only \<open>send(const void*, size_t)\<close> takes a buffer, through its conversion to a pointer, so the
  opcode 10 is the number of bytes, which go out as a binary frame.\<close>

definition storage :: "buffer \<Rightarrow> bytes" where
  "storage b = (case m_data b of None \<Rightarrow> [] | Some d \<Rightarrow> d)"

definition send_buffer :: "buffer \<Rightarrow> nat \<Rightarrow> bytes result" where
  "send_buffer b n =
     (if n \<le> length (storage b) then Inr (send_frame op_binary (take n (storage b))) else Inl OutOfBoundsRead)"

definition handle_frame :: "app \<Rightarrow> nat \<Rightarrow> buffer \<Rightarrow> (ws_event list \<times> bool) result" where
  "handle_frame stops op b =
     (let data = contents b in
      if op = op_pong \<or> op = op_cont then Inr ([Not_Supported op, On_Message op data], True)
      else if op = op_text \<or> op = op_binary then Inr ([On_Message op data], stops op data)
      else if op = op_close then Inr ([On_Close], True)
      else if op = op_ping then rbind (send_buffer b op_pong) (\<lambda>out. Inr ([Sent out], False))
      else Inr ([], True))"

primrec handle_loop :: "nat \<Rightarrow> allocator \<Rightarrow> app \<Rightarrow> bytes \<Rightarrow> ws_event list result option" where
  "handle_loop 0 al stops input = None"
| "handle_loop (Suc f) al stops input =
     (case receive_frame al input empty_buffer of
        Inl e \<Rightarrow> Some (Inl e)
      | Inr None \<Rightarrow> Some (Inr [])
      | Inr (Some (h, b, rest)) \<Rightarrow>
          (case handle_frame stops (opcode h) b of
             Inl e \<Rightarrow> Some (Inl e)
           | Inr (evs, ends) \<Rightarrow>
               if ends then Some (Inr evs)
               else map_option (\<lambda>r. rbind r (\<lambda>evs'. Inr (evs @ evs'))) (handle_loop f al stops rest)))"

definition handle_socket :: "allocator \<Rightarrow> app \<Rightarrow> bytes \<Rightarrow> ws_event list result option" where
  "handle_socket al stops input = handle_loop (Suc (length input)) al stops input"

section \<open>Broadcast\<close>

record ws_api =
  web_socks :: "(string \<times> nat) list"
  total_socks :: nat

definition register_sock :: "string \<Rightarrow> nat \<Rightarrow> ws_api \<Rightarrow> ws_api" where
  "register_sock uuid ws api =
     api\<lparr>web_socks := (if uuid \<in> fst ` set (web_socks api) then web_socks api else web_socks api @ [(uuid, ws)]),
         total_socks := total_socks api + 1\<rparr>"

definition unregister_sock :: "string \<Rightarrow> ws_api \<Rightarrow> ws_api" where
  "unregister_sock uuid api =
     api\<lparr>web_socks := filter (\<lambda>(u, ws). u \<noteq> uuid) (web_socks api), total_socks := sub64 (total_socks api) 1\<rparr>"

text \<open>The header is set in a copy: the two bytes of the message keep what the memory had.\<close>

definition broadcast_frame :: "byte \<Rightarrow> byte \<Rightarrow> bytes \<Rightarrow> bytes" where
  "broadcast_frame j0 j1 data =
     (let n = length data; p1 = payload_1 n in
      [j0, j1] @ (if p1 > 125 then if p1 = 126 then le_bytes 2 n else le_bytes 8 n else []) @ data)"

definition broadcast_to :: "ws_api \<Rightarrow> nat \<Rightarrow> byte \<Rightarrow> byte \<Rightarrow> bytes \<Rightarrow> (nat \<times> bytes) list" where
  "broadcast_to api src j0 j1 data =
     (if total_socks api > 0 then
        map (\<lambda>(u, ws). (ws, broadcast_frame j0 j1 data)) (filter (\<lambda>(u, ws). ws \<noteq> src) (web_socks api))
      else [])"

text \<open>A partial send is followed by the whole message again; \<open>takes\<close> are the numbers of bytes that the
  socket accepts at each call, 0 a failure.\<close>

fun broadcast_send :: "nat list \<Rightarrow> bytes \<Rightarrow> nat \<Rightarrow> bytes \<times> bool" where
  "broadcast_send [] data sent = ([], False)"
| "broadcast_send (n # ns) data sent =
     (if n = 0 then ([], False)
      else
        let t = sent + n in
        if t < length data then (let (out, ok) = broadcast_send ns data t in (take n data @ out, ok))
        else (take n data, True))"

section \<open>A peer\<close>

text \<open>What a peer that keeps to the protocol sends for a message of at most 125 bytes: byte \<open>i\<close> of the
  payload is combined with byte \<open>i mod 4\<close> of the key.\<close>

definition masked_payload :: "bytes \<Rightarrow> bytes \<Rightarrow> bytes" where
  "masked_payload vm data = map (\<lambda>(i, b). b XOR vm ! (i mod 4)) (enumerate 0 data)"

definition client_frame :: "nat \<Rightarrow> bytes \<Rightarrow> bytes \<Rightarrow> bytes" where
  "client_frame op vm data = [of_nat op OR 0x80, of_nat (length data) OR 0x80] @ vm @ masked_payload vm data"

lemma masked_length [simp]: "length (masked_payload vm bs) = length bs"
  by (simp add: masked_payload_def)

lemma unmask_masked [simp]: "unmask vm (masked_payload vm bs) = bs"
  by (rule nth_equalityI) (simp_all add: unmask_def masked_payload_def nth_enumerate_eq xor.assoc)

definition peer_op :: "nat \<Rightarrow> bool" where
  "peer_op op \<longleftrightarrow> op \<in> {op_text, op_binary, op_close, op_ping}"

lemma header_byte0:
  assumes "peer_op op"
  shows "unat ((of_nat op OR 0x80 :: byte) AND 0x0F) = op" "\<not> bit (of_nat op OR 0x80 :: byte) 4" "\<not> bit (of_nat op OR 0x80 :: byte) 5"
    "\<not> bit (of_nat op OR 0x80 :: byte) 6" "bit (of_nat op OR 0x80 :: byte) 7"
  using assms by (auto simp: peer_op_def op_defs bit_simps)

lemma header_byte1:
  assumes "n < 128"
  shows "unat ((of_nat n OR 0x80 :: byte) AND 0x7F) = n" "bit (of_nat n OR 0x80 :: byte) 7"
proof -
  show "bit (of_nat n OR 0x80 :: byte) 7" by (simp add: bit_simps)
  have "((of_nat n OR 0x80 :: byte) AND 0x7F) = of_nat n AND 0x7F" by (simp add: bit.conj_disj_distrib2)
  also have "\<dots> = take_bit 7 (of_nat n)" by (simp add: take_bit_eq_mask mask_eq_exp_minus_1)
  also have "\<dots> = of_nat n" using assms by (simp add: take_bit_of_nat take_bit_nat_eq_self)
  finally show "unat ((of_nat n OR 0x80 :: byte) AND 0x7F) = n" using assms by (simp add: unat_of_nat)
qed

lemma peer_header:
  assumes "peer_op op" "n < 128"
  shows "header_of (of_nat op OR 0x80) (of_nat n OR 0x80) =
    \<lparr>opcode = op, rsv = False, fin = True, len7 = n, masked = True, payload_size = 0, v_mask = [0, 0, 0, 0]\<rparr>"
  using header_byte0 [OF assms(1)] header_byte1 [OF assms(2)] by (simp add: header_of_def)

lemma peer_accepted: "peer_op op \<Longrightarrow> op \<in> {op_cont, op_text, op_binary} \<or> op \<in> {op_close, op_ping, op_pong}"
  by (auto simp: peer_op_def)

lemma receive_small:
  assumes "peer_op op" "length data \<le> 125" "length vm = 4"
  shows "receive_opcode (client_frame op vm data @ rest) =
    Some (\<lparr>opcode = op, rsv = False, fin = True, len7 = length data, masked = True, payload_size = length data, v_mask = vm\<rparr>,
          masked_payload vm data @ rest)"
proof -
  have "length data < 128" using assms(2) by simp
  from peer_header [OF assms(1) this] assms peer_accepted [OF assms(1)] show ?thesis
    by (simp add: receive_opcode_def receive_def client_frame_def Let_def numeral_2_eq_2)
qed

lemma receive_frame_small:
  assumes "peer_op op" "length data \<le> 125" "length vm = 4" "\<forall>k < 2 ^ 32. can_alloc al k"
  shows "\<exists>h b. receive_frame al (client_frame op vm data @ rest) empty_buffer = Inr (Some (h, b, rest)) \<and>
    opcode h = op \<and> contents b = data \<and> (\<exists>x. storage b = data @ x) \<and> (length data \<le> 6 \<longrightarrow> length (storage b) = 9)"
proof -
  let ?n = "length data"
  have "buf_ok empty_buffer" "fits_u32 al empty_buffer (?n + 2)"
    using assms(2,4) by (simp_all add: buf_ok_def empty_buffer_def fits_u32_def)
  from reserve_ok [OF this] obtain b1 where b1: "reserve al (?n + 2) empty_buffer = Inr b1" "buf_ok b1"
      "?n + 2 \<le> capacity b1" "m_offset b1 = 0" by (auto simp: empty_buffer_def)
  then have size: "?n + 2 \<le> m_size b1" by (simp add: capacity_def buf_ok_def)
  then obtain d where d: "m_data b1 = Some d" "m_size b1 + 1 \<le> length d"
    using b1(2) by (auto simp: buf_ok_def split: option.splits)
  let ?d = "data @ drop ?n d"
  have poke: "poke (m_data b1) (m_offset b1) data = Inr (Some ?d)"
    using d size b1(4) by (cases "data = []") (simp_all add: poke_def)
  have n32: "?n < 2 ^ 32" using assms(2) by simp
  have seek: "seek (int ?n) (b1\<lparr>m_data := Some ?d\<rparr>) = Inr (b1\<lparr>m_data := Some ?d, m_offset := ?n\<rparr>)"
    using size b1(4) n32 by (simp add: seek_def bseek_def)
  have "length d = 9" if "?n \<le> 6"
  proof -
    have "u32 (?n + 2) = ?n + 2" using that by simp
    moreover have "?n + 2 + align8 (?n + 2) = 8" using that unfolding align8_def by presburger
    ultimately show ?thesis using b1(1) d(1) assms(4)
      by (auto simp: reserve_def grow_def empty_buffer_def reallocate_def Let_def)
  qed
  then have "length ?d = 9" if "?n \<le> 6" using that by simp
  then show ?thesis
    using receive_small [OF assms(1-3), of rest] b1(1) poke seek
    by (auto simp: receive_frame_def receive_def contents_def storage_def)
qed

section \<open>A conversation\<close>

type_synonym message = "nat \<times> bytes \<times> bytes"

fun frame_of :: "message \<Rightarrow> bytes" where
  "frame_of (op, vm, data) = client_frame op vm data"

fun event_of :: "message \<Rightarrow> ws_event" where
  "event_of (op, vm, data) = (if op = op_ping then Sent (send_frame op_binary (take 10 data)) else On_Message op data)"

definition well_formed :: "message \<Rightarrow> bool" where
  "well_formed m = (case m of (op, vm, data) \<Rightarrow> length vm = 4 \<and> length data \<le> 125)"

definition good_message :: "app \<Rightarrow> message \<Rightarrow> bool" where
  "good_message stops m = (well_formed m \<and> (case m of (op, vm, data) \<Rightarrow>
     op \<in> {op_text, op_binary} \<and> \<not> stops op data \<or> op = op_ping \<and> 10 \<le> length data))"

lemma frame_length: "length vm = 4 \<Longrightarrow> 6 \<le> length (client_frame op vm data)"
  by (simp add: client_frame_def)

lemma handle_close:
  assumes "length vm = 4" "length data \<le> 125" "\<forall>k < 2 ^ 32. can_alloc al k"
  shows "handle_loop (Suc f) al stops (client_frame op_close vm data @ rest) = Some (Inr [On_Close])"
proof -
  have "peer_op op_close" by (simp add: peer_op_def)
  from receive_frame_small [OF this assms(2,1,3), of rest] show ?thesis
    by (auto simp: handle_frame_def op_defs Let_def)
qed

lemma handle_short_ping:
  assumes "length vm = 4" "length data \<le> 6" "\<forall>k < 2 ^ 32. can_alloc al k"
  shows "handle_loop (Suc f) al stops (client_frame op_ping vm data @ rest) = Some (Inl OutOfBoundsRead)"
proof -
  have "peer_op op_ping" "length data \<le> 125" using assms(2) by (simp_all add: peer_op_def)
  from receive_frame_small [OF this assms(1,3), of rest] assms(2) show ?thesis
    by (auto simp: handle_frame_def op_defs Let_def send_buffer_def)
qed

lemma handle_message:
  assumes "good_message stops m" "\<forall>k < 2 ^ 32. can_alloc al k"
  shows "handle_loop (Suc f) al stops (frame_of m @ rest) =
    map_option (\<lambda>r. rbind r (\<lambda>evs. Inr (event_of m # evs))) (handle_loop f al stops rest)"
proof -
  obtain op vm data where m: "m = (op, vm, data)" by (cases m) auto
  have g: "op \<in> {op_text, op_binary} \<and> \<not> stops op data \<or> op = op_ping \<and> 10 \<le> length data" "length vm = 4" "length data \<le> 125"
    using assms(1) m by (simp_all add: good_message_def well_formed_def)
  have "peer_op op" using g(1) by (auto simp: peer_op_def)
  then obtain h b x where r: "receive_frame al (client_frame op vm data @ rest) empty_buffer = Inr (Some (h, b, rest))"
      "opcode h = op" "contents b = data" "storage b = data @ x"
    using receive_frame_small [OF _ g(3,2) assms(2), of op rest] by blast
  have "handle_frame stops op b = Inr ([event_of m], False)"
    using g(1) m r(3,4) by (auto simp: handle_frame_def op_defs send_buffer_def)
  then show ?thesis using r m by simp
qed

lemma rbind_Inr: "rbind r Inr = r"
  by (cases r) simp_all

lemma rbind_prepend: "rbind (rbind r (\<lambda>x. Inr (g x))) (\<lambda>x. Inr (f x)) = rbind r (\<lambda>x. Inr (f (g x)))"
  by (cases r) simp_all

lemma handle_messages:
  assumes "\<forall>m \<in> set ms. good_message stops m" "\<forall>k < 2 ^ 32. can_alloc al k" "length ms < f"
  shows "\<exists>f'. handle_loop f al stops (concat (map frame_of ms) @ rest) =
    map_option (\<lambda>r. rbind r (\<lambda>evs. Inr (map event_of ms @ evs))) (handle_loop (Suc f') al stops rest)"
  using assms(1,3)
proof (induction ms arbitrary: f)
  case Nil
  then obtain f' where "f = Suc f'" by (cases f) auto
  then show ?case by (intro exI [of _ f']) (simp add: rbind_Inr option.map_ident del: handle_loop.simps)
next
  case (Cons m ms)
  then obtain g where f: "f = Suc g" "length ms < g" by (cases f) auto
  then obtain f' where "handle_loop g al stops (concat (map frame_of ms) @ rest) =
      map_option (\<lambda>r. rbind r (\<lambda>evs. Inr (map event_of ms @ evs))) (handle_loop (Suc f') al stops rest)"
    using Cons.IH [of g] Cons.prems(1) by auto
  then show ?case using handle_message [OF _ assms(2), of stops m g] Cons.prems(1) f(1)
    by (intro exI [of _ f']) (simp add: option.map_comp comp_def rbind_prepend del: handle_loop.simps)
qed

lemma frames_length: "\<forall>m \<in> set ms. good_message stops m \<Longrightarrow> length ms \<le> length (concat (map frame_of ms))"
proof (induction ms)
  case (Cons m ms)
  obtain op vm data where m: "m = (op, vm, data)" by (cases m) auto
  then have "6 \<le> length (frame_of m)" using Cons.prems frame_length by (simp add: good_message_def well_formed_def)
  then show ?case using Cons by simp
qed simp

text \<open>C9: a conversation. A peer sends messages of at most 125 bytes, each under a key of its own: texts and
  binary messages at which the application (which has a message handler) does not end the session, and
  pings of at least ten bytes. When a close follows, the application has got each text and binary message,
  unmasked and in order, each ping has been answered with a binary frame (not a pong) of its first ten
  bytes, and the session has ended with the close, whatever is behind it. When a ping of at most six bytes
  follows, answering it reads behind the buffer.\<close>

theorem ws_conversation:
  assumes "\<forall>m \<in> set ms. good_message stops m" "\<forall>k < 2 ^ 32. can_alloc al k" "length vm = 4" "length data \<le> 125"
  shows "handle_socket al stops (concat (map frame_of ms) @ client_frame op_close vm data @ rest) =
      Some (Inr (map event_of ms @ [On_Close])) \<and>
    (length data \<le> 6 \<longrightarrow>
      handle_socket al stops (concat (map frame_of ms) @ client_frame op_ping vm data @ rest) = Some (Inl OutOfBoundsRead))"
proof -
  have f: "length ms < Suc (length (concat (map frame_of ms) @ x))" for x using frames_length [OF assms(1)] by simp
  obtain n where "handle_socket al stops (concat (map frame_of ms) @ client_frame op_close vm data @ rest) =
      map_option (\<lambda>r. rbind r (\<lambda>evs. Inr (map event_of ms @ evs))) (handle_loop (Suc n) al stops (client_frame op_close vm data @ rest))"
    unfolding handle_socket_def using handle_messages [OF assms(1,2) f] by blast
  moreover obtain k where "handle_socket al stops (concat (map frame_of ms) @ client_frame op_ping vm data @ rest) =
      map_option (\<lambda>r. rbind r (\<lambda>evs. Inr (map event_of ms @ evs))) (handle_loop (Suc k) al stops (client_frame op_ping vm data @ rest))"
    unfolding handle_socket_def using handle_messages [OF assms(1,2) f] by blast
  ultimately show ?thesis
    using handle_close [OF assms(3,4,2)] handle_short_ping [OF assms(3) _ assms(2)] by (simp del: handle_loop.simps)
qed

theorem ws_conversation_witness:
  "handle_socket \<lparr>can_alloc = (\<lambda>_. True), junk = 0\<rparr> (\<lambda>_ _. False)
     (frame_of (op_text, [1, 2, 3, 4], [104, 105]) @ frame_of (op_ping, [5, 6, 7, 8], [1, 2, 3, 4, 5, 6, 7, 8, 9, 10, 11]) @
      client_frame op_close [0, 0, 0, 0] [] @ [1, 2]) =
   Some (Inr [On_Message op_text [104, 105], Sent (send_frame op_binary [1, 2, 3, 4, 5, 6, 7, 8, 9, 10]), On_Close])"
  using ws_conversation [of "[(op_text, [1, 2, 3, 4], [104, 105]), (op_ping, [5, 6, 7, 8], [1, 2, 3, 4, 5, 6, 7, 8, 9, 10, 11])]" "\<lambda>_ _. False"
      "\<lparr>can_alloc = (\<lambda>_. True), junk = 0\<rparr>" "[0, 0, 0, 0]" "[]" "[1, 2]"]
  by (simp add: good_message_def well_formed_def op_defs)

lemma receive_extended:
  assumes "masked (header_of u0 u1)" "\<not> rsv (header_of u0 u1)" "opcode (header_of u0 u1) \<in> {op_cont, op_text, op_binary}"
    "len7 (header_of u0 u1) = 126"
  shows "receive_opcode (u0 # u1 # x # y # a # b # c # rest) =
    Some ((header_of u0 u1)\<lparr>payload_size := 126 + 256 * unat x, v_mask := [y, a, b, c]\<rparr>, rest)"
proof -
  have r: "receive 2 (u0 # u1 # x # y # a # b # c # rest) = Some ([u0, u1], x # y # a # b # c # rest)"
    "receive (Suc 0) (x # y # a # b # c # rest) = Some ([x], y # a # b # c # rest)"
    "receive 4 (y # a # b # c # rest) = Some ([y, a, b, c], rest)"
    by (simp_all add: receive_def)
  have "le_value (of_nat 126 # [x]) = 126 + 256 * unat x" by simp
  moreover have "[u0, u1] ! 1 = u1" by simp
  ultimately show ?thesis using assms unfolding receive_opcode_def r(1) option.case prod.case Let_def nth_Cons_0
    by (simp only:) (simp add: r(2,3) del: le_value.simps)
qed

text \<open>C37: longer messages. Of the two bytes in which the protocol has a length from 126 on, most significant first,
  the receiver takes the first as the upper byte of a length whose lower byte is the 126 before, and the
  second as the first byte of the key, and it takes the last byte of the key for the payload.\<close>

theorem ws_extended_length:
  assumes "peer_op op" "op \<noteq> op_close" "op \<noteq> op_ping" "126 \<le> n" "n < 65536" "length vm = 4"
  shows "\<exists>h. receive_opcode ([of_nat op OR 0x80, 126 OR 0x80, of_nat (n div 256), of_nat (n mod 256)] @ vm @ payload) =
      Some (h, drop 3 vm @ payload) \<and>
    payload_size h = 126 + 256 * (n div 256) \<and> v_mask h = of_nat (n mod 256) # take 3 vm"
proof -
  have op: "op \<in> {op_cont, op_text, op_binary}" using assms(1-3) by (auto simp: peer_op_def)
  have hd: "header_of (of_nat op OR 0x80) (126 OR 0x80) =
      \<lparr>opcode = op, rsv = False, fin = True, len7 = 126, masked = True, payload_size = 0, v_mask = [0, 0, 0, 0]\<rparr>"
    using peer_header [OF assms(1), of 126] by simp
  have x: "unat (of_nat (n div 256) :: byte) = n div 256" using assms(5) by (simp add: unat_of_nat)
  obtain a b c e where vm: "vm = [a, b, c, e]"
    using assms(6) by (auto simp: length_Suc_conv numeral_eq_Suc)
  have "receive_opcode ((of_nat op OR 0x80) # (126 OR 0x80) # of_nat (n div 256) # of_nat (n mod 256) # a # b # c # e # payload) =
      Some ((header_of (of_nat op OR 0x80) (126 OR 0x80))\<lparr>payload_size := 126 + 256 * (n div 256), v_mask := [of_nat (n mod 256), a, b, c]\<rparr>,
            e # payload)"
    using receive_extended [of "of_nat op OR 0x80" "126 OR 0x80" "of_nat (n div 256)" "of_nat (n mod 256)" a b c "e # payload"] hd op x
    by simp
  then show ?thesis unfolding vm by auto
qed

theorem ws_extended_length_witness:
  "\<exists>h. receive_opcode ([of_nat op_text OR 0x80, 126 OR 0x80, of_nat (200 div 256), of_nat (200 mod 256)] @ [1, 2, 3, 4] @ [42]) =
     Some (h, [4, 42]) \<and> payload_size h = 126 \<and> v_mask h = [200, 1, 2, 3]"
  using ws_extended_length [of op_text 200 "[1, 2, 3, 4]" "[42]"] by (simp add: peer_op_def op_defs)

end
