(* ===== verification/Mustache.thy ===== *)
theory Mustache
  imports Json_Object
begin

text \<open>
  Mustache templates, \<open>libs/base/src/mustache.cpp\<close> and \<open>mustache.hpp\<close>: the parser, which splits a
  template into fragments of text and the actions between them, the renderer and the cache of
  templates. A template is the text of the file; reading at its end reads the terminator, reading
  further is \<open>OutOfBoundsRead\<close>. What is rendered is the text appended to the output. The file system is
  a parameter: for a path, the modification time and the text of the file. Whether a number is an \<open>int\<close>
  and how \<open>printf\<close> writes numbers are parameters too.
\<close>

lemma rbind_cong [fundef_cong]:
  "m = m' \<Longrightarrow> (\<And>x. m' = Inr x \<Longrightarrow> f x = g x) \<Longrightarrow> rbind m f = rbind m' g"
  by (cases m') simp_all

section \<open>Templates\<close>

datatype action_type = Ignore | Tag | UnEscapeTag | OpenBlock | CloseBlock | ElseBlock | Partial

record action =
  a_tag :: action_type
  a_first :: nat
  a_last :: nat
  a_pos :: nat

definition mk_action :: "action_type \<Rightarrow> nat \<Rightarrow> nat \<Rightarrow> nat \<Rightarrow> action" where
  "mk_action t f l p = \<lparr>a_tag = t, a_first = f, a_last = l, a_pos = p\<rparr>"

type_synonym fragment = "nat \<times> nat"

record mustache =
  m_body :: string
  m_fragments :: "fragment list"
  m_actions :: "action list"

definition empty_mustache :: "string \<Rightarrow> mustache" where
  "empty_mustache body = \<lparr>m_body = body, m_fragments = [], m_actions = []\<rparr>"

definition frag_string :: "string \<Rightarrow> fragment \<Rightarrow> string" where
  "frag_string body f = (if snd f = fst f then [] else take (snd f - fst f) (drop (fst f) body))"

definition tag_string :: "string \<Rightarrow> action \<Rightarrow> string" where
  "tag_string body a = (if a_last a = a_first a then [] else take (a_last a - a_first a) (drop (a_first a) body))"

section \<open>Parsing\<close>

definition p_next :: "string \<Rightarrow> nat \<Rightarrow> (char \<times> nat) result" where
  "p_next body pos =
     (if pos < length body then Inr (body ! pos, pos + 1)
      else if pos = length body then Inr (NUL, pos + 1)
      else Inl OutOfBoundsRead)"

definition p_peek :: "string \<Rightarrow> nat \<Rightarrow> nat \<Rightarrow> char" where
  "p_peek body pos off = (if length body \<le> pos + off then NUL else body ! (pos + off))"

function eat_space :: "string \<Rightarrow> nat \<Rightarrow> nat" where
  "eat_space body pos = (if pos < length body \<and> is_space (body ! pos) then eat_space body (pos + 1) else pos)"
  by auto
termination by (relation "measure (\<lambda>(body, pos). length body - pos)") auto

text \<open>\<open>strchr\<close> finds the terminator too.\<close>

definition in_chars :: "string \<Rightarrow> char \<Rightarrow> bool" where
  "in_chars chs n \<longleftrightarrow> n \<in> set chs \<or> n = NUL"

function scan_name :: "string \<Rightarrow> string \<Rightarrow> nat \<Rightarrow> nat" where
  "scan_name chs body pos =
     (if pos < length body \<and> (is_alnum (p_peek body pos 0) \<or> in_chars chs (p_peek body pos 0))
      then scan_name chs body (pos + 1) else pos)"
  by auto
termination by (relation "measure (\<lambda>(chs, body, pos). length body - pos)") auto

declare eat_space.simps [simp del] scan_name.simps [simp del]

definition to_last_index :: "string \<Rightarrow> string \<Rightarrow> nat \<Rightarrow> (nat \<times> nat \<times> nat) result" where
  "to_last_index chs body pos =
     (let s = eat_space body pos in
      rbind (p_next body s) (\<lambda>(n, p1).
      if \<not> is_alpha n \<and> n \<noteq> CHR ''_'' then Inl MustacheParseError
      else
        let e = scan_name chs body p1 in
        rbind (p_next body (eat_space body e)) (\<lambda>(b1, p2).
        if b1 \<noteq> CHR ''}'' then Inl MustacheParseError
        else rbind (p_next body p2) (\<lambda>(b2, p3).
          if b2 \<noteq> CHR ''}'' then Inl MustacheParseError
          else if e = s then Inl MustacheParseError
          else Inr (s, e, p3)))))"

text \<open>The loop over a comment: both of the next two characters have to differ from a brace.\<close>

function skip_comment :: "string \<Rightarrow> nat \<Rightarrow> nat" where
  "skip_comment body pos =
     (if pos < length body \<and> p_peek body pos 0 \<noteq> CHR ''}'' \<and> p_peek body pos 1 \<noteq> CHR ''}''
      then skip_comment body (pos + 1) else pos)"
  by auto
termination by (relation "measure (\<lambda>(body, pos). length body - pos)") auto

declare skip_comment.simps [simp del]

text \<open>\<open>readTag\<close> from the position behind the two braces: the actions, the blocks still open (the
  innermost last) and the position behind the tag, where the next fragment begins.\<close>

definition read_tag :: "string \<Rightarrow> nat \<Rightarrow> action list \<Rightarrow> nat list \<Rightarrow> (action list \<times> nat list \<times> nat) result" where
  "read_tag body pos0 acts blocks =
     (let pos = eat_space body pos0; tok = p_peek body pos 0 in
      if tok = CHR ''#'' then
        rbind (to_last_index ''_'' body (pos + 1)) (\<lambda>(s, e, p).
          Inr (acts @ [mk_action OpenBlock s e 0], blocks @ [length acts], p))
      else if tok = CHR ''/'' then
        (if blocks = [] then Inl MustacheParseError
         else
           let openTag = tag_string body (acts ! last blocks) in
           rbind (to_last_index ''_'' body (pos + 1)) (\<lambda>(s, e, p).
             let act = mk_action CloseBlock s e (last blocks) in
             if openTag \<noteq> tag_string body act then Inl MustacheParseError
             else Inr (acts @ [act], butlast blocks, p)))
      else if tok = CHR ''^'' then
        rbind (to_last_index ''_'' body (pos + 1)) (\<lambda>(s, e, p).
          Inr (acts @ [mk_action ElseBlock s e 0], blocks @ [length acts], p))
      else if tok = CHR ''!'' then
        (let start = pos + 1 in
         rbind (p_next body (skip_comment body start)) (\<lambda>(c, p).
           if c \<noteq> CHR ''}'' \<and> p_peek body p 0 \<noteq> CHR ''}'' then Inl MustacheParseError
           else rbind (p_next body p) (\<lambda>(_, p1). rbind (p_next body p1) (\<lambda>(_, p2).
             Inr (acts @ [mk_action Ignore start p 0], blocks, p2)))))
      else if tok = CHR ''>'' then
        rbind (to_last_index ''/._'' body (pos + 1)) (\<lambda>(s, e, p).
          Inr (acts @ [mk_action Partial s e 0], blocks, p))
      else if tok = CHR ''{'' then
        rbind (to_last_index ''_'' body (pos + 1)) (\<lambda>(s, e, p).
          rbind (p_next body p) (\<lambda>(b, p1).
            if b \<noteq> CHR ''}'' then Inl MustacheParseError
            else Inr (acts @ [mk_action UnEscapeTag s e 0], blocks, p1)))
      else if tok = CHR ''&'' then
        rbind (to_last_index ''_'' body (pos + 1)) (\<lambda>(s, e, p).
          Inr (acts @ [mk_action UnEscapeTag s e 0], blocks, p))
      else if tok = CHR ''='' then Inl MustacheParseError
      else
        rbind (to_last_index ''_'' body pos) (\<lambda>(s, e, p).
          Inr (acts @ [mk_action Tag s e 0], blocks, p)))"

lemma p_next_pos: "p_next body pos = Inr (c, p) \<Longrightarrow> p = pos + 1 \<and> pos \<le> length body"
  by (auto simp: p_next_def split: if_splits)

lemma eat_space_ge: "pos \<le> eat_space body pos"
  by (induction body pos rule: eat_space.induct) (subst eat_space.simps, auto)

lemma scan_name_ge: "pos \<le> scan_name chs body pos"
  by (induction chs body pos rule: scan_name.induct) (subst scan_name.simps, auto)

lemma skip_comment_ge: "pos \<le> skip_comment body pos"
  by (induction body pos rule: skip_comment.induct) (subst skip_comment.simps, auto)

lemma eat_space_le: "pos \<le> length body \<Longrightarrow> eat_space body pos \<le> length body"
  by (induction body pos rule: eat_space.induct) (subst eat_space.simps, auto)

lemma scan_name_le: "pos \<le> length body \<Longrightarrow> scan_name chs body pos \<le> length body"
  by (induction chs body pos rule: scan_name.induct) (subst scan_name.simps, auto)

lemma skip_comment_le: "pos \<le> length body \<Longrightarrow> skip_comment body pos \<le> length body"
  by (induction body pos rule: skip_comment.induct) (subst skip_comment.simps, auto)

lemma to_last_index_pos:
  assumes "to_last_index chs body pos = Inr (s, e, p)"
  shows "pos \<le> s \<and> s < e \<and> e + 2 \<le> p \<and> p \<le> length body"
proof -
  define s' where "s' = eat_space body pos"
  from assms obtain n p1 where n: "p_next body s' = Inr (n, p1)" "is_alpha n \<or> n = CHR ''_''"
    by (auto simp: to_last_index_def Let_def rbind_Inr_iff s'_def split: if_splits)
  define e' where "e' = scan_name chs body p1"
  define f where "f = eat_space body e'"
  from assms n obtain p2 b2 where p: "p_next body f = Inr (CHR ''}'', p2)" "p_next body p2 = Inr (CHR ''}'', p)"
      and se: "s = s'" "e = e'"
    by (auto simp: to_last_index_def Let_def rbind_Inr_iff s'_def [symmetric] e'_def [symmetric] f_def [symmetric]
        split: if_splits)
  have "p \<le> length body" using p by (auto simp: p_next_def split: if_splits)
  moreover have "pos \<le> s'" "p1 \<le> e'" "e' \<le> f" unfolding s'_def e'_def f_def
    by (rule eat_space_ge scan_name_ge)+
  ultimately show ?thesis using se p_next_pos [OF n(1)] p_next_pos [OF p(1)] p_next_pos [OF p(2)] by simp
qed

lemma read_tag_pos:
  assumes "read_tag body pos acts blocks = Inr (acts', blocks', p)"
  shows "pos < p"
proof -
  define q where "q = eat_space body pos"
  have q: "pos \<le> q" unfolding q_def by (rule eat_space_ge)
  show ?thesis using assms q skip_comment_ge [of "Suc q" body] unfolding read_tag_def Let_def q_def [symmetric]
    by (auto simp: rbind_Inr_iff split: if_splits dest!: to_last_index_pos p_next_pos)
qed

text \<open>The loop of \<open>parse\<close>: position, start of the fragment, and what has been read.\<close>

function parse_loop :: "string \<Rightarrow> nat \<Rightarrow> nat \<Rightarrow> fragment list \<Rightarrow> action list \<Rightarrow> nat list \<Rightarrow>
    (nat \<times> nat \<times> fragment list \<times> action list \<times> nat list) result" where
  "parse_loop body pos frag frags acts blocks =
     (if pos < length body then
        rbind (p_next body pos) (\<lambda>(tok, pos1).
          if tok = CHR ''{'' \<and> p_peek body pos1 0 = CHR ''{'' then
            rbind (p_next body pos1) (\<lambda>(_, pos2).
            rbind (read_tag body pos2 acts blocks) (\<lambda>(acts', blocks', pos3).
              parse_loop body pos3 pos3 (frags @ [(frag, pos1 - 1)]) acts' blocks'))
          else parse_loop body pos1 frag frags acts blocks)
      else Inr (pos, frag, frags, acts, blocks))"
  by auto
termination
proof (relation "measure (\<lambda>(body, pos, _). length body - pos)")
  show "((body, pos3, pos3, frags @ [(frag, pos1 - 1)], acts', blocks'), body, pos, frag, frags, acts, blocks)
      \<in> measure (\<lambda>(body, pos, _). length body - pos)"
    if "pos < length body" "p_next body pos = Inr x" "(tok, pos1) = x" "p_next body pos1 = Inr y" "(c, pos2) = y"
      "read_tag body pos2 acts blocks = Inr z" "(acts', u) = z" "(blocks', pos3) = u"
    for body pos frag frags acts blocks x tok pos1 y c pos2 z acts' u blocks' pos3
    using that read_tag_pos [of body pos2 acts blocks acts' blocks' pos3]
      p_next_pos [of body pos tok pos1] p_next_pos [of body pos1 c pos2] by auto
  show "((body, pos1, frag, frags, acts, blocks), body, pos, frag, frags, acts, blocks)
      \<in> measure (\<lambda>(body, pos, _). length body - pos)"
    if "pos < length body" "p_next body pos = Inr x" "(tok, pos1) = x"
    for body pos frag frags acts blocks x tok pos1
    using that p_next_pos [of body pos tok pos1] by auto
qed auto

declare parse_loop.simps [simp del]

text \<open>An inverted section must not have tags: its action is followed by one that closes.\<close>

fun else_ok :: "action list \<Rightarrow> bool" where
  "else_ok (a # b # as) \<longleftrightarrow> (a_tag a = ElseBlock \<longrightarrow> a_tag b = CloseBlock) \<and> else_ok (b # as)"
| "else_ok _ \<longleftrightarrow> True"

definition parse :: "string \<Rightarrow> mustache result" where
  "parse body =
     (if body = [] then Inr (empty_mustache body)
      else
        rbind (parse_loop body 0 0 [] [] []) (\<lambda>(pos, frag, frags, acts, blocks).
          if blocks \<noteq> [] then Inl MustacheParseError
          else
            let frags' = (if pos \<noteq> frag then frags @ [(frag, pos)] else frags) in
            if \<not> else_ok acts then Inl MustacheParseError
            else Inr \<lparr>m_body = body, m_fragments = frags', m_actions = acts\<rparr>))"

section \<open>Rendering\<close>

definition escape_char :: "char \<Rightarrow> string" where
  "escape_char c =
     (if c = CHR ''&'' then ''&amp;''
      else if c = CHR ''<'' then ''&lt;''
      else if c = CHR ''>'' then ''&gt;''
      else if c = CHR 0x22 then ''&quot;''
      else if c = CHR 0x27 then ''&#39;''
      else if c = CHR ''/'' then ''&#x2f;''
      else [c])"

definition escape_html :: "string \<Rightarrow> string" where
  "escape_html s = concat (map escape_char s)"

text \<open>How a number is written: \<open>is_int d\<close> for \<open>d == (int) d\<close>, \<open>fmt_d\<close> and \<open>fmt_f\<close> for the two formats.\<close>

record 'd num_format =
  is_int :: "'d \<Rightarrow> bool"
  fmt_d :: "'d \<Rightarrow> string"
  fmt_f :: "'d \<Rightarrow> string"

definition render_fragment :: "mustache \<Rightarrow> nat \<Rightarrow> string result" where
  "render_fragment m index =
     (if index < length (m_fragments m) then Inr (frag_string (m_body m) (m_fragments m ! index))
      else Inl OutOfBoundsRead)"

text \<open>Two names are equal as \<open>String\<close>s.\<close>

definition same_name :: "string \<Rightarrow> string \<Rightarrow> bool" where
  "same_name a b \<longleftrightarrow>
     (if a = [] \<or> b = [] then a = [] \<and> b = []
      else length a = length b \<and> strncmp_eq a b (length a))"

definition value_text :: "'d num_format \<Rightarrow> bool \<Rightarrow> 'd obj \<Rightarrow> string result" where
  "value_text nf raw val =
     (case obj_type val of
        JSON_BOOL \<Rightarrow> Inr (if \<not> obj_empty val then ''true'' else ''false'')
      | JSON_NUMBER \<Rightarrow> rbind (obj_double val) (\<lambda>d. Inr (if \<not> is_int nf d then fmt_f nf d else fmt_d nf d))
      | JSON_STRING \<Rightarrow> rbind (obj_cstr val) (\<lambda>s. Inr (if raw then s else escape_html s))
      | _ \<Rightarrow> Inl MustacheParseError)"

text \<open>The loop that ignores a block: up to the first closing action of that name.\<close>

function skip_block :: "mustache \<Rightarrow> string \<Rightarrow> nat \<Rightarrow> nat" where
  "skip_block m name i =
     (if i < length (m_actions m) then
        if same_name (tag_string (m_body m) (m_actions m ! i)) name \<and> a_tag (m_actions m ! i) = CloseBlock then i
        else skip_block m name (i + 1)
      else i)"
  by auto
termination by (relation "measure (\<lambda>(m, name, i). length (m_actions m) - i)") auto

declare skip_block.simps [simp del]

text \<open>The children that the iterator gives.\<close>

definition obj_elements :: "'d obj \<Rightarrow> 'd obj list" where
  "obj_elements val = (case val of Some (JArray vs) \<Rightarrow> map Some vs | Some (JObject ms) \<Rightarrow> map (Some \<circ> snd) ms | _ \<Rightarrow> [])"

text \<open>The loop over the elements of an array, \<open>rec\<close> being \<open>renderInternal\<close> on one of them; \<open>'c\<close> is the
  state of the cache.\<close>

fun render_each :: "('d obj \<Rightarrow> 'c \<Rightarrow> (string \<times> nat \<times> 'c) result) \<Rightarrow> 'd obj list \<Rightarrow> nat \<Rightarrow> 'c \<Rightarrow> (string \<times> nat \<times> 'c) result" where
  "render_each rec [] i c = Inr ([], i, c)"
| "render_each rec (e # es) i c =
     rbind (rec e c) (\<lambda>(out, i1, c1).
     rbind (render_each rec es i1 c1) (\<lambda>(outs, i2, c2). Inr (out @ outs, i2, c2)))"

definition render_tag ::
  "(mustache \<Rightarrow> 'd obj \<Rightarrow> nat \<Rightarrow> string \<Rightarrow> 'c \<Rightarrow> (string \<times> nat \<times> 'c) result) \<Rightarrow>
   (string \<Rightarrow> 'c \<Rightarrow> (mustache \<times> 'c) result) \<Rightarrow> 'd num_format \<Rightarrow>
   mustache \<Rightarrow> action \<Rightarrow> 'd obj \<Rightarrow> nat \<Rightarrow> 'c \<Rightarrow> (string \<times> nat \<times> 'c) result" where
  "render_tag rec load nf m act ctx index c =
     (let name = tag_string (m_body m) act in
      case a_tag act of
        Ignore \<Rightarrow> Inr ([], index, c)
      | Partial \<Rightarrow>
          rbind (load name c) (\<lambda>(m', c1). rbind (rec m' ctx 0 [] c1) (\<lambda>(out, _, c2). Inr (out, index, c2)))
      | Tag \<Rightarrow>
          rbind (obj_get ctx name True) (\<lambda>val.
          rbind (value_text nf False val) (\<lambda>out. Inr (out, index, c)))
      | UnEscapeTag \<Rightarrow>
          rbind (obj_get ctx name True) (\<lambda>val.
          rbind (value_text nf True val) (\<lambda>out. Inr (out, index, c)))
      | ElseBlock \<Rightarrow>
          rbind (obj_get ctx name True) (\<lambda>val.
            if obj_empty val then rbind (render_fragment m (index + 1)) (\<lambda>out. Inr (out, index + 1, c))
            else Inr ([], index + 1, c))
      | OpenBlock \<Rightarrow>
          rbind (obj_get ctx name True) (\<lambda>val.
            if obj_empty val then Inr ([], skip_block m name index, c)
            else if is_array val then
              render_each (\<lambda>e c1. rec m e (index + 1) name c1) (obj_elements val) index c
            else rec m val index name c)
      | CloseBlock \<Rightarrow> Inr ([], index, c))"

text \<open>\<open>renderInternal\<close>. Templates can include each other without end: \<open>fuel\<close> bounds the depth of the
  recursion, which has the loop's iterations in it.\<close>

fun render_internal ::
  "nat \<Rightarrow> (string \<Rightarrow> 'c \<Rightarrow> (mustache \<times> 'c) result) \<Rightarrow> 'd num_format \<Rightarrow>
   mustache \<Rightarrow> 'd obj \<Rightarrow> nat \<Rightarrow> string \<Rightarrow> 'c \<Rightarrow> (string \<times> nat \<times> 'c) result" where
  "render_internal 0 load nf m ctx index stop c = Inl StackExhausted"
| "render_internal (Suc fuel) load nf m ctx index stop c =
     (if index < length (m_fragments m) then
        rbind (render_fragment m index) (\<lambda>text.
          if index < length (m_actions m) then
            let act = m_actions m ! index in
            if stop \<noteq> [] \<and> same_name (tag_string (m_body m) act) stop then Inr (text, index, c)
            else
              rbind (render_tag (render_internal fuel load nf) load nf m act ctx index c) (\<lambda>(out, index1, c1).
              rbind (render_internal fuel load nf m ctx (index1 + 1) stop c1) (\<lambda>(outs, index2, c2).
                Inr (text @ out @ outs, index2, c2)))
          else
            rbind (render_internal fuel load nf m ctx (index + 1) stop c) (\<lambda>(outs, index2, c2).
              Inr (text @ outs, index2, c2)))
      else Inr ([], index, c))"

definition render ::
  "nat \<Rightarrow> (string \<Rightarrow> 'c \<Rightarrow> (mustache \<times> 'c) result) \<Rightarrow> 'd num_format \<Rightarrow> mustache \<Rightarrow> 'd obj \<Rightarrow> 'c \<Rightarrow> (string \<times> 'c) result" where
  "render fuel load nf m ctx c = rbind (render_internal fuel load nf m ctx 0 [] c) (\<lambda>(out, _, c1). Inr (out, c1))"

section \<open>The cache\<close>

text \<open>A file has a modification time and a text. An entry keeps its path, the template and the time of
  the file it was made from; the time is set before the file is parsed, and moving an entry into the
  cache does not move it.\<close>

type_synonym file_system = "string \<Rightarrow> (int \<times> string) option"

record cache_entry =
  ce_path :: string
  ce_tmpl :: mustache
  ce_last_mod :: int

record cache =
  ca_root :: string
  ca_cached :: "string \<rightharpoonup> cache_entry"

definition new_cache :: "string \<Rightarrow> cache" where
  "new_cache root = \<lparr>ca_root = root, ca_cached = Map.empty\<rparr>"

definition setup_root :: "string \<Rightarrow> cache \<Rightarrow> cache" where
  "setup_root root c = c\<lparr>ca_root := root, ca_cached := Map.empty\<rparr>"

definition reload :: "file_system \<Rightarrow> cache_entry \<Rightarrow> mustache result \<times> cache_entry" where
  "reload fs e =
     (case fs (ce_path e) of
        None \<Rightarrow> (Inl MustacheParseError, e)
      | Some (mtime, text) \<Rightarrow>
          if mtime \<noteq> ce_last_mod e then
            (case parse text of
               Inl x \<Rightarrow> (Inl x, e\<lparr>ce_last_mod := mtime\<rparr>)
             | Inr m \<Rightarrow> (Inr m, e\<lparr>ce_last_mod := mtime, ce_tmpl := m\<rparr>))
          else (Inr (ce_tmpl e), e))"

definition move_entry :: "cache_entry \<Rightarrow> cache_entry" where
  "move_entry e = e\<lparr>ce_last_mod := 0\<rparr>"

definition cache_load :: "file_system \<Rightarrow> string \<Rightarrow> cache \<Rightarrow> mustache result \<times> cache" where
  "cache_load fs name c =
     (case ca_cached c name of
        Some e \<Rightarrow> (let (r, e1) = reload fs e in (r, c\<lparr>ca_cached := (ca_cached c)(name \<mapsto> e1)\<rparr>))
      | None \<Rightarrow>
          let (r, e1) = reload fs \<lparr>ce_path = ca_root c @ ''/'' @ name, ce_tmpl = empty_mustache [], ce_last_mod = 0\<rparr> in
          (case r of
             Inl x \<Rightarrow> (Inl x, c)
           | Inr _ \<Rightarrow> let (r2, e2) = reload fs (move_entry e1) in (r2, c\<lparr>ca_cached := (ca_cached c)(name \<mapsto> e2)\<rparr>)))"

text \<open>The loader of the renderer: an exception leaves the rendering.\<close>

definition loader :: "file_system \<Rightarrow> string \<Rightarrow> cache \<Rightarrow> (mustache \<times> cache) result" where
  "loader fs name c = (case cache_load fs name c of (Inl x, _) \<Rightarrow> Inl x | (Inr m, c1) \<Rightarrow> Inr (m, c1))"

end
