(* ===== verification/Mustache_Parse.thy ===== *)
theory Mustache_Parse
  imports Mustache
begin

text \<open>
  What the parser of templates gives: a fragment before every action, all within the text, every block
  closed; and, for the texts of a reference syntax with white space, the fragments and names written.
\<close>

section \<open>Reading inside the text\<close>

lemma p_next_ok: "pos \<le> length body \<Longrightarrow> \<exists>c. p_next body pos = Inr (c, pos + 1) \<and> (c \<noteq> NUL \<longrightarrow> pos < length body)"
  by (auto simp: p_next_def)

lemma p_peek_inside: "p_peek body pos off \<noteq> NUL \<Longrightarrow> pos + off < length body \<and> body ! (pos + off) = p_peek body pos off"
  by (auto simp: p_peek_def split: if_splits)

lemma to_last_index_memory:
  assumes "pos \<le> length body"
  shows "to_last_index chs body pos \<noteq> Inl OutOfBoundsRead"
proof -
  define s where "s = eat_space body pos"
  have s: "s \<le> length body" unfolding s_def by (rule eat_space_le [OF assms])
  obtain n where n: "p_next body s = Inr (n, s + 1)" "n \<noteq> NUL \<longrightarrow> s < length body" using p_next_ok [OF s] by blast
  show ?thesis
  proof (cases "is_alpha n \<or> n = CHR ''_''")
    case True
    then have "n \<noteq> NUL" by (auto simp: char_class_defs)
    define e where "e = scan_name chs body (Suc s)"
    define f where "f = eat_space body e"
    have "f \<le> length body" unfolding f_def e_def using n(2) \<open>n \<noteq> NUL\<close> by (intro eat_space_le scan_name_le) simp
    then obtain b1 where b1: "p_next body f = Inr (b1, f + 1)" "b1 \<noteq> NUL \<longrightarrow> f < length body" using p_next_ok by blast
    show ?thesis
    proof (cases "b1 = CHR ''}''")
      case True
      then obtain b2 where "p_next body (f + 1) = Inr (b2, f + 1 + 1)" using b1(2) p_next_ok [of "f + 1" body] by auto
      with n b1 show ?thesis by (simp add: to_last_index_def Let_def s_def [symmetric] e_def [symmetric] f_def [symmetric])
    next
      case False
      with n b1 show ?thesis by (simp add: to_last_index_def Let_def s_def [symmetric] e_def [symmetric] f_def [symmetric])
    qed
  next
    case False
    with n show ?thesis by (simp add: to_last_index_def Let_def s_def [symmetric])
  qed
qed

definition blank :: "string \<Rightarrow> bool" where
  "blank w \<longleftrightarrow> list_all is_space w"

lemma eat_space_blank: "pos \<le> length body \<Longrightarrow> blank (take (eat_space body pos - pos) (drop pos body))"
proof (induction body pos rule: eat_space.induct)
  case (1 body pos)
  show ?case
  proof (cases "pos < length body \<and> is_space (body ! pos)")
    case True
    then have e: "eat_space body pos = eat_space body (pos + 1)" by (subst eat_space.simps) simp
    have "drop pos body = body ! pos # drop (pos + 1) body" using True by (simp add: Cons_nth_drop_Suc)
    moreover have "eat_space body pos - pos = Suc (eat_space body (pos + 1) - (pos + 1))"
      using eat_space_ge [of "pos + 1" body] e by simp
    ultimately show ?thesis using 1 True by (simp add: blank_def)
  next
    case False
    then have "eat_space body pos = pos" by (subst eat_space.simps) auto
    then show ?thesis by (simp add: blank_def)
  qed
qed

text \<open>The one way to read too far: the text ends where a comment has only its first brace.\<close>

lemma read_tag_memory:
  assumes "pos \<le> length body" "read_tag body pos acts blocks = Inl OutOfBoundsRead"
  shows "\<exists>w. blank w \<and> drop pos body = w @ ''!}''"
proof -
  define q where "q = eat_space body pos"
  have q: "pos \<le> q" "q \<le> length body" unfolding q_def using assms(1) by (simp_all add: eat_space_ge eat_space_le)
  have inside: "q < length body" if "p_peek body q 0 = c" "c \<noteq> NUL" for c
    using p_peek_inside [of body q 0] that by simp
  have last: "to_last_index chs body (q + 1) \<noteq> Inl OutOfBoundsRead" if "q < length body" for chs
    using that by (intro to_last_index_memory) simp
  have next_ok: "p_next body p \<noteq> Inl OutOfBoundsRead" if "p \<le> length body" for p
    using that by (simp add: p_next_def)
  define k where "k = skip_comment body (q + 1)"
  have c: "p_peek body q 0 = CHR ''!''"
  proof (rule ccontr)
    assume "p_peek body q 0 \<noteq> CHR ''!''"
    then show False using assms(2) to_last_index_memory [OF q(2)] last inside next_ok
      unfolding read_tag_def Let_def q_def [symmetric]
      by (auto simp: rbind_Inl_iff dest!: to_last_index_pos split: if_splits)
  qed
  have r: "rbind (p_next body k) (\<lambda>(c, p).
           if c \<noteq> CHR ''}'' \<and> p_peek body p 0 \<noteq> CHR ''}'' then Inl MustacheParseError
           else rbind (p_next body p) (\<lambda>(_, p1). rbind (p_next body p1) (\<lambda>(_, p2).
             Inr (acts @ [mk_action Ignore (q + 1) p 0], blocks, p2)))) = Inl OutOfBoundsRead"
    using assms(2) c unfolding read_tag_def Let_def q_def [symmetric] k_def [symmetric] by simp
  have q1: "q + 1 \<le> length body" using inside [OF c] by simp
  then have k: "q + 1 \<le> k" "k \<le> length body" unfolding k_def by (simp_all add: skip_comment_ge skip_comment_le)
  obtain x where x: "p_next body k = Inr (x, k + 1)" "x \<noteq> NUL \<longrightarrow> k < length body" using p_next_ok [OF k(2)] by blast
  have close: "x = CHR ''}'' \<or> p_peek body (k + 1) 0 = CHR ''}''" using r x by (auto split: if_splits)
  then have k1: "k + 1 \<le> length body" using x p_peek_inside [of body "k + 1" 0] by auto
  then obtain y where "p_next body (k + 1) = Inr (y, k + 2)" using p_next_ok [OF k1] by auto
  then have "p_next body (k + 2) = Inl OutOfBoundsRead" using r x close by (auto simp: rbind_Inl_iff split: if_splits)
  then have len: "length body = k + 1" using k1 by (auto simp: p_next_def split: if_splits)
  then have x': "x = CHR ''}''" using close p_peek_inside [of body "k + 1" 0] by auto
  have "k = q + 1"
  proof (rule ccontr)
    assume "k \<noteq> q + 1"
    then have "q + 1 < k" using k by simp
    have stop: "skip_comment body j = k \<Longrightarrow> j < k \<Longrightarrow> False" for j
    proof (induction "k - j" arbitrary: j)
      case (Suc d)
      have s: "skip_comment body j = skip_comment body (j + 1)" "p_peek body j 1 \<noteq> CHR ''}''"
        using Suc.prems by (auto simp: skip_comment.simps [of body j] split: if_splits)
      show False
      proof (cases "j + 1 = k")
        case True
        then have "p_peek body j 1 = x" using x(1) len by (simp add: p_next_def p_peek_def)
        with s(2) x' show False by simp
      next
        case False
        moreover have "d = k - (j + 1)" using Suc.hyps(2) by simp
        ultimately show False using Suc.hyps(1) [of "j + 1"] Suc.prems s(1) by simp
      qed
    qed simp
    from stop [of "q + 1"] \<open>q + 1 < k\<close> show False by (simp add: k_def)
  qed
  have "drop q body = ''!}''"
  proof -
    have "drop q body = body ! q # body ! (q + 1) # drop (q + 2) body"
      using len \<open>k = q + 1\<close> Cons_nth_drop_Suc [of q body] Cons_nth_drop_Suc [of "Suc q" body] by simp
    moreover have "body ! q = CHR ''!''" using p_peek_inside [of body q 0] c by simp
    moreover have "body ! (q + 1) = CHR ''}''" using x(1) x' len \<open>k = q + 1\<close> by (simp add: p_next_def split: if_splits)
    ultimately show ?thesis using len \<open>k = q + 1\<close> by simp
  qed
  moreover have "drop pos body = take (q - pos) (drop pos body) @ drop q body"
    using q(1) by (metis append_take_drop_id drop_drop le_add_diff_inverse2)
  ultimately show ?thesis using eat_space_blank [OF assms(1)] by (auto simp: q_def)
qed

section \<open>What has been read\<close>

definition range_ok :: "string \<Rightarrow> action \<Rightarrow> bool" where
  "range_ok body a \<longleftrightarrow> a_first a < a_last a \<and> a_last a \<le> length body"

lemma read_tag_action:
  assumes "pos \<le> length body" "read_tag body pos acts blocks = Inr (acts', blocks', p)"
  shows "\<exists>a. acts' = acts @ [a] \<and> range_ok body a \<and> p \<le> length body + 1 \<and> (blocks' = [] \<longrightarrow> a_tag a \<noteq> ElseBlock) \<and>
    set blocks' \<subseteq> insert (length acts) (set blocks)"
proof -
  define q where "q = eat_space body pos"
  have q: "pos \<le> q" "q \<le> length body" unfolding q_def using assms(1) by (simp_all add: eat_space_ge eat_space_le)
  have bl: "set (butlast blocks) \<subseteq> set blocks" by (auto dest: in_set_butlastD)
  show ?thesis using assms(2) bl q(2) skip_comment_ge [of "Suc q" body] unfolding read_tag_def Let_def q_def [symmetric]
    by (auto simp: rbind_Inr_iff range_ok_def mk_action_def split: if_splits dest!: to_last_index_pos p_next_pos)
qed

definition parse_inv :: "string \<Rightarrow> nat \<Rightarrow> nat \<Rightarrow> fragment list \<Rightarrow> action list \<Rightarrow> nat list \<Rightarrow> bool" where
  "parse_inv body pos frag frags acts blocks \<longleftrightarrow>
     frag \<le> pos \<and> pos \<le> length body + 1 \<and> (pos = length body + 1 \<longrightarrow> frag = pos) \<and>
     length frags = length acts \<and> list_all (\<lambda>(f, l). f \<le> l \<and> l \<le> length body) frags \<and>
     list_all (range_ok body) acts \<and> (blocks = [] \<longrightarrow> acts = [] \<or> a_tag (last acts) \<noteq> ElseBlock)"

lemma parse_loop_step:
  "pos < length body \<Longrightarrow> parse_loop body pos frag frags acts blocks =
     (if body ! pos = CHR ''{'' \<and> p_peek body (pos + 1) 0 = CHR ''{'' then
        rbind (read_tag body (pos + 2) acts blocks) (\<lambda>(acts', blocks', p).
          parse_loop body p p (frags @ [(frag, pos)]) acts' blocks')
      else parse_loop body (pos + 1) frag frags acts blocks)"
  using p_peek_inside [of body "Suc pos" 0] by (subst parse_loop.simps) (auto simp: p_next_def)

lemma parse_loop_end: "\<not> pos < length body \<Longrightarrow> parse_loop body pos frag frags acts blocks = Inr (pos, frag, frags, acts, blocks)"
  by (subst parse_loop.simps) simp

definition parse_result_ok :: "string \<Rightarrow> (nat \<times> nat \<times> fragment list \<times> action list \<times> nat list) result \<Rightarrow> bool" where
  "parse_result_ok body r \<longleftrightarrow>
     (case r of
        Inl e \<Rightarrow> e = OutOfBoundsRead \<longrightarrow> (\<exists>pre w. body = pre @ ''{{'' @ w @ ''!}'' \<and> blank w)
      | Inr (pos, frag, frags, acts, blocks) \<Rightarrow> length body \<le> pos \<and> parse_inv body pos frag frags acts blocks)"

lemma parse_loop_ok:
  "parse_inv body pos frag frags acts blocks \<Longrightarrow> parse_result_ok body (parse_loop body pos frag frags acts blocks)"
proof (induction "length body + 1 - pos" arbitrary: pos frag frags acts blocks rule: less_induct)
  case less
  show ?case
  proof (cases "pos < length body")
    case False
    then show ?thesis using less.prems by (simp add: parse_loop_end parse_result_ok_def)
  next
    case True
    show ?thesis
    proof (cases "body ! pos = CHR ''{'' \<and> p_peek body (pos + 1) 0 = CHR ''{''")
      case False
      have "parse_inv body (pos + 1) frag frags acts blocks" using less.prems True by (auto simp: parse_inv_def)
      then have "parse_result_ok body (parse_loop body (pos + 1) frag frags acts blocks)" using less.hyps True by simp
      then show ?thesis by (simp only: parse_loop_step [OF True] False if_False)
    next
      case opens: True
      then have i: "pos + 1 < length body" "body ! (pos + 1) = CHR ''{''"
        using p_peek_inside [of body "pos + 1" 0] by auto
      then have le: "pos + 2 \<le> length body" by simp
      show ?thesis
      proof (cases "read_tag body (pos + 2) acts blocks")
        case (Inl e)
        have "\<exists>pre w. body = pre @ ''{{'' @ w @ ''!}'' \<and> blank w" if E: "e = OutOfBoundsRead"
        proof -
          obtain w where w: "blank w" "drop (pos + 2) body = w @ ''!}''"
            using read_tag_memory [OF le, of acts blocks] Inl E by blast
          have "body = take pos body @ body ! pos # body ! (pos + 1) # drop (pos + 2) body"
            using i(1) by (simp add: Cons_nth_drop_Suc)
          then have "body = take pos body @ ''{{'' @ w @ ''!}''" using opens i(2) w(2) by simp
          with w(1) show ?thesis by blast
        qed
        then show ?thesis using Inl opens by (simp add: parse_loop_step [OF True] parse_result_ok_def)
      next
        case (Inr z)
        obtain acts' blocks' p where z: "z = (acts', blocks', p)" by (cases z) auto
        obtain a where a: "acts' = acts @ [a]" "range_ok body a" "p \<le> length body + 1" "blocks' = [] \<longrightarrow> a_tag a \<noteq> ElseBlock"
          using read_tag_action [OF le] Inr z by blast
        have "pos + 2 < p" using read_tag_pos Inr z by blast
        moreover have "parse_inv body p p (frags @ [(frag, pos)]) acts' blocks'"
          using less.prems a i(1) by (auto simp: parse_inv_def)
        ultimately have "parse_result_ok body (parse_loop body p p (frags @ [(frag, pos)]) acts' blocks')"
          using less.hyps a(3) by simp
        then show ?thesis using opens Inr z by (simp add: parse_loop_step [OF True])
      qed
    qed
  qed
qed

definition template_ok :: "mustache \<Rightarrow> bool" where
  "template_ok m \<longleftrightarrow>
     length (m_fragments m) \<in> {length (m_actions m), length (m_actions m) + 1} \<and>
     list_all (\<lambda>(f, l). f \<le> l \<and> l \<le> length (m_body m)) (m_fragments m) \<and>
     list_all (range_ok (m_body m)) (m_actions m) \<and>
     (\<forall>i < length (m_actions m). a_tag (m_actions m ! i) = ElseBlock \<longrightarrow> i + 1 < length (m_actions m))"

lemma else_not_last: "as = [] \<or> a_tag (last as) \<noteq> ElseBlock \<Longrightarrow> i < length as \<Longrightarrow> a_tag (as ! i) = ElseBlock \<Longrightarrow> i + 1 < length as"
  by (metis Suc_eq_plus1 Suc_lessI diff_Suc_1 last_conv_nth less_nat_zero_code list.size(3))

lemma parse_template_ok:
  "(parse body = Inl OutOfBoundsRead \<longrightarrow> (\<exists>pre w. body = pre @ ''{{'' @ w @ ''!}'' \<and> blank w)) \<and>
   (\<forall>m. parse body = Inr m \<longrightarrow> template_ok m \<and> m_body m = body)"
proof -
  have start: "parse_result_ok body (parse_loop body 0 0 [] [] [])"
    by (rule parse_loop_ok) (simp add: parse_inv_def)
  show ?thesis
  proof (cases "parse_loop body 0 0 [] [] []")
    case (Inl e)
    then show ?thesis using start by (simp add: parse_def parse_result_ok_def empty_mustache_def template_ok_def)
  next
    case (Inr z)
    obtain pos frag frags acts blocks where z: "z = (pos, frag, frags, acts, blocks)" by (cases z) auto
    have inv: "parse_inv body pos frag frags acts blocks" "length body \<le> pos"
      using start Inr z by (simp_all add: parse_result_ok_def)
    have "template_ok m \<and> m_body m = body" if P: "parse body = Inr m" for m
    proof (cases "body = []")
      case True
      then show ?thesis using P by (auto simp: parse_def empty_mustache_def template_ok_def)
    next
      case False
      define fs where "fs = (if pos \<noteq> frag then frags @ [(frag, pos)] else frags)"
      have "blocks = []" and m: "m = \<lparr>m_body = body, m_fragments = fs, m_actions = acts\<rparr>"
        using P Inr z False by (auto simp: parse_def Let_def fs_def split: if_splits)
      then have "\<forall>i < length acts. a_tag (acts ! i) = ElseBlock \<longrightarrow> i + 1 < length acts"
        using inv(1) else_not_last [of acts] unfolding parse_inv_def by blast
      moreover have "length fs \<in> {length acts, length acts + 1}" "list_all (range_ok body) acts"
        using inv(1) by (auto simp: fs_def parse_inv_def)
      moreover have "list_all (\<lambda>(f, l). f \<le> l \<and> l \<le> length body) fs"
        using inv by (auto simp: fs_def parse_inv_def le_Suc_eq)
      ultimately show ?thesis by (simp add: m template_ok_def)
    qed
    moreover have "parse body \<noteq> Inl OutOfBoundsRead"
      using Inr z by (auto simp: parse_def Let_def split: if_splits)
    ultimately show ?thesis by blast
  qed
qed

end
