(* ===== verification/Mustache_Render.thy ===== *)
theory Mustache_Render
  imports Mustache_Parse
begin

text \<open>
  What the renderer of templates does: it ends inside the template, and on the templates of a reference
  syntax it writes what the reference semantics of the template's structure says.
\<close>

section \<open>Rendering ends inside the template\<close>

lemma strncmp_eq_refl: "strncmp_eq a a n"
  by (induction n arbitrary: a) auto

lemma same_name_refl [simp]: "same_name a a"
  by (simp add: same_name_def strncmp_eq_refl)

lemma skip_block_ge: "i \<le> skip_block m name i"
  by (induction m name i rule: skip_block.induct) (subst skip_block.simps, auto)

definition sound :: "nat \<Rightarrow> (string \<times> nat \<times> 'c) result \<Rightarrow> bool" where
  "sound index r \<longleftrightarrow>
     (case r of Inl e \<Rightarrow> e \<notin> {OutOfBoundsRead, StackExhausted} | Inr (_, j, _) \<Rightarrow> index \<le> j)"

lemma sound_simps [simp]:
  "sound index (Inr (out, j, c)) \<longleftrightarrow> index \<le> j"
  "sound index (Inl e) \<longleftrightarrow> e \<notin> {OutOfBoundsRead, StackExhausted}"
  by (simp_all add: sound_def)

lemma obj_get_errors: "obj_get ctx key t = Inl e \<Longrightarrow> e = UnsupportedOperation"
  by (auto simp: obj_get_def split: if_splits)

lemma value_text_errors: "value_text nf raw val = Inl e \<Longrightarrow> e \<in> {UnsupportedOperation, MustacheParseError}"
  by (auto simp: value_text_def obj_double_def obj_cstr_def rbind_Inl_iff split: Tag.splits option.splits json.splits)

lemma render_each_sound:
  "(\<And>e c. e \<in> set es \<Longrightarrow> sound i (rec e c)) \<Longrightarrow> i \<le> j \<Longrightarrow> sound i (render_each rec es j c)"
proof (induction es arbitrary: j c)
  case (Cons e es)
  have h: "sound i (rec e c)" by (rule Cons.prems) simp
  show ?case
  proof (cases "rec e c")
    case (Inr z)
    obtain out k c1 where z: "z = (out, k, c1)" by (cases z) auto
    then have "sound i (render_each rec es k c1)" using h Inr Cons.IH [of k c1] Cons.prems by simp
    then show ?thesis using Inr z by (cases "render_each rec es k c1") (auto simp: sound_def)
  qed (use h in simp)
qed simp

definition no_partial :: "mustache \<Rightarrow> bool" where
  "no_partial m \<longleftrightarrow> list_all (\<lambda>a. a_tag a \<noteq> Partial) (m_actions m)"

lemma template_name:
  assumes "template_ok m" "i < length (m_actions m)"
  shows "tag_string (m_body m) (m_actions m ! i) \<noteq> []"
  using assms by (auto simp: template_ok_def list_all_length range_ok_def tag_string_def)

lemma render_fragment_ok: "i < length (m_fragments m) \<Longrightarrow> \<exists>t. render_fragment m i = Inr t"
  by (simp add: render_fragment_def)

lemma render_internal_stops:
  assumes "template_ok m" "i < length (m_actions m)"
  shows "\<exists>t. render_internal (Suc f) load nf m ctx i (tag_string (m_body m) (m_actions m ! i)) c = Inr (t, i, c)"
proof -
  have "i < length (m_fragments m)" using assms by (auto simp: template_ok_def)
  then show ?thesis using assms template_name [OF assms] by (auto simp: render_fragment_def)
qed

lemma render_tag_sound:
  assumes m: "template_ok m" "no_partial m" and i: "i < length (m_actions m)" and f: "0 < f"
    and rec: "\<And>e stop c. sound (i + 1) (render_internal f load nf m e (i + 1) stop c)"
  shows "sound i (render_tag (render_internal f load nf) load nf m (m_actions m ! i) ctx i c)"
proof -
  let ?name = "tag_string (m_body m) (m_actions m ! i)"
  have p: "a_tag (m_actions m ! i) \<noteq> Partial" using m(2) i by (simp add: no_partial_def list_all_length)
  obtain f' where f': "f = Suc f'" using f by (cases f) auto
  have scalar: "sound i (render_internal f load nf m val i ?name c)" for val
    using render_internal_stops [OF m(1) i, of f' load nf val c] f' by auto
  have "sound i (render_internal f load nf m e (i + 1) ?name c1)" for e c1
    using rec [of e ?name c1] by (auto simp: sound_def split: sum.splits)
  then have each: "sound i (render_each (\<lambda>e c1. render_internal f load nf m e (i + 1) ?name c1) es i c)" for es
    by (rule render_each_sound) simp
  have else_i: "\<exists>t. render_fragment m (i + 1) = Inr t" if "a_tag (m_actions m ! i) = ElseBlock"
    using m(1) i that by (intro render_fragment_ok) (auto simp: template_ok_def)
  show ?thesis
  proof (cases "obj_get ctx ?name True")
    case (Inl e)
    then show ?thesis using obj_get_errors [OF Inl] p
      by (auto simp: render_tag_def Let_def split: action_type.splits)
  next
    case (Inr val)
    have v: "sound i (rbind (value_text nf raw val) (\<lambda>out. Inr (out, i, c)))" for raw
      using value_text_errors [of nf raw val] by (cases "value_text nf raw val") auto
    show ?thesis
    proof (cases "a_tag (m_actions m ! i) = OpenBlock")
      case True
      then show ?thesis using Inr scalar each skip_block_ge by (simp add: render_tag_def Let_def)
    next
      case False
      then show ?thesis using Inr p v else_i by (auto simp: render_tag_def Let_def split: action_type.splits)
    qed
  qed
qed

lemma render_internal_sound:
  assumes m: "template_ok m" "no_partial m"
  shows "length (m_fragments m) + 2 \<le> f + i \<Longrightarrow> 0 < f \<Longrightarrow> sound i (render_internal f load nf m ctx i stop c)"
proof (induction f arbitrary: i ctx stop c)
  case (Suc f)
  show ?case
  proof (cases "i < length (m_fragments m)")
    case True
    then obtain t where t: "render_fragment m i = Inr t" using render_fragment_ok by blast
    have f: "0 < f" using True Suc.prems by simp
    have rec: "sound j (render_internal f load nf m e j s c1)" if "i < j" for e j s c1
      using that Suc.prems f by (intro Suc.IH) auto
    have later: "sound i (rbind (render_internal f load nf m ctx (j + 1) stop c1) (\<lambda>(outs, j2, c2). Inr (g outs, j2, c2)))"
      if "i \<le> j" for j c1 g
      using rec [of "j + 1" ctx stop c1] that
      by (cases "render_internal f load nf m ctx (j + 1) stop c1") (auto simp: sound_def)
    show ?thesis
    proof (cases "i < length (m_actions m)")
      case acts: True
      have tag: "sound i (render_tag (render_internal f load nf) load nf m (m_actions m ! i) ctx i c)"
        using rec by (intro render_tag_sound [OF m acts f]) simp
      show ?thesis
      proof (cases "render_tag (render_internal f load nf) load nf m (m_actions m ! i) ctx i c")
        case (Inl e)
        then show ?thesis using tag True t acts by (simp add: Let_def)
      next
        case (Inr z)
        obtain out j c1 where z: "z = (out, j, c1)" by (cases z) auto
        then show ?thesis using tag Inr True t acts later [of j c1 "\<lambda>outs. t @ out @ outs"] by (simp add: Let_def)
      qed
    next
      case False
      then show ?thesis using True t later [of i c "\<lambda>outs. t @ outs"] by simp
    qed
  qed simp
qed simp

section \<open>The structure of a template\<close>

text \<open>A document is a list of tags, each with the text before it: simple tags, sections with their body
  and the text before the closing tag, inverted sections with the text inside.\<close>

datatype doc =
    End
  | Item string action_type string doc
  | Sec string string doc string doc
  | Inv string string string doc

fun texts :: "doc \<Rightarrow> string list" where
  "texts End = []"
| "texts (Item t k n d) = t # texts d"
| "texts (Sec t n b l d) = t # texts b @ l # texts d"
| "texts (Inv t n u d) = t # u # texts d"

fun tags :: "doc \<Rightarrow> (action_type \<times> string) list" where
  "tags End = []"
| "tags (Item t k n d) = (k, n) # tags d"
| "tags (Sec t n b l d) = (OpenBlock, n) # tags b @ (CloseBlock, n) # tags d"
| "tags (Inv t n u d) = (ElseBlock, n) # (CloseBlock, n) # tags d"

lemma length_texts [simp]: "length (texts d) = length (tags d)"
  by (induction d) simp_all

abbreviation names :: "doc \<Rightarrow> string set" where
  "names d \<equiv> snd ` set (tags d)"

text \<open>No tag in a section has the name of the section: the renderer stops there.\<close>

fun doc_ok :: "doc \<Rightarrow> bool" where
  "doc_ok End \<longleftrightarrow> True"
| "doc_ok (Item t k n d) \<longleftrightarrow> k \<in> {Ignore, Tag, UnEscapeTag, Partial} \<and> NUL \<notin> set n \<and> n \<noteq> [] \<and> doc_ok d"
| "doc_ok (Sec t n b l d) \<longleftrightarrow> NUL \<notin> set n \<and> n \<noteq> [] \<and> n \<notin> names b \<and> doc_ok b \<and> doc_ok d"
| "doc_ok (Inv t n u d) \<longleftrightarrow> NUL \<notin> set n \<and> n \<noteq> [] \<and> doc_ok d"

definition item_text :: "(string \<Rightarrow> 'd obj \<Rightarrow> string result) \<Rightarrow> 'd num_format \<Rightarrow> action_type \<Rightarrow> string \<Rightarrow> 'd obj \<Rightarrow> string result" where
  "item_text inc nf k n ctx =
     (case k of
        Tag \<Rightarrow> rbind (obj_get ctx n True) (value_text nf False)
      | UnEscapeTag \<Rightarrow> rbind (obj_get ctx n True) (value_text nf True)
      | Partial \<Rightarrow> inc n ctx
      | _ \<Rightarrow> Inr [])"

text \<open>What a document means in a context. A section over an array is its body in the context of each
  element; over a value that is not an array it is its body in the context outside, after the text
  before the section once more.\<close>

fun denote :: "(string \<Rightarrow> 'd obj \<Rightarrow> string result) \<Rightarrow> 'd num_format \<Rightarrow> doc \<Rightarrow> 'd obj \<Rightarrow> string result" where
  "denote inc nf End ctx = Inr []"
| "denote inc nf (Item t k n d) ctx =
     rbind (item_text inc nf k n ctx) (\<lambda>v. rbind (denote inc nf d ctx) (\<lambda>r. Inr (t @ v @ r)))"
| "denote inc nf (Sec t n b l d) ctx =
     rbind (obj_get ctx n True) (\<lambda>val.
     rbind (if obj_empty val then Inr []
            else if is_array val then
              rbind (mapM (\<lambda>e. rbind (denote inc nf b e) (\<lambda>v. Inr (v @ l))) (obj_elements val)) (\<lambda>vs. Inr (concat vs))
            else rbind (denote inc nf b ctx) (\<lambda>v. Inr (t @ v @ l)))
       (\<lambda>v. rbind (denote inc nf d ctx) (\<lambda>r. Inr (t @ v @ r))))"
| "denote inc nf (Inv t n u d) ctx =
     rbind (obj_get ctx n True) (\<lambda>val.
     rbind (denote inc nf d ctx) (\<lambda>r. Inr (t @ (if obj_empty val then u else []) @ r)))"

section \<open>Rendering a document\<close>

definition frag_texts :: "mustache \<Rightarrow> string list" where
  "frag_texts m = map (frag_string (m_body m)) (m_fragments m)"

definition act_tags :: "mustache \<Rightarrow> (action_type \<times> string) list" where
  "act_tags m = map (\<lambda>a. (a_tag a, tag_string (m_body m) a)) (m_actions m)"

definition seg :: "'a list \<Rightarrow> nat \<Rightarrow> 'a list \<Rightarrow> bool" where
  "seg xs i ys \<longleftrightarrow> (\<exists>us vs. xs = us @ ys @ vs \<and> length us = i)"

lemma seg_Cons: "seg xs i (y # ys) \<longleftrightarrow> i < length xs \<and> xs ! i = y \<and> seg xs (Suc i) ys"
proof
  assume "seg xs i (y # ys)"
  then obtain us vs where u: "xs = us @ (y # ys) @ vs" "length us = i" by (auto simp: seg_def)
  then have "xs = (us @ [y]) @ ys @ vs" "length (us @ [y]) = Suc i" by simp_all
  then have "seg xs (Suc i) ys" unfolding seg_def by blast
  then show "i < length xs \<and> xs ! i = y \<and> seg xs (Suc i) ys" using u by (auto simp: nth_append)
next
  assume a: "i < length xs \<and> xs ! i = y \<and> seg xs (Suc i) ys"
  then obtain us vs where u: "xs = us @ ys @ vs" "length us = Suc i" by (auto simp: seg_def)
  then obtain us' z where z: "us = us' @ [z]" by (cases us rule: rev_cases) auto
  then have "z = y" using a u by (simp add: nth_append)
  then have "xs = us' @ (y # ys) @ vs" "length us' = i" using u z by simp_all
  then show "seg xs i (y # ys)" unfolding seg_def by blast
qed

lemma seg_Nil: "seg xs i [] \<longleftrightarrow> i \<le> length xs"
  by (metis append_Nil append_take_drop_id length_append length_take le_add1 min.absorb2 seg_def)

lemma seg_append: "seg xs i (ys @ zs) \<longleftrightarrow> seg xs i ys \<and> seg xs (i + length ys) zs"
proof (induction ys arbitrary: i)
  case Nil
  have "seg xs i zs \<Longrightarrow> seg xs i []" by (auto simp: seg_def)
  then show ?case by auto
next
  case (Cons y ys)
  then show ?case by (simp add: seg_Cons)
qed

lemma same_name_iff: "NUL \<notin> set b \<Longrightarrow> NUL \<notin> set a \<Longrightarrow> same_name a b \<longleftrightarrow> a = b"
  using strncmp_eq_same [of a b] by (auto simp: same_name_def)

lemma skip_block_doc:
  assumes "seg (act_tags m) i (tags b @ [(CloseBlock, n)])" "n \<notin> names b" "NUL \<notin> set n" "\<forall>x \<in> names b. NUL \<notin> set x"
  shows "skip_block m n i = i + length (tags b)"
proof -
  have "skip_block m n i = i + length ts"
    if "seg (act_tags m) i (ts @ [(CloseBlock, n)])" "n \<notin> snd ` set ts" "\<forall>x \<in> snd ` set ts. NUL \<notin> set x" for ts
    using that
  proof (induction ts arbitrary: i)
    case Nil
    then have "i < length (m_actions m)" "a_tag (m_actions m ! i) = CloseBlock" "tag_string (m_body m) (m_actions m ! i) = n"
      by (auto simp: seg_Cons act_tags_def)
    then show ?case by (subst skip_block.simps) simp
  next
    case (Cons p ts)
    then have "i < length (m_actions m)" "tag_string (m_body m) (m_actions m ! i) = snd p" "seg (act_tags m) (Suc i) (ts @ [(CloseBlock, n)])"
      by (auto simp: seg_Cons act_tags_def)
    moreover have "\<not> same_name (snd p) n" using Cons.prems assms(3) same_name_iff [of n "snd p"] by auto
    ultimately show ?case using Cons.IH [of "Suc i"] Cons.prems by (subst skip_block.simps) simp
  qed
  then show ?thesis using assms by simp
qed

lemma render_each_mapM:
  "(\<And>e. e \<in> set es \<Longrightarrow> rec e c = rbind (h e) (\<lambda>v. Inr (v, j, c))) \<Longrightarrow>
   render_each rec es i c = rbind (mapM h es) (\<lambda>vs. Inr (concat vs, if es = [] then i else j, c))"
proof (induction es arbitrary: i)
  case (Cons e es)
  have "rec e c = rbind (h e) (\<lambda>v. Inr (v, j, c))" by (rule Cons.prems) simp
  moreover have "render_each rec es j c = rbind (mapM h es) (\<lambda>vs. Inr (concat vs, j, c))"
    using Cons.IH [of j] Cons.prems by simp
  ultimately show ?case by (cases "h e"; cases "mapM h es") simp_all
qed simp

lemma doc_ok_names: "doc_ok d \<Longrightarrow> x \<in> names d \<Longrightarrow> NUL \<notin> set x \<and> x \<noteq> []"
  by (induction d) auto

definition prepend :: "string \<Rightarrow> (string \<times> nat \<times> 'c) result \<Rightarrow> (string \<times> nat \<times> 'c) result" where
  "prepend s r = rbind r (\<lambda>(t, j, c). Inr (s @ t, j, c))"

lemma prepend_simps [simp]:
  "prepend s (Inl e) = Inl e" "prepend s (Inr (t, j, c)) = Inr (s @ t, j, c)"
  "prepend s (prepend t r) = prepend (s @ t) r" "prepend [] r = r"
  by (cases r; auto simp: prepend_def)+

definition goes_on :: "string \<Rightarrow> string \<Rightarrow> bool" where
  "goes_on stop n \<longleftrightarrow> NUL \<notin> set n \<and> (stop = [] \<or> NUL \<notin> set stop \<and> stop \<noteq> n)"

lemma internal_step:
  fixes load :: "string \<Rightarrow> 'c \<Rightarrow> (mustache \<times> 'c) result"
  assumes "i < length (frag_texts m)" "frag_texts m ! i = t" "i < length (act_tags m)" "act_tags m ! i = (k, n)" "goes_on stop n"
  shows "render_internal (Suc f) load nf m ctx i stop c =
    rbind (render_tag (render_internal f load nf) load nf m (m_actions m ! i) ctx i c) (\<lambda>(out, j, c1).
      prepend (t @ out) (render_internal f load nf m ctx (j + 1) stop c1))"
proof -
  have "i < length (m_fragments m)" "render_fragment m i = Inr t" "i < length (m_actions m)"
      "tag_string (m_body m) (m_actions m ! i) = n"
    using assms(1-4) by (auto simp: frag_texts_def act_tags_def render_fragment_def)
  moreover have "\<not> (stop \<noteq> [] \<and> same_name n stop)" using assms(5) same_name_iff [of stop n] by (auto simp: goes_on_def)
  moreover have "prepend (t @ out) r = rbind r (\<lambda>(outs, j2, c2). Inr (t @ out @ outs, j2, c2))" for out and r :: "(string \<times> nat \<times> 'c) result"
    by (simp add: prepend_def)
  ultimately show ?thesis by (auto simp: Let_def)
qed

lemma internal_stop:
  assumes "i < length (frag_texts m)" "frag_texts m ! i = t" "i < length (act_tags m)" "act_tags m ! i = (k, n)" "n \<noteq> []"
  shows "render_internal (Suc f) load nf m ctx i n c = Inr (t, i, c)"
  using assms by (auto simp: frag_texts_def act_tags_def render_fragment_def Let_def)

lemma act_facts: "i < length (act_tags m) \<Longrightarrow> act_tags m ! i = (k, n) \<Longrightarrow>
    a_tag (m_actions m ! i) = k \<and> tag_string (m_body m) (m_actions m ! i) = n"
  by (auto simp: act_tags_def)

text \<open>What is included: loading a template and rendering it gives what \<open>inc\<close> says, \<open>k\<close> calls being
  enough for it. (This is for a loader whose state does not change; the loader with the cache comes to
  it by the lemma on loaders below.)\<close>

definition included :: "nat \<Rightarrow> (string \<Rightarrow> 'c \<Rightarrow> (mustache \<times> 'c) result) \<Rightarrow> 'd num_format \<Rightarrow>
    (string \<Rightarrow> 'd obj \<Rightarrow> string result) \<Rightarrow> 'c \<Rightarrow> doc \<Rightarrow> bool" where
  "included k load nf inc c d \<longleftrightarrow>
     (\<forall>n f ctx. (Partial, n) \<in> set (tags d) \<longrightarrow> k \<le> f \<longrightarrow>
        rbind (load n c) (\<lambda>(m, c1). render f load nf m ctx c1) = rbind (inc n ctx) (\<lambda>v. Inr (v, c)))"

lemma render_item:
  assumes act: "i < length (act_tags m)" "act_tags m ! i = (a, n)" and n: "NUL \<notin> set n" and k: "k \<le> f"
    and inc: "included k load nf inc c (Item t a n d)" and a: "a \<in> {Ignore, Tag, UnEscapeTag, Partial}"
  shows "render_tag (render_internal f load nf) load nf m (m_actions m ! i) ctx i c =
    rbind (item_text inc nf a n ctx) (\<lambda>v. Inr (v, i, c))"
proof (cases "a = Partial")
  case True
  then have "rbind (load n c) (\<lambda>(m, c1). render f load nf m ctx c1) = rbind (inc n ctx) (\<lambda>v. Inr (v, c))"
    using inc k by (simp add: included_def)
  moreover have "rbind (load n c) (\<lambda>(m', c1). rbind (render_internal f load nf m' ctx 0 [] c1) (\<lambda>(out, _, c2). Inr (out, i, c2))) =
      rbind (rbind (load n c) (\<lambda>(m, c1). render f load nf m ctx c1)) (\<lambda>(out, c2). Inr (out, i, c2))"
  proof (cases "load n c")
    case (Inr z)
    obtain m' c1 where "z = (m', c1)" by (cases z)
    then show ?thesis using Inr by (cases "render_internal f load nf m' ctx 0 [] c1") (auto simp: render_def)
  qed simp
  moreover have "rbind (rbind (inc n ctx) (\<lambda>v. Inr (v, c))) (\<lambda>(out, c2). Inr (out, i, c2)) = rbind (inc n ctx) (\<lambda>v. Inr (v, i, c))"
    by (cases "inc n ctx") simp_all
  ultimately show ?thesis using act_facts [OF act] True by (simp add: render_tag_def item_text_def)
next
  case False
  have r: "rbind (obj_get ctx n True) (\<lambda>val. rbind (value_text nf raw val) (\<lambda>out. Inr (out, i, c))) =
      rbind (rbind (obj_get ctx n True) (value_text nf raw)) (\<lambda>v. Inr (v, i, c))" for raw
    by (cases "obj_get ctx n True") simp_all
  show ?thesis using act_facts [OF act] a False n r by (auto simp: render_tag_def item_text_def)
qed

lemma section_tag:
  assumes act: "i < length (act_tags m)" "act_tags m ! i = (OpenBlock, n)" and n: "NUL \<notin> set n" "n \<noteq> []" "n \<notin> names b" "doc_ok b"
    and frag: "i < length (frag_texts m)" "frag_texts m ! i = t"
    and seg: "seg (act_tags m) (Suc i) (tags b @ [(CloseBlock, n)])"
    and f: "0 < f"
    and body: "\<And>e. render_internal f load nf m e (Suc i) n c = rbind (denote inc nf b e) (\<lambda>v. Inr (v @ l, Suc i + length (tags b), c))"
  shows "render_tag (render_internal f load nf) load nf m (m_actions m ! i) ctx i c =
    rbind (obj_get ctx n True) (\<lambda>val.
      if obj_empty val then Inr ([], Suc i + length (tags b), c)
      else if is_array val then
        rbind (mapM (\<lambda>e. rbind (denote inc nf b e) (\<lambda>v. Inr (v @ l))) (obj_elements val))
          (\<lambda>vs. Inr (concat vs, Suc i + length (tags b), c))
      else Inr (t, i, c))"
proof -
  obtain f' where f': "f = Suc f'" using f by (cases f) auto
  note a = act_facts [OF act]
  have skip: "skip_block m n i = Suc i + length (tags b)"
    using skip_block_doc [OF seg n(3,1)] doc_ok_names [OF n(4)] a act(1)
    by (subst skip_block.simps) (auto simp: act_tags_def)
  have each: "render_each (\<lambda>e c1. render_internal f load nf m e (Suc i) n c1) (obj_elements val) i c =
      rbind (mapM (\<lambda>e. rbind (denote inc nf b e) (\<lambda>v. Inr (v @ l))) (obj_elements val))
        (\<lambda>vs. Inr (concat vs, Suc i + length (tags b), c))" if v: "\<not> obj_empty val" "is_array val" for val
  proof -
    have ne: "obj_elements val \<noteq> []" using v by (auto simp: obj_empty_def is_array_def obj_elements_def split: option.splits json.splits)
    have "rbind (denote inc nf b e) (\<lambda>v. Inr (v @ l, Suc i + length (tags b), c)) =
        rbind (rbind (denote inc nf b e) (\<lambda>v. Inr (v @ l))) (\<lambda>v. Inr (v, Suc i + length (tags b), c))" for e
      by (cases "denote inc nf b e") simp_all
    then show ?thesis using ne body by (subst render_each_mapM) auto
  qed
  have once: "render_internal f load nf m val i n c = Inr (t, i, c)" for val
    unfolding f' by (rule internal_stop [OF frag act n(2)])
  show ?thesis using a n(1) skip each once
    by (cases "obj_get ctx n True") (simp_all add: render_tag_def)
qed

lemma render_doc:
  "doc_ok d \<Longrightarrow> \<forall>n \<in> names d. goes_on stop n \<Longrightarrow> seg (frag_texts m) i (texts d) \<Longrightarrow> seg (act_tags m) i (tags d) \<Longrightarrow>
   included k load nf inc c d \<Longrightarrow> k + length (tags d) + 2 \<le> f \<Longrightarrow>
   \<exists>g. g \<le> f \<and> f \<le> g + length (tags d) \<and>
     render_internal f load nf m ctx i stop c =
     rbind (denote inc nf d ctx) (\<lambda>v. prepend v (render_internal g load nf m ctx (i + length (tags d)) stop c))"
proof (induction d arbitrary: i ctx stop f)
  case End
  then show ?case by (intro exI [of _ f]) simp
next
  case (Item t a n d)
  obtain f1 where f: "f = Suc f1" using Item.prems(6) by (cases f) auto
  have s: "i < length (frag_texts m)" "frag_texts m ! i = t" "i < length (act_tags m)" "act_tags m ! i = (a, n)" "goes_on stop n"
    using Item.prems(2-4) by (auto simp: seg_Cons)
  have d: "doc_ok d" "\<forall>n \<in> names d. goes_on stop n" "seg (frag_texts m) (Suc i) (texts d)" "seg (act_tags m) (Suc i) (tags d)"
      "included k load nf inc c d" "k + length (tags d) + 2 \<le> f1"
    using Item.prems f by (auto simp: seg_Cons included_def)
  obtain g where g: "g \<le> f1" "f1 \<le> g + length (tags d)"
      "render_internal f1 load nf m ctx (Suc i) stop c =
       rbind (denote inc nf d ctx) (\<lambda>v. prepend v (render_internal g load nf m ctx (Suc i + length (tags d)) stop c))"
    using Item.IH [OF d] by blast
  have k: "k \<le> f1" "a \<in> {Ignore, Tag, UnEscapeTag, Partial}" "NUL \<notin> set n" using Item.prems(1,6) f by auto
  have "render_internal f load nf m ctx i stop c =
      rbind (denote inc nf (Item t a n d) ctx) (\<lambda>v. prepend v (render_internal g load nf m ctx (Suc i + length (tags d)) stop c))"
    unfolding f internal_step [OF s] render_item [OF s(3,4) k(3,1) Item.prems(5) k(2)]
    using g(3) by (cases "item_text inc nf a n ctx"; cases "denote inc nf d ctx") simp_all
  then show ?case using g(1,2) f by (intro exI [of _ g]) simp
next
  case (Inv t n u d)
  obtain f1 where f: "f = Suc f1" using Inv.prems(6) by (cases f) auto
  have s: "i < length (frag_texts m)" "frag_texts m ! i = t" "i < length (act_tags m)" "act_tags m ! i = (ElseBlock, n)" "goes_on stop n"
    using Inv.prems(2-4) by (auto simp: seg_Cons)
  have u: "render_fragment m (Suc i) = Inr u"
    using Inv.prems(3) by (auto simp: seg_Cons frag_texts_def render_fragment_def)
  have d: "doc_ok d" "\<forall>n \<in> names d. goes_on stop n" "seg (frag_texts m) (i + 2) (texts d)" "seg (act_tags m) (i + 2) (tags d)"
      "included k load nf inc c d" "k + length (tags d) + 2 \<le> f1"
    using Inv.prems f by (auto simp: seg_Cons included_def)
  obtain g where g: "g \<le> f1" "f1 \<le> g + length (tags d)"
      "render_internal f1 load nf m ctx (i + 2) stop c =
       rbind (denote inc nf d ctx) (\<lambda>v. prepend v (render_internal g load nf m ctx (i + 2 + length (tags d)) stop c))"
    using Inv.IH [OF d] by blast
  have n: "NUL \<notin> set n" using Inv.prems(1) by simp
  have "render_internal f load nf m ctx i stop c =
      rbind (denote inc nf (Inv t n u d) ctx) (\<lambda>v. prepend v (render_internal g load nf m ctx (i + 2 + length (tags d)) stop c))"
    unfolding f internal_step [OF s]
    using g(3) act_facts [OF s(3,4)] u n
    by (cases "obj_get ctx n True"; cases "denote inc nf d ctx") (simp_all add: render_tag_def)
  then show ?case using g(1,2) f by (intro exI [of _ g]) simp
next
  case (Sec t n b l d)
  obtain f1 where f: "f = Suc f1" using Sec.prems(6) by (cases f) auto
  let ?lb = "length (tags b)"
  let ?cl = "Suc i + ?lb"
  have n: "NUL \<notin> set n" "n \<noteq> []" "n \<notin> names b" "doc_ok b" "doc_ok d" using Sec.prems(1) by auto
  have s: "i < length (frag_texts m)" "frag_texts m ! i = t" "i < length (act_tags m)" "act_tags m ! i = (OpenBlock, n)" "goes_on stop n"
    using Sec.prems(2-4) by (auto simp: seg_Cons)
  have b: "seg (frag_texts m) (Suc i) (texts b)" "seg (act_tags m) (Suc i) (tags b)"
      "\<forall>n \<in> names b. goes_on stop n" "included k load nf inc c b"
    using Sec.prems by (auto simp: seg_Cons seg_append included_def)
  have close: "?cl < length (frag_texts m)" "frag_texts m ! ?cl = l" "?cl < length (act_tags m)" "act_tags m ! ?cl = (CloseBlock, n)"
    using Sec.prems(3,4) by (auto simp: seg_Cons seg_append)
  have dd: "\<forall>n \<in> names d. goes_on stop n" "seg (frag_texts m) (Suc ?cl) (texts d)" "seg (act_tags m) (Suc ?cl) (tags d)"
      "included k load nf inc c d"
    using Sec.prems by (auto simp: seg_Cons seg_append included_def)
  have fuel: "k + ?lb + length (tags d) + 3 \<le> f1" using Sec.prems(6) f by simp
  have d: "\<exists>g. g \<le> h \<and> h \<le> g + length (tags d) \<and>
      render_internal h load nf m ctx (Suc ?cl) stop c =
      rbind (denote inc nf d ctx) (\<lambda>v. prepend v (render_internal g load nf m ctx (Suc ?cl + length (tags d)) stop c))"
    if "k + length (tags d) + 2 \<le> h" for h
    using Sec.IH(2) [OF n(5) dd that] .
  have body: "render_internal f1 load nf m e (Suc i) n c = rbind (denote inc nf b e) (\<lambda>v. Inr (v @ l, ?cl, c))" for e
  proof -
    have "\<forall>x \<in> names b. goes_on n x" using n doc_ok_names by (auto simp: goes_on_def)
    moreover have "k + ?lb + 2 \<le> f1" using fuel by simp
    ultimately obtain g where g: "f1 \<le> g + ?lb"
        "render_internal f1 load nf m e (Suc i) n c =
         rbind (denote inc nf b e) (\<lambda>v. prepend v (render_internal g load nf m e ?cl n c))"
      using Sec.IH(1) [OF n(4) _ b(1,2,4), of n f1 e] by blast
    obtain g' where "g = Suc g'" using fuel g(1) by (cases g) auto
    show ?thesis unfolding g(2) \<open>g = Suc g'\<close> internal_stop [OF close n(2)] by simp
  qed
  have seg': "seg (act_tags m) (Suc i) (tags b @ [(CloseBlock, n)])"
    using Sec.prems(4) by (auto simp: seg_Cons seg_append seg_Nil)
  have f1: "0 < f1" using fuel by simp
  note tag = section_tag [OF s(3,4) n(1-4) s(1,2) seg' f1 body]
  have "\<exists>g. g \<le> f \<and> f \<le> g + length (tags (Sec t n b l d)) \<and> render_internal f load nf m ctx i stop c =
      rbind (denote inc nf (Sec t n b l d) ctx) (\<lambda>v. prepend v (render_internal g load nf m ctx (Suc ?cl + length (tags d)) stop c))"
  proof (cases "\<exists>val. obj_get ctx n True = Inr val \<and> \<not> obj_empty val \<and> \<not> is_array val")
    case True
    then obtain val where val: "obj_get ctx n True = Inr val" "\<not> obj_empty val" "\<not> is_array val" by blast
    have "k + ?lb + 2 \<le> f1" using fuel by simp
    then obtain g1 where g1: "g1 \<le> f1" "f1 \<le> g1 + ?lb" "render_internal f1 load nf m ctx (Suc i) stop c =
         rbind (denote inc nf b ctx) (\<lambda>v. prepend v (render_internal g1 load nf m ctx ?cl stop c))"
      using Sec.IH(1) [OF n(4) b(3,1,2,4), of f1 ctx] by blast
    then obtain g2 where g2: "g1 = Suc g2" using fuel by (cases g1) auto
    have "render_tag (render_internal g2 load nf) load nf m (m_actions m ! ?cl) ctx ?cl c = Inr ([], ?cl, c)"
      using act_facts [OF close(3,4)] by (simp add: render_tag_def Let_def)
    then have c1: "render_internal g1 load nf m ctx ?cl stop c = prepend l (render_internal g2 load nf m ctx (Suc ?cl) stop c)"
      unfolding g2 internal_step [OF close s(5)] by simp
    have "k + length (tags d) + 2 \<le> g2" using fuel g1 g2 by simp
    then obtain g where g: "g \<le> g2" "g2 \<le> g + length (tags d)" "render_internal g2 load nf m ctx (Suc ?cl) stop c =
        rbind (denote inc nf d ctx) (\<lambda>v. prepend v (render_internal g load nf m ctx (Suc ?cl + length (tags d)) stop c))"
      using d by blast
    have "render_internal f load nf m ctx i stop c =
        rbind (denote inc nf (Sec t n b l d) ctx) (\<lambda>v. prepend v (render_internal g load nf m ctx (Suc ?cl + length (tags d)) stop c))"
      unfolding f internal_step [OF s] tag using val g1(3) c1 g(3)
      by (cases "denote inc nf b ctx"; cases "denote inc nf d ctx") simp_all
    then show ?thesis using g(1,2) g1(1,2) g2 f by (intro exI [of _ g]) simp
  next
    case False
    have "k + length (tags d) + 2 \<le> f1" using fuel by simp
    then obtain g where g: "g \<le> f1" "f1 \<le> g + length (tags d)" "render_internal f1 load nf m ctx (Suc ?cl) stop c =
        rbind (denote inc nf d ctx) (\<lambda>v. prepend v (render_internal g load nf m ctx (Suc ?cl + length (tags d)) stop c))"
      using d by blast
    have "render_internal f load nf m ctx i stop c =
        rbind (denote inc nf (Sec t n b l d) ctx) (\<lambda>v. prepend v (render_internal g load nf m ctx (Suc ?cl + length (tags d)) stop c))"
    proof (cases "obj_get ctx n True")
      case (Inr val)
      then show ?thesis
        unfolding f internal_step [OF s] tag using False g(3)
        by (cases "mapM (\<lambda>e. rbind (denote inc nf b e) (\<lambda>v. Inr (v @ l))) (obj_elements val)"; cases "denote inc nf d ctx") auto
    next
      case (Inl e)
      then show ?thesis unfolding f internal_step [OF s] tag by simp
    qed
    then show ?thesis using g(1,2) f by (intro exI [of _ g]) simp
  qed
  then show ?case by (simp add: add.assoc)
qed

section \<open>Rendering a template\<close>

definition represents :: "mustache \<Rightarrow> doc \<Rightarrow> string \<Rightarrow> bool" where
  "represents m d fin \<longleftrightarrow> act_tags m = tags d \<and> frag_texts m = texts d @ (if fin = [] then [] else [fin])"

lemma render_template:
  assumes r: "represents m d fin" and d: "doc_ok d" and inc: "included k load nf inc c d" and f: "k + length (tags d) + 2 \<le> f"
  shows "render f load nf m ctx c = rbind (denote inc nf d ctx) (\<lambda>v. Inr (v @ fin, c))"
proof -
  have seg: "seg (frag_texts m) 0 (texts d)" "seg (act_tags m) 0 (tags d)"
    using r by (auto simp: represents_def seg_def)
  have "\<forall>n \<in> names d. goes_on [] n" using doc_ok_names [OF d] by (simp add: goes_on_def)
  then obtain g where g: "f \<le> g + length (tags d)"
      "render_internal f load nf m ctx 0 [] c =
       rbind (denote inc nf d ctx) (\<lambda>v. prepend v (render_internal g load nf m ctx (0 + length (tags d)) [] c))"
    using render_doc [OF d _ seg inc f] by blast
  have len: "length (m_fragments m) = length (tags d) + (if fin = [] then 0 else 1)" "length (m_actions m) = length (tags d)"
  proof -
    have "length (act_tags m) = length (m_actions m)" "length (frag_texts m) = length (m_fragments m)"
      by (simp_all add: act_tags_def frag_texts_def)
    then show "length (m_fragments m) = length (tags d) + (if fin = [] then 0 else 1)" "length (m_actions m) = length (tags d)"
      using r by (auto simp: represents_def)
  qed
  obtain g' where g': "g = Suc (Suc g')"
  proof -
    have "2 \<le> g" using f g(1) by simp
    then show ?thesis using that by (metis Suc_le_D numeral_2_eq_2 Suc_le_mono)
  qed
  have "render_internal g load nf m ctx (length (tags d)) [] c = Inr (fin, length (m_fragments m), c)"
  proof (cases "fin = []")
    case True
    then show ?thesis using len by (simp add: g')
  next
    case False
    then have "frag_texts m ! length (tags d) = fin" using r by (simp add: represents_def nth_append)
    then have "render_fragment m (length (tags d)) = Inr fin"
      using len False by (simp add: render_fragment_def frag_texts_def)
    then show ?thesis using len False by (simp add: g')
  qed
  then show ?thesis using g(2) by (cases "denote inc nf d ctx") (simp_all add: render_def)
qed

section \<open>Loaders\<close>

text \<open>A loader with a state gives what \<open>load0\<close> gives, in every state of \<open>I\<close>. The renderer then gives what
  it gives with \<open>load0\<close>: the state cannot be seen.\<close>

definition loads_as :: "('c \<Rightarrow> bool) \<Rightarrow> (string \<Rightarrow> 'c \<Rightarrow> (mustache \<times> 'c) result) \<Rightarrow> (string \<Rightarrow> mustache result) \<Rightarrow> bool" where
  "loads_as I load load0 \<longleftrightarrow>
     (\<forall>n c. I c \<longrightarrow> (case load n c of Inl e \<Rightarrow> load0 n = Inl e | Inr (m, c1) \<Rightarrow> load0 n = Inr m \<and> I c1))"

definition plain_load :: "(string \<Rightarrow> mustache result) \<Rightarrow> string \<Rightarrow> unit \<Rightarrow> (mustache \<times> unit) result" where
  "plain_load load0 n c = rbind (load0 n) (\<lambda>m. Inr (m, c))"

definition same_text :: "('c \<Rightarrow> bool) \<Rightarrow> (string \<times> nat \<times> 'c) result \<Rightarrow> (string \<times> nat \<times> unit) result \<Rightarrow> bool" where
  "same_text I r r0 \<longleftrightarrow> (case r of Inl e \<Rightarrow> r0 = Inl e | Inr (t, j, c) \<Rightarrow> r0 = Inr (t, j, ()) \<and> I c)"

lemma same_text_simps [simp]:
  "same_text I (Inl e) r0 \<longleftrightarrow> r0 = Inl e"
  "same_text I (Inr (t, j, c)) r0 \<longleftrightarrow> r0 = Inr (t, j, ()) \<and> I c"
  by (simp_all add: same_text_def)

lemma same_text_bind:
  assumes "same_text I r r0" "\<And>t j c. I c \<Longrightarrow> same_text I (g (t, j, c)) (g0 (t, j, ()))"
  shows "same_text I (rbind r g) (rbind r0 g0)"
proof (cases r)
  case (Inr z)
  obtain t j c where "z = (t, j, c)" by (cases z) auto
  then show ?thesis using assms Inr by simp
qed (use assms(1) in simp)

lemma loads_asD:
  assumes "loads_as I load load0" "I c"
  shows "load n c = Inl e \<Longrightarrow> load0 n = Inl e"
    and "load n c = Inr (m, c1) \<Longrightarrow> load0 n = Inr m \<and> I c1"
  using assms by (auto simp: loads_as_def split: sum.splits)

lemma same_text_each:
  "(\<And>e c. I c \<Longrightarrow> same_text I (rec e c) (rec0 e ())) \<Longrightarrow> I c \<Longrightarrow>
   same_text I (render_each rec es i c) (render_each rec0 es i ())"
proof (induction es arbitrary: i c)
  case (Cons e es)
  show ?case unfolding render_each.simps
    by (intro same_text_bind Cons.prems) (auto intro!: same_text_bind Cons)
qed simp

lemma same_text_tag:
  assumes load: "loads_as I load load0" and c: "I c"
    and rec: "\<And>m ctx i stop c. I c \<Longrightarrow> same_text I (rec m ctx i stop c) (rec0 m ctx i stop ())"
  shows "same_text I (render_tag rec load nf m act ctx i c) (render_tag rec0 (plain_load load0) nf m act ctx i ())"
proof -
  let ?name = "tag_string (m_body m) act"
  have get: "same_text I (rbind (obj_get ctx ?name True) g) (rbind (obj_get ctx ?name True) g0)"
    if "\<And>val. same_text I (g val) (g0 val)" for g :: "'b obj \<Rightarrow> (string \<times> nat \<times> 'a) result" and g0
    using that by (cases "obj_get ctx ?name True") simp_all
  show ?thesis
  proof (cases "a_tag act")
    case Partial
    show ?thesis
    proof (cases "load ?name c")
      case (Inl e)
      then have "load0 ?name = Inl e" using loads_asD(1) [OF load c] by blast
      then show ?thesis using Partial Inl by (simp add: render_tag_def plain_load_def)
    next
      case (Inr z)
      obtain m' c1 where z: "z = (m', c1)" by (cases z)
      then have "load0 ?name = Inr m'" "I c1" using loads_asD(2) [OF load c] Inr by blast+
      moreover from this have "same_text I (rbind (rec m' ctx 0 [] c1) (\<lambda>(out, _, c2). Inr (out, i, c2)))
          (rbind (rec0 m' ctx 0 [] ()) (\<lambda>(out, _, c2). Inr (out, i, c2)))"
        by (intro same_text_bind rec) auto
      ultimately show ?thesis using Partial Inr z by (simp add: render_tag_def plain_load_def)
    qed
  next
    case OpenBlock
    show ?thesis unfolding render_tag_def Let_def OpenBlock action_type.case
      by (intro get) (auto intro!: same_text_each rec c)
  next
    case ElseBlock
    have "same_text I (if obj_empty val then rbind (render_fragment m (i + 1)) (\<lambda>out. Inr (out, i + 1, c)) else Inr ([], i + 1, c))
        (if obj_empty val then rbind (render_fragment m (i + 1)) (\<lambda>out. Inr (out, i + 1, ())) else Inr ([], i + 1, ()))" for val :: "'b obj"
      using c by (cases "render_fragment m (i + 1)") simp_all
    then show ?thesis unfolding render_tag_def Let_def ElseBlock action_type.case by (intro get)
  next
    case Tag
    have "same_text I (rbind (value_text nf False val) (\<lambda>out. Inr (out, i, c))) (rbind (value_text nf False val) (\<lambda>out. Inr (out, i, ())))" for val
      using c by (cases "value_text nf False val") simp_all
    then show ?thesis unfolding render_tag_def Let_def Tag action_type.case by (intro get)
  next
    case UnEscapeTag
    have "same_text I (rbind (value_text nf True val) (\<lambda>out. Inr (out, i, c))) (rbind (value_text nf True val) (\<lambda>out. Inr (out, i, ())))" for val
      using c by (cases "value_text nf True val") simp_all
    then show ?thesis unfolding render_tag_def Let_def UnEscapeTag action_type.case by (intro get)
  qed (use c in \<open>simp_all add: render_tag_def\<close>)
qed

lemma same_text_internal:
  assumes "loads_as I load load0"
  shows "I c \<Longrightarrow> same_text I (render_internal f load nf m ctx i stop c) (render_internal f (plain_load load0) nf m ctx i stop ())"
proof (induction f arbitrary: m ctx i stop c)
  case (Suc f)
  have tag: "same_text I (render_tag (render_internal f load nf) load nf m act ctx i c)
      (render_tag (render_internal f (plain_load load0) nf) (plain_load load0) nf m act ctx i ())" for act
    by (rule same_text_tag [OF assms Suc.prems]) (rule Suc.IH)
  show ?case
  proof (cases "i < length (m_fragments m)")
    case True
    then obtain t where "render_fragment m i = Inr t" using render_fragment_ok by blast
    then show ?thesis using True Suc.prems
      by (auto simp: Let_def intro!: same_text_bind [OF tag] same_text_bind [OF Suc.IH])
  qed (use Suc.prems in simp)
qed simp

end
