(* ===== verification/Mustache_Syntax.thy ===== *)
theory Mustache_Syntax
  imports Mustache_Render
begin

text \<open>
  The concrete syntax of templates and what the parser makes of it, and the properties of templates:
  parsing and rendering together against the reference semantics, memory, the cache.
\<close>

section \<open>The syntax\<close>

definition ident :: "string \<Rightarrow> string \<Rightarrow> bool" where
  "ident chs n \<longleftrightarrow> n \<noteq> [] \<and> (is_alpha (hd n) \<or> hd n = CHR ''_'') \<and> list_all (\<lambda>c. is_alnum c \<or> c \<in> set chs) n"

text \<open>The text of a tag: braces, the sign of the kind, a name, with white space.\<close>

definition sign_tag :: "string \<Rightarrow> string \<Rightarrow> string \<Rightarrow> string \<Rightarrow> bool" where
  "sign_tag sign chs n src \<longleftrightarrow> ident chs n \<and>
     (\<exists>w1 w2 w3. blank w1 \<and> blank w2 \<and> blank w3 \<and> src = ''{{'' @ w1 @ sign @ w2 @ n @ w3 @ ''}}'')"

definition item_src :: "action_type \<Rightarrow> string \<Rightarrow> string \<Rightarrow> bool" where
  "item_src k n src \<longleftrightarrow>
     (case k of
        Tag \<Rightarrow> sign_tag [] ''_'' n src
      | UnEscapeTag \<Rightarrow> sign_tag ''&'' ''_'' n src \<or> (\<exists>src'. sign_tag ''{'' ''_'' n src' \<and> src = src' @ ''}'')
      | Partial \<Rightarrow> sign_tag ''>'' ''/._'' n src
      | Ignore \<Rightarrow> n \<noteq> [] \<and> CHR ''}'' \<notin> set n \<and> NUL \<notin> set n \<and> (\<exists>w. blank w \<and> src = ''{{'' @ w @ ''!'' @ n @ ''}}'')
      | _ \<Rightarrow> False)"

text \<open>Text without two braces in a row before \<open>rest\<close>.\<close>

fun plain_text :: "string \<Rightarrow> string \<Rightarrow> bool" where
  "plain_text [] rest \<longleftrightarrow> True"
| "plain_text (c # t) rest \<longleftrightarrow> \<not> (c = CHR ''{'' \<and> cur (t @ rest) = CHR ''{'') \<and> plain_text t rest"

inductive doc_text :: "doc \<Rightarrow> string \<Rightarrow> bool" where
  no_tag: "doc_text End []"
| item: "plain_text t src \<Longrightarrow> item_src k n src \<Longrightarrow> doc_text d a \<Longrightarrow> doc_text (Item t k n d) (t @ src @ a)"
| sect: "plain_text t s1 \<Longrightarrow> sign_tag ''#'' ''_'' n s1 \<Longrightarrow> doc_text b a1 \<Longrightarrow> plain_text l s2 \<Longrightarrow> sign_tag ''/'' ''_'' n s2 \<Longrightarrow>
    doc_text d a2 \<Longrightarrow> doc_text (Sec t n b l d) (t @ s1 @ a1 @ l @ s2 @ a2)"
| inverted: "plain_text t s1 \<Longrightarrow> sign_tag ''^'' ''_'' n s1 \<Longrightarrow> plain_text u s2 \<Longrightarrow> sign_tag ''/'' ''_'' n s2 \<Longrightarrow>
    doc_text d a \<Longrightarrow> doc_text (Inv t n u d) (t @ s1 @ u @ s2 @ a)"

section \<open>Scanning\<close>

lemma nth_at: "(pre @ c # post) ! length pre = c"
  by simp

lemma eat_space_blanks:
  "blank w \<Longrightarrow> \<not> is_space (cur post) \<Longrightarrow> eat_space (pre @ w @ post) (length pre) = length pre + length w"
proof (induction w arbitrary: pre)
  case Nil
  then have "\<not> (length pre < length (pre @ post) \<and> is_space ((pre @ post) ! length pre))"
    by (cases post) auto
  then show ?case by (subst eat_space.simps) auto
next
  case (Cons c w)
  then have "is_space c" by (simp add: blank_def)
  then have "eat_space (pre @ (c # w) @ post) (length pre) = eat_space ((pre @ [c]) @ w @ post) (length (pre @ [c]))"
    by (subst eat_space.simps) simp
  also have "\<dots> = length (pre @ [c]) + length w" using Cons.prems by (intro Cons.IH) (auto simp: blank_def)
  finally show ?case by simp
qed

lemma scan_name_names:
  "list_all (\<lambda>c. is_alnum c \<or> in_chars chs c) n \<Longrightarrow> post = [] \<or> \<not> (is_alnum (hd post) \<or> in_chars chs (hd post)) \<Longrightarrow>
   scan_name chs (pre @ n @ post) (length pre) = length pre + length n"
proof (induction n arbitrary: pre)
  case Nil
  then show ?case by (subst scan_name.simps) (cases post; auto simp: p_peek_def)
next
  case (Cons c n)
  then have "scan_name chs (pre @ (c # n) @ post) (length pre) = scan_name chs ((pre @ [c]) @ n @ post) (length (pre @ [c]))"
    by (subst scan_name.simps) (simp add: p_peek_def)
  also have "\<dots> = length (pre @ [c]) + length n" using Cons.prems by (intro Cons.IH) auto
  finally show ?case by simp
qed

lemma skip_comment_text:
  "u \<noteq> [] \<Longrightarrow> CHR ''}'' \<notin> set u \<Longrightarrow> skip_comment (pre @ u @ CHR ''}'' # post) (length pre) = length pre + length u - 1"
proof (induction u arbitrary: pre)
  case (Cons c u)
  show ?case
  proof (cases "u = []")
    case True
    then show ?thesis by (subst skip_comment.simps) (simp add: p_peek_def nth_append)
  next
    case False
    then obtain e u' where u: "u = e # u'" by (cases u) auto
    have "skip_comment (pre @ (c # u) @ CHR ''}'' # post) (length pre) =
        skip_comment ((pre @ [c]) @ u @ CHR ''}'' # post) (length (pre @ [c]))"
      using Cons.prems u by (subst skip_comment.simps) (auto simp: p_peek_def nth_append)
    also have "\<dots> = length (pre @ [c]) + length u - 1" using Cons False by (intro Cons.IH) auto
    finally show ?thesis using u by simp
  qed
qed simp

lemma ident_first: "ident chs n \<Longrightarrow> \<not> is_space (cur (n @ post)) \<and> cur (n @ post) = hd n \<and> NUL \<notin> set chs \<longrightarrow> NUL \<notin> set n"
  by (auto simp: ident_def list_all_iff char_class_defs)

lemma p_next_at: "p_next (pre @ c # post) (length pre) = Inr (c, Suc (length pre))"
  by (simp add: p_next_def)

text \<open>A name, its white space and the closing braces.\<close>

lemma to_last_index_name:
  assumes n: "ident chs n" and chs: "set chs \<inter> ({CHR ''}'', NUL} \<union> Collect is_space) = {}"
    and w: "blank w2" "blank w3" and body: "body = pre @ w2 @ n @ w3 @ ''}}'' @ post"
  shows "to_last_index chs body (length pre) =
    Inr (length pre + length w2, length pre + length w2 + length n, length pre + length w2 + length n + length w3 + 2)"
proof -
  obtain c n' where n': "n = c # n'" "is_alpha c \<or> c = CHR ''_''" "list_all (\<lambda>c. is_alnum c \<or> c \<in> set chs) n'"
    using n by (cases n) (auto simp: ident_def)
  define s where "s = length pre + length w2"
  have "\<not> is_space c" using n'(2) by (auto simp: char_class_defs)
  then have e1: "eat_space body (length pre) = s"
    using eat_space_blanks [OF w(1), of "n @ w3 @ ''}}'' @ post" pre] n'(1) by (simp add: body s_def)
  have b1: "body = (pre @ w2) @ c # n' @ w3 @ ''}}'' @ post" using body n'(1) by simp
  then have x1: "p_next body s = Inr (c, Suc s)" using p_next_at [of "pre @ w2" c] by (simp add: s_def)
  have "list_all (\<lambda>c. is_alnum c \<or> in_chars chs c) n'" using n'(3) by (auto simp: list_all_iff in_chars_def)
  moreover have "\<not> (is_alnum (hd (w3 @ ''}}'' @ post)) \<or> in_chars chs (hd (w3 @ ''}}'' @ post)))"
  proof (cases w3)
    case Nil
    then show ?thesis using chs by (auto simp: in_chars_def char_class_defs)
  next
    case (Cons x w3')
    then have "is_space x" using w(2) by (simp add: blank_def)
    then show ?thesis using chs Cons by (auto simp: in_chars_def char_class_defs)
  qed
  ultimately have e2: "scan_name chs body (Suc s) = Suc s + length n'"
    using scan_name_names [of chs n' "w3 @ ''}}'' @ post" "pre @ w2 @ [c]"] by (simp add: b1 s_def)
  have e3: "eat_space body (Suc s + length n') = Suc s + length n' + length w3"
    using eat_space_blanks [OF w(2), of "''}}'' @ post" "pre @ w2 @ c # n'"] by (simp add: b1 s_def is_space_def add.assoc)
  have b2: "body = (pre @ w2 @ c # n' @ w3) @ CHR ''}'' # CHR ''}'' # post" using b1 by simp
  have x2: "p_next body (Suc s + length n' + length w3) = Inr (CHR ''}'', Suc (Suc s + length n' + length w3))"
    using p_next_at [of "pre @ w2 @ c # n' @ w3" "CHR ''}''" "CHR ''}'' # post"] by (simp add: b2 s_def add.assoc)
  have b3: "body = (pre @ w2 @ c # n' @ w3 @ ''}'') @ CHR ''}'' # post" using b1 by simp
  have x3: "p_next body (Suc (Suc s + length n' + length w3)) = Inr (CHR ''}'', Suc (Suc (Suc s + length n' + length w3)))"
    using p_next_at [of "pre @ w2 @ c # n' @ w3 @ ''}''" "CHR ''}''" post] by (simp add: b3 s_def add.assoc)
  show ?thesis
    unfolding to_last_index_def Let_def e1 x1 rbind_simps prod.case e2 e3 x2 x3
    using n'(1,2) by (simp add: s_def)
qed

section \<open>Reading a tag\<close>

lemma tag_string_at: "n \<noteq> [] \<Longrightarrow> tag_string (pre @ n @ post) (mk_action k (length pre) (length pre + length n) x) = n"
  by (simp add: tag_string_def mk_action_def)

lemma blank_sign: "blank w1 \<Longrightarrow> \<not> is_space x \<Longrightarrow> eat_space (pre @ w1 @ x # post) (length pre) = length pre + length w1 \<and>
    p_peek (pre @ w1 @ x # post) (length pre + length w1) 0 = x"
  using eat_space_blanks [of w1 "x # post" pre] by (simp add: p_peek_def nth_append)

lemma name_chars: "set ''_'' \<inter> ({CHR ''}'', NUL} \<union> Collect is_space) = {}" "set ''/._'' \<inter> ({CHR ''}'', NUL} \<union> Collect is_space) = {}"
  by (auto simp: is_space_def)

text \<open>Behind a sign: the name that \<open>to_last_index\<close> finds and where it ends.\<close>

lemma signed_name:
  assumes "ident chs n" "chs \<in> {''_'', ''/._''}" "blank w1" "blank w2" "blank w3" "\<not> is_space x"
    and body: "body = pre @ w1 @ x # w2 @ n @ w3 @ ''}}'' @ post"
  obtains s e where "eat_space body (length pre) = length pre + length w1" "p_peek body (length pre + length w1) 0 = x"
    "to_last_index chs body (length pre + length w1 + 1) =
       Inr (s, e, length pre + length (w1 @ x # w2 @ n @ w3 @ ''}}''))"
    "\<And>k y. tag_string body (mk_action k s e y) = n"
proof -
  let ?pre = "pre @ w1 @ [x]"
  have b: "body = ?pre @ w2 @ n @ w3 @ ''}}'' @ post" by (simp add: body)
  have chs: "set chs \<inter> ({CHR ''}'', NUL} \<union> Collect is_space) = {}" using assms(2) name_chars by blast
  have t: "to_last_index chs body (length ?pre) =
      Inr (length ?pre + length w2, length ?pre + length w2 + length n, length ?pre + length w2 + length n + length w3 + 2)"
    by (rule to_last_index_name [OF assms(1) chs assms(4,5) b])
  have "n \<noteq> []" using assms(1) by (simp add: ident_def)
  then have "tag_string body (mk_action k (length (?pre @ w2)) (length (?pre @ w2) + length n) y) = n" for k y
    using tag_string_at [of n "?pre @ w2" "w3 @ ''}}'' @ post" k y] b by simp
  moreover have "eat_space body (length pre) = length pre + length w1" "p_peek body (length pre + length w1) 0 = x"
    using blank_sign [OF assms(3,6)] body by simp_all
  ultimately show ?thesis using t that [of "length (?pre @ w2)" "length (?pre @ w2) + length n"] by simp
qed

definition action_of :: "string \<Rightarrow> action \<Rightarrow> action_type \<times> string" where
  "action_of body a = (a_tag a, tag_string body a)"

lemma action_of_mk: "action_of body (mk_action k s e y) = (k, tag_string body (mk_action k s e y))"
  by (simp add: action_of_def mk_action_def)

lemma sign_tagE:
  assumes "sign_tag sign chs n src"
  obtains w1 w2 w3 where "ident chs n" "blank w1" "blank w2" "blank w3" "src = ''{{'' @ w1 @ sign @ w2 @ n @ w3 @ ''}}''"
  using assms by (auto simp: sign_tag_def)

lemma read_open:
  assumes "sign_tag [x] ''_'' n src" "x = CHR ''#'' \<and> k = OpenBlock \<or> x = CHR ''^'' \<and> k = ElseBlock" "body = pre @ src @ post"
  shows "\<exists>a. read_tag body (length pre + 2) acts blocks = Inr (acts @ [a], blocks @ [length acts], length pre + length src) \<and>
    action_of body a = (k, n)"
proof -
  obtain w1 w2 w3 where w: "ident ''_'' n" "blank w1" "blank w2" "blank w3" "src = ''{{'' @ w1 @ [x] @ w2 @ n @ w3 @ ''}}''"
    using assms(1) by (rule sign_tagE)
  have b: "body = (pre @ ''{{'') @ w1 @ x # w2 @ n @ w3 @ ''}}'' @ post" using assms(3) w(5) by simp
  have "\<not> is_space x" using assms(2) by (auto simp: is_space_def)
  from signed_name [OF w(1) _ w(2-4) this b] obtain s e where
    t: "eat_space body (length pre + 2) = length pre + 2 + length w1" "p_peek body (length pre + 2 + length w1) 0 = x"
      "to_last_index ''_'' body (length pre + 2 + length w1 + 1) = Inr (s, e, length pre + length src)"
      "\<And>k y. tag_string body (mk_action k s e y) = n"
    using w(5) by auto
  then show ?thesis using assms(2) by (auto simp: read_tag_def Let_def action_of_mk)
qed

lemma read_close:
  assumes "sign_tag ''/'' ''_'' n src" "body = pre @ src @ post" "blocks \<noteq> []" "tag_string body (acts ! last blocks) = n"
  shows "\<exists>a. read_tag body (length pre + 2) acts blocks = Inr (acts @ [a], butlast blocks, length pre + length src) \<and>
    action_of body a = (CloseBlock, n)"
proof -
  obtain w1 w2 w3 where w: "ident ''_'' n" "blank w1" "blank w2" "blank w3" "src = ''{{'' @ w1 @ ''/'' @ w2 @ n @ w3 @ ''}}''"
    using assms(1) by (rule sign_tagE)
  have b: "body = (pre @ ''{{'') @ w1 @ CHR ''/'' # w2 @ n @ w3 @ ''}}'' @ post" using assms(2) w(5) by simp
  have "\<not> is_space (CHR ''/'')" by (simp add: is_space_def)
  from signed_name [OF w(1) _ w(2-4) this b] obtain s e where
    t: "eat_space body (length pre + 2) = length pre + 2 + length w1" "p_peek body (length pre + 2 + length w1) 0 = CHR ''/''"
      "to_last_index ''_'' body (length pre + 2 + length w1 + 1) = Inr (s, e, length pre + length src)"
      "\<And>k y. tag_string body (mk_action k s e y) = n"
    using w(5) by auto
  then show ?thesis using assms(3,4) by (auto simp: read_tag_def Let_def action_of_mk)
qed

lemma read_signed:
  assumes "sign_tag [x] chs n src" "x = CHR ''&'' \<and> k = UnEscapeTag \<and> chs = ''_'' \<or> x = CHR ''>'' \<and> k = Partial \<and> chs = ''/._''"
    "body = pre @ src @ post"
  shows "\<exists>a. read_tag body (length pre + 2) acts blocks = Inr (acts @ [a], blocks, length pre + length src) \<and>
    action_of body a = (k, n)"
proof -
  obtain w1 w2 w3 where w: "ident chs n" "blank w1" "blank w2" "blank w3" "src = ''{{'' @ w1 @ [x] @ w2 @ n @ w3 @ ''}}''"
    using assms(1) by (rule sign_tagE)
  have b: "body = (pre @ ''{{'') @ w1 @ x # w2 @ n @ w3 @ ''}}'' @ post" using assms(3) w(5) by simp
  have "\<not> is_space x" "chs \<in> {''_'', ''/._''}" using assms(2) by (auto simp: is_space_def)
  from signed_name [OF w(1) this(2) w(2-4) this(1) b] obtain s e where
    t: "eat_space body (length pre + 2) = length pre + 2 + length w1" "p_peek body (length pre + 2 + length w1) 0 = x"
      "to_last_index chs body (length pre + 2 + length w1 + 1) = Inr (s, e, length pre + length src)"
      "\<And>k y. tag_string body (mk_action k s e y) = n"
    using w(5) by auto
  then show ?thesis using assms(2) by (auto simp: read_tag_def Let_def action_of_mk)
qed

lemma read_triple:
  assumes "sign_tag ''{'' ''_'' n src'" "src = src' @ ''}''" "body = pre @ src @ post"
  shows "\<exists>a. read_tag body (length pre + 2) acts blocks = Inr (acts @ [a], blocks, length pre + length src) \<and>
    action_of body a = (UnEscapeTag, n)"
proof -
  obtain w1 w2 w3 where w: "ident ''_'' n" "blank w1" "blank w2" "blank w3" "src' = ''{{'' @ w1 @ ''{'' @ w2 @ n @ w3 @ ''}}''"
    using assms(1) by (rule sign_tagE)
  have b: "body = (pre @ ''{{'') @ w1 @ CHR ''{'' # w2 @ n @ w3 @ ''}}'' @ (''}'' @ post)" using assms(2,3) w(5) by simp
  have "\<not> is_space (CHR ''{'')" by (simp add: is_space_def)
  from signed_name [OF w(1) _ w(2-4) this b] obtain s e where
    t: "eat_space body (length pre + 2) = length pre + 2 + length w1" "p_peek body (length pre + 2 + length w1) 0 = CHR ''{''"
      "to_last_index ''_'' body (length pre + 2 + length w1 + 1) = Inr (s, e, length pre + length src')"
      "\<And>k y. tag_string body (mk_action k s e y) = n"
    using w(5) by auto
  have "p_next body (length (pre @ src')) = Inr (CHR ''}'', Suc (length (pre @ src')))"
    using p_next_at [of "pre @ src'" "CHR ''}''" post] assms(2,3) by simp
  then show ?thesis using t assms(2) by (auto simp: read_tag_def Let_def action_of_mk)
qed

lemma read_plain:
  assumes "sign_tag [] ''_'' n src" "body = pre @ src @ post"
  shows "\<exists>a. read_tag body (length pre + 2) acts blocks = Inr (acts @ [a], blocks, length pre + length src) \<and>
    action_of body a = (Tag, n)"
proof -
  obtain w1 w2 w3 where w: "ident ''_'' n" "blank w1" "blank w2" "blank w3" "src = ''{{'' @ w1 @ [] @ w2 @ n @ w3 @ ''}}''"
    using assms(1) by (rule sign_tagE)
  let ?pre = "pre @ ''{{'' @ w1 @ w2"
  have b: "body = ?pre @ [] @ n @ w3 @ ''}}'' @ post" using assms(2) w(5) by simp
  have t: "to_last_index ''_'' body (length ?pre) = Inr (length ?pre, length ?pre + length n, length pre + length src)"
    using to_last_index_name [OF w(1) name_chars(1) _ w(4) b] w(5) by (simp add: blank_def)
  obtain c n' where n': "n = c # n'" "is_alpha c \<or> c = CHR ''_''" using w(1) by (cases n) (auto simp: ident_def)
  have c: "\<not> is_space c" "c \<notin> {CHR ''#'', CHR ''/'', CHR ''^'', CHR ''!'', CHR ''>'', CHR ''{'', CHR ''&'', CHR ''=''}"
    using n'(2) by (auto simp: char_class_defs)
  have "blank (w1 @ w2)" using w(2,3) by (simp add: blank_def)
  from blank_sign [OF this c(1), of "pre @ ''{{''" "n' @ w3 @ ''}}'' @ post"]
  have e: "eat_space body (length pre + 2) = length ?pre" "p_peek body (length ?pre) 0 = c"
    using b n'(1) by simp_all
  have "tag_string body (mk_action k (length ?pre) (length ?pre + length n) y) = n" for k y
    using tag_string_at [of n ?pre "w3 @ ''}}'' @ post" k y] b n'(1) by simp
  then show ?thesis using e t c(2) unfolding read_tag_def Let_def by (auto simp: action_of_mk)
qed

lemma read_comment:
  assumes "n \<noteq> []" "CHR ''}'' \<notin> set n" "NUL \<notin> set n" "blank w" "src = ''{{'' @ w @ ''!'' @ n @ ''}}''" "body = pre @ src @ post"
  shows "\<exists>a. read_tag body (length pre + 2) acts blocks = Inr (acts @ [a], blocks, length pre + length src) \<and>
    action_of body a = (Ignore, n)"
proof -
  let ?pre = "pre @ ''{{'' @ w @ ''!''"
  have b: "body = ?pre @ n @ CHR ''}'' # CHR ''}'' # post" using assms(5,6) by simp
  have "\<not> is_space (CHR ''!'')" by (simp add: is_space_def)
  from blank_sign [OF assms(4) this, of "pre @ ''{{''" "n @ CHR ''}'' # CHR ''}'' # post"]
  have e: "eat_space body (length pre + 2) = length pre + 2 + length w" "p_peek body (length pre + 2 + length w) 0 = CHR ''!''"
    using b by simp_all
  obtain n' x where n': "n = n' @ [x]" using assms(1) by (cases n rule: rev_cases) auto
  have k: "skip_comment body (length ?pre) = length (?pre @ n')"
    using skip_comment_text [OF assms(1,2), of ?pre "CHR ''}'' # post"] b n' by simp
  have b1: "body = (?pre @ n') @ x # CHR ''}'' # CHR ''}'' # post" using b n' by simp
  have x1: "p_next body (length (?pre @ n')) = Inr (x, length (?pre @ n))"
    unfolding b1 using p_next_at [of "?pre @ n'"] n' by simp
  have b2: "body = (?pre @ n) @ CHR ''}'' # CHR ''}'' # post" using b by simp
  have x2: "p_next body (length (?pre @ n)) = Inr (CHR ''}'', Suc (length (?pre @ n)))" "p_peek body (length (?pre @ n)) 0 = CHR ''}''"
    unfolding b2 using p_next_at [of "?pre @ n"] by (simp, simp add: p_peek_def nth_append)
  have b3: "body = (?pre @ n @ ''}'') @ CHR ''}'' # post" using b by simp
  have x3: "p_next body (Suc (length (?pre @ n))) = Inr (CHR ''}'', length pre + length src)"
    unfolding b3 using p_next_at [of "?pre @ n @ ''}''"] assms(5) by simp
  have "tag_string body (mk_action Ignore (length ?pre) (length (?pre @ n)) 0) = n"
    using tag_string_at [OF assms(1), of ?pre "''}}'' @ post"] b by (simp add: add.assoc)
  then show ?thesis using k x1 x2 x3 unfolding read_tag_def Let_def e by (auto simp: action_of_mk)
qed

lemma read_item:
  assumes "item_src k n src" "body = pre @ src @ post"
  shows "\<exists>a. read_tag body (length pre + 2) acts blocks = Inr (acts @ [a], blocks, length pre + length src) \<and>
    action_of body a = (k, n)"
proof -
  have b: "body = pre @ src @ post" by fact
  show ?thesis
  proof (cases k)
    case Tag
    then show ?thesis using read_plain [OF _ b] assms(1) by (simp add: item_src_def)
  next
    case UnEscapeTag
    then show ?thesis using read_signed [OF _ _ b, of "CHR ''&''" "''_''" n k] read_triple [OF _ _ b, of n] assms(1)
      by (auto simp: item_src_def)
  next
    case Partial
    then show ?thesis using read_signed [OF _ _ b, of "CHR ''>''" "''/._''" n k] assms(1) by (simp add: item_src_def)
  next
    case Ignore
    then show ?thesis using read_comment [OF _ _ _ _ _ b] assms(1) by (auto simp: item_src_def)
  qed (use assms(1) in \<open>simp_all add: item_src_def\<close>)
qed

section \<open>Reading a document\<close>

lemma plain_text_more: "src \<noteq> [] \<Longrightarrow> plain_text t (src @ x) \<longleftrightarrow> plain_text t src"
proof (induction t)
  case (Cons c t)
  have "cur ((t @ src) @ x) = cur (t @ src)" using Cons.prems by (intro cur_append) simp
  then show ?case using Cons by simp
qed simp

lemma parse_plain:
  "plain_text t rest \<Longrightarrow> body = pre @ t @ rest \<Longrightarrow>
   parse_loop body (length pre) frag fs as bl = parse_loop body (length pre + length t) frag fs as bl"
proof (induction t arbitrary: pre)
  case (Cons c t)
  have "p_peek body (length pre + 1) 0 = cur (t @ rest)"
    using Cons.prems(2) by (cases "t @ rest") (simp_all add: p_peek_def nth_append)
  then have no: "\<not> (body ! length pre = CHR ''{'' \<and> p_peek body (length pre + 1) 0 = CHR ''{'')"
    using Cons.prems by (simp add: nth_append)
  have "length pre < length body" using Cons.prems(2) by simp
  from parse_loop_step [OF this, of frag fs as bl] no
  have "parse_loop body (length pre) frag fs as bl = parse_loop body (length (pre @ [c])) frag fs as bl"
    by (simp only: if_False) simp
  also have "\<dots> = parse_loop body (length (pre @ [c]) + length t) frag fs as bl"
    using Cons.prems by (intro Cons.IH) simp_all
  finally show ?case by simp
qed simp

lemma parse_tag:
  assumes "plain_text t src" "src = ''{{'' @ src'" "body = pre @ t @ src @ post"
    and "read_tag body (length (pre @ t) + 2) as bl = Inr (as', bl', length (pre @ t) + length src)"
  shows "parse_loop body (length pre) (length pre) fs as bl =
    parse_loop body (length (pre @ t @ src)) (length (pre @ t @ src)) (fs @ [(length pre, length pre + length t)]) as' bl'"
proof -
  have "plain_text t (src @ post)" using assms(1,2) plain_text_more [of src t post] by simp
  then have "parse_loop body (length pre) (length pre) fs as bl = parse_loop body (length (pre @ t)) (length pre) fs as bl"
    using parse_plain assms(3) by simp
  moreover have at: "body ! length (pre @ t) = CHR ''{''" "length (pre @ t) < length body" "p_peek body (length (pre @ t) + 1) 0 = CHR ''{''"
    using assms(2,3) by (simp_all add: nth_append p_peek_def)
  have "parse_loop body (length (pre @ t)) (length pre) fs as bl =
      parse_loop body (length (pre @ t @ src)) (length (pre @ t @ src)) (fs @ [(length pre, length pre + length t)]) as' bl'"
    using parse_loop_step [OF at(2), of "length pre" fs as bl] at(1,3) assms(4) by (simp add: add.assoc)
  ultimately show ?thesis by simp
qed

lemma frag_string_at: "frag_string (pre @ t @ post) (length pre, length pre + length t) = t"
  by (simp add: frag_string_def)

lemma sign_src: "sign_tag sign chs n src \<Longrightarrow> \<exists>src'. src = ''{{'' @ src'"
  by (auto simp: sign_tag_def)

lemma item_src_braces: "item_src k n src \<Longrightarrow> \<exists>src'. src = ''{{'' @ src'"
  by (auto simp: item_src_def sign_tag_def split: action_type.splits)

definition reads :: "string \<Rightarrow> doc \<Rightarrow> string \<Rightarrow> string \<Rightarrow> string \<Rightarrow> bool" where
  "reads body d pre a post \<longleftrightarrow> (body = pre @ a @ post \<longrightarrow>
     (\<forall>fs as bl. \<exists>fs' as'.
        parse_loop body (length pre) (length pre) fs as bl =
          parse_loop body (length (pre @ a)) (length (pre @ a)) (fs @ fs') (as @ as') bl \<and>
        map (frag_string body) fs' = texts d \<and> map (action_of body) as' = tags d))"

lemma reads_block:
  assumes t: "plain_text t s1" and s1: "sign_tag [x] ''_'' n s1" "x = CHR ''#'' \<and> k = OpenBlock \<or> x = CHR ''^'' \<and> k = ElseBlock"
    and b: "reads body b (pre @ t @ s1) a1 (l @ s2 @ post)"
    and l: "plain_text l s2" and s2: "sign_tag ''/'' ''_'' n s2"
    and body: "body = pre @ t @ s1 @ a1 @ l @ s2 @ post"
  shows "\<exists>fs' as'. parse_loop body (length pre) (length pre) fs as bl =
      parse_loop body (length (pre @ t @ s1 @ a1 @ l @ s2)) (length (pre @ t @ s1 @ a1 @ l @ s2)) (fs @ fs') (as @ as') bl \<and>
    map (frag_string body) fs' = t # texts b @ [l] \<and> map (action_of body) as' = (k, n) # tags b @ [(CloseBlock, n)]"
proof -
  let ?p1 = "pre @ t @ s1"
  let ?p2 = "?p1 @ a1"
  let ?p3 = "?p2 @ l @ s2"
  obtain a where a: "read_tag body (length (pre @ t) + 2) as bl = Inr (as @ [a], bl @ [length as], length (pre @ t) + length s1)"
      "action_of body a = (k, n)"
    using read_open [OF s1, of body "pre @ t" "a1 @ l @ s2 @ post" as bl] body by auto
  obtain s1' where s1': "s1 = ''{{'' @ s1'" using sign_src [OF s1(1)] by blast
  have body1: "body = pre @ t @ s1 @ (a1 @ l @ s2 @ post)" using body by simp
  have step1: "parse_loop body (length pre) (length pre) fs as bl =
      parse_loop body (length ?p1) (length ?p1) (fs @ [(length pre, length pre + length t)]) (as @ [a]) (bl @ [length as])"
    by (rule parse_tag [OF t s1' body1 a(1)])
  obtain fs' as' where step2: "parse_loop body (length ?p1) (length ?p1) (fs @ [(length pre, length pre + length t)]) (as @ [a]) (bl @ [length as]) =
      parse_loop body (length ?p2) (length ?p2) (fs @ (length pre, length pre + length t) # fs') (as @ a # as') (bl @ [length as])"
      and inner: "map (frag_string body) fs' = texts b" "map (action_of body) as' = tags b"
  proof -
    have "body = ?p1 @ a1 @ (l @ s2 @ post)" using body by simp
    then show ?thesis using b that unfolding reads_def by (metis append.assoc append_Cons append_Nil)
  qed
  have body2: "body = ?p2 @ l @ s2 @ post" using body by simp
  have name: "tag_string body ((as @ a # as') ! last (bl @ [length as])) = n"
    using a(2) by (simp add: action_of_def)
  have "body = (?p2 @ l) @ s2 @ post" using body by simp
  from read_close [OF s2 this _ name] obtain z where
    z: "read_tag body (length (?p2 @ l) + 2) (as @ a # as') (bl @ [length as]) = Inr ((as @ a # as') @ [z], bl, length (?p2 @ l) + length s2)"
      "action_of body z = (CloseBlock, n)"
    by auto
  obtain s2' where s2': "s2 = ''{{'' @ s2'" using sign_src [OF s2] by blast
  have step3: "parse_loop body (length ?p2) (length ?p2) (fs @ (length pre, length pre + length t) # fs') (as @ a # as') (bl @ [length as]) =
      parse_loop body (length ?p3) (length ?p3)
        ((fs @ (length pre, length pre + length t) # fs') @ [(length ?p2, length ?p2 + length l)]) ((as @ a # as') @ [z]) bl"
    using parse_tag [OF l s2' body2 z(1)] by simp
  have texts: "frag_string body (length pre, length pre + length t) = t" "frag_string body (length ?p2, length ?p2 + length l) = l"
    using frag_string_at [of pre t "s1 @ a1 @ l @ s2 @ post"] frag_string_at [of ?p2 l "s2 @ post"] body by simp_all
  show ?thesis
    by (intro exI [of _ "(length pre, length pre + length t) # fs' @ [(length ?p2, length ?p2 + length l)]"] exI [of _ "a # as' @ [z]"])
      (use step1 step2 step3 texts inner a(2) z(2) in simp)
qed

lemma doc_text_reads: "doc_text d a \<Longrightarrow> reads body d pre a suf"
proof (induction d a arbitrary: pre suf rule: doc_text.induct)
  case no_tag
  show ?case unfolding reads_def by (auto intro!: exI [of _ "[]"])
next
  case (item t src k n d a pre suf)
  show ?case unfolding reads_def
  proof (intro impI allI)
    fix fs as bl
    assume body: "body = pre @ (t @ src @ a) @ suf"
    obtain src' where src': "src = ''{{'' @ src'" using item_src_braces [OF item.hyps(2)] by blast
    have "body = (pre @ t) @ src @ (a @ suf)" using body by simp
    from read_item [OF item.hyps(2) this] obtain z where
      z: "read_tag body (length (pre @ t) + 2) as bl = Inr (as @ [z], bl, length (pre @ t) + length src)" "action_of body z = (k, n)"
      by blast
    have "body = pre @ t @ src @ (a @ suf)" using body by simp
    note step = parse_tag [OF item.hyps(1) src' this z(1)]
    have "body = (pre @ t @ src) @ a @ suf" using body by simp
    then obtain fs' as' where d: "parse_loop body (length (pre @ t @ src)) (length (pre @ t @ src)) (fs @ [(length pre, length pre + length t)]) (as @ [z]) bl =
        parse_loop body (length ((pre @ t @ src) @ a)) (length ((pre @ t @ src) @ a)) ((fs @ [(length pre, length pre + length t)]) @ fs') ((as @ [z]) @ as') bl"
        "map (frag_string body) fs' = texts d" "map (action_of body) as' = tags d"
      using item.IH [of "pre @ t @ src" suf] unfolding reads_def by blast
    have "frag_string body (length pre, length pre + length t) = t"
      using frag_string_at [of pre t "src @ a @ suf"] body by simp
    then show "\<exists>fs' as'. parse_loop body (length pre) (length pre) fs as bl =
        parse_loop body (length (pre @ t @ src @ a)) (length (pre @ t @ src @ a)) (fs @ fs') (as @ as') bl \<and>
        map (frag_string body) fs' = texts (Item t k n d) \<and> map (action_of body) as' = tags (Item t k n d)"
      using step d z(2) by (intro exI [of _ "(length pre, length pre + length t) # fs'"] exI [of _ "z # as'"]) simp
  qed
next
  case (sect t s1 n b a1 l s2 d a2 pre suf)
  show ?case unfolding reads_def
  proof (intro impI allI)
    fix fs as bl
    assume body: "body = pre @ (t @ s1 @ a1 @ l @ s2 @ a2) @ suf"
    let ?p = "pre @ t @ s1 @ a1 @ l @ s2"
    have b: "body = pre @ t @ s1 @ a1 @ l @ s2 @ (a2 @ suf)" using body by simp
    obtain fs1 as1 where blk: "parse_loop body (length pre) (length pre) fs as bl = parse_loop body (length ?p) (length ?p) (fs @ fs1) (as @ as1) bl"
        "map (frag_string body) fs1 = t # texts b @ [l]" "map (action_of body) as1 = (OpenBlock, n) # tags b @ [(CloseBlock, n)]"
      using reads_block [OF sect.hyps(1,2) _ sect.IH(1) sect.hyps(4,5) b, of OpenBlock fs as bl] by auto
    have "body = ?p @ a2 @ suf" using body by simp
    then obtain fs' as' where d: "parse_loop body (length ?p) (length ?p) (fs @ fs1) (as @ as1) bl =
        parse_loop body (length (?p @ a2)) (length (?p @ a2)) ((fs @ fs1) @ fs') ((as @ as1) @ as') bl"
        "map (frag_string body) fs' = texts d" "map (action_of body) as' = tags d"
      using sect.IH(2) [of ?p suf] unfolding reads_def by blast
    show "\<exists>fs' as'. parse_loop body (length pre) (length pre) fs as bl =
        parse_loop body (length (pre @ t @ s1 @ a1 @ l @ s2 @ a2)) (length (pre @ t @ s1 @ a1 @ l @ s2 @ a2)) (fs @ fs') (as @ as') bl \<and>
        map (frag_string body) fs' = texts (Sec t n b l d) \<and> map (action_of body) as' = tags (Sec t n b l d)"
      using blk d by (intro exI [of _ "fs1 @ fs'"] exI [of _ "as1 @ as'"]) simp
  qed
next
  case (inverted t s1 n u s2 d a pre suf)
  show ?case unfolding reads_def
  proof (intro impI allI)
    fix fs as bl
    assume body: "body = pre @ (t @ s1 @ u @ s2 @ a) @ suf"
    let ?p = "pre @ t @ s1 @ u @ s2"
    have b: "body = pre @ t @ s1 @ [] @ u @ s2 @ (a @ suf)" using body by simp
    have "reads body End (pre @ t @ s1) [] (u @ s2 @ (a @ suf))" unfolding reads_def by (auto intro!: exI [of _ "[]"])
    from reads_block [OF inverted.hyps(1,2) _ this inverted.hyps(3,4) b, of ElseBlock fs as bl]
    obtain fs1 as1 where blk: "parse_loop body (length pre) (length pre) fs as bl = parse_loop body (length ?p) (length ?p) (fs @ fs1) (as @ as1) bl"
        "map (frag_string body) fs1 = [t, u]" "map (action_of body) as1 = [(ElseBlock, n), (CloseBlock, n)]"
      by auto
    have "body = ?p @ a @ suf" using body by simp
    then obtain fs' as' where d: "parse_loop body (length ?p) (length ?p) (fs @ fs1) (as @ as1) bl =
        parse_loop body (length (?p @ a)) (length (?p @ a)) ((fs @ fs1) @ fs') ((as @ as1) @ as') bl"
        "map (frag_string body) fs' = texts d" "map (action_of body) as' = tags d"
      using inverted.IH [of ?p suf] unfolding reads_def by blast
    show "\<exists>fs' as'. parse_loop body (length pre) (length pre) fs as bl =
        parse_loop body (length (pre @ t @ s1 @ u @ s2 @ a)) (length (pre @ t @ s1 @ u @ s2 @ a)) (fs @ fs') (as @ as') bl \<and>
        map (frag_string body) fs' = texts (Inv t n u d) \<and> map (action_of body) as' = tags (Inv t n u d)"
      using blk d by (intro exI [of _ "fs1 @ fs'"] exI [of _ "as1 @ as'"]) simp
  qed
qed

text \<open>The names of a document in the syntax are not empty and have no terminator in them; what is left to
  ask is that no section has a tag of its own name inside.\<close>

fun sections_ok :: "doc \<Rightarrow> bool" where
  "sections_ok End \<longleftrightarrow> True"
| "sections_ok (Item t k n d) \<longleftrightarrow> sections_ok d"
| "sections_ok (Sec t n b l d) \<longleftrightarrow> n \<notin> names b \<and> sections_ok b \<and> sections_ok d"
| "sections_ok (Inv t n u d) \<longleftrightarrow> sections_ok d"

lemma sign_name: "sign_tag sign chs n src \<Longrightarrow> NUL \<notin> set chs \<Longrightarrow> NUL \<notin> set n \<and> n \<noteq> []"
  by (auto simp: sign_tag_def ident_def list_all_iff char_class_defs)

lemma item_name: "item_src k n src \<Longrightarrow> k \<in> {Ignore, Tag, UnEscapeTag, Partial} \<and> NUL \<notin> set n \<and> n \<noteq> []"
  by (auto simp: item_src_def split: action_type.splits dest!: sign_name)

lemma doc_text_ok: "doc_text d a \<Longrightarrow> sections_ok d \<Longrightarrow> doc_ok d"
  by (induction rule: doc_text.induct) (auto dest: sign_name item_name)

lemma else_ok_append:
  "else_ok as \<Longrightarrow> else_ok bs \<Longrightarrow> as = [] \<or> a_tag (last as) \<noteq> ElseBlock \<Longrightarrow> else_ok (as @ bs)"
proof (induction as)
  case (Cons a as)
  then show ?case by (cases as; cases bs) auto
qed simp

lemma else_ok_tags:
  "doc_ok d \<Longrightarrow> map a_tag as = map fst (tags d) \<Longrightarrow> else_ok as \<and> (as = [] \<or> a_tag (last as) \<noteq> ElseBlock)"
proof (induction d arbitrary: as)
  case (Item t k n d)
  then obtain a as' where a: "as = a # as'" "map a_tag as' = map fst (tags d)" "a_tag a = k" by auto
  have "else_ok as' \<and> (as' = [] \<or> a_tag (last as') \<noteq> ElseBlock)" using Item.IH [OF _ a(2)] Item.prems(1) by simp
  moreover have "k \<noteq> ElseBlock" using Item.prems(1) by auto
  ultimately show ?case using a else_ok_append [of "[a]" as'] by auto
next
  case (Sec t n b l d)
  then obtain a as1 z as2 where a: "as = [a] @ as1 @ [z] @ as2" "a_tag a = OpenBlock" "a_tag z = CloseBlock"
      "map a_tag as1 = map fst (tags b)" "map a_tag as2 = map fst (tags d)"
    by (fastforce simp: map_eq_append_conv map_eq_Cons_conv)
  have i: "else_ok as1 \<and> (as1 = [] \<or> a_tag (last as1) \<noteq> ElseBlock)" "else_ok as2 \<and> (as2 = [] \<or> a_tag (last as2) \<noteq> ElseBlock)"
    using Sec.IH(1) [OF _ a(4)] Sec.IH(2) [OF _ a(5)] Sec.prems(1) by simp_all
  have "else_ok ([z] @ as2)" using else_ok_append [of "[z]" as2] a(3) i by simp
  then have "else_ok (as1 @ [z] @ as2)" using else_ok_append [of as1 "[z] @ as2"] i by blast
  then have "else_ok ([a] @ as1 @ [z] @ as2)" using else_ok_append [of "[a]" "as1 @ [z] @ as2"] a(2) by simp
  moreover have "a_tag (last ([a] @ as1 @ [z] @ as2)) \<noteq> ElseBlock" using i(2) a(3) by (cases as2 rule: rev_cases) auto
  ultimately show ?case using a(1) by simp
next
  case (Inv t n u d)
  then obtain a z as' where a: "as = a # z # as'" "a_tag a = ElseBlock" "a_tag z = CloseBlock" "map a_tag as' = map fst (tags d)"
    by (auto simp: map_eq_Cons_conv)
  have "else_ok as' \<and> (as' = [] \<or> a_tag (last as') \<noteq> ElseBlock)" using Inv.IH [OF _ a(4)] Inv.prems(1) by simp
  then show ?case using a else_ok_append [of "[z]" as'] by auto
qed simp

lemma act_tags_action_of: "act_tags m = map (action_of (m_body m)) (m_actions m)"
  by (simp add: act_tags_def action_of_def)

lemma parse_doc:
  assumes "doc_text d a" "plain_text fin []" "sections_ok d"
  shows "\<exists>m. parse (a @ fin) = Inr m \<and> represents m d fin"
proof (cases "a @ fin = []")
  case True
  then have "d = End" using assms(1) by (cases d) (auto elim!: doc_text.cases dest!: sign_src item_src_braces)
  then show ?thesis using True
    by (auto simp: parse_def empty_mustache_def represents_def act_tags_def frag_texts_def)
next
  case False
  let ?body = "a @ fin"
  obtain fs as where p: "parse_loop ?body 0 0 [] [] [] = parse_loop ?body (length a) (length a) fs as []"
      "map (frag_string ?body) fs = texts d" "map (action_of ?body) as = tags d"
    using doc_text_reads [OF assms(1), of ?body "[]" fin] unfolding reads_def by fastforce
  have "parse_loop ?body (length a) (length a) fs as [] = parse_loop ?body (length a + length fin) (length a) fs as []"
    using parse_plain [OF assms(2), of ?body a "length a" fs as "[]"] by simp
  then have l: "parse_loop ?body 0 0 [] [] [] = Inr (length a + length fin, length a, fs, as, [])"
    using p(1) parse_loop_end [of "length a + length fin" ?body] by simp
  have "map a_tag as = map fst (tags d)" using arg_cong [OF p(3), of "map fst"] by (simp add: action_of_def comp_def)
  then have "else_ok as" using else_ok_tags [OF doc_text_ok [OF assms(1,3)]] by blast
  then have "parse ?body = Inr \<lparr>m_body = ?body, m_fragments = (if fin = [] then fs else fs @ [(length a, length a + length fin)]), m_actions = as\<rparr>"
    using False unfolding parse_def l rbind_simps prod.case Let_def by (simp del: append_is_Nil_conv)
  moreover have "frag_string ?body (length a, length a + length fin) = fin" using frag_string_at [of a fin "[]"] by simp
  ultimately show ?thesis using p(2,3) by (cases "fin = []") (simp_all add: represents_def act_tags_action_of frag_texts_def)
qed

section \<open>The cache holds what the files hold\<close>

text \<open>The texts a file has had, by modification time.\<close>

type_synonym history = "string \<Rightarrow> int \<Rightarrow> string option"

definition records :: "history \<Rightarrow> file_system \<Rightarrow> bool" where
  "records h fs \<longleftrightarrow> (\<forall>p t s. fs p = Some (t, s) \<longrightarrow> h p t = Some s \<and> t \<noteq> 0)"

definition current :: "string \<Rightarrow> file_system \<Rightarrow> string \<Rightarrow> mustache result" where
  "current root fs name = (case fs (root @ ''/'' @ name) of None \<Rightarrow> Inl MustacheParseError | Some (t, s) \<Rightarrow> parse s)"

text \<open>Loading templates one after the other while the files change.\<close>

fun load_all :: "(file_system \<times> string) list \<Rightarrow> cache \<Rightarrow> mustache result list" where
  "load_all [] c = []"
| "load_all ((fs, name) # ls) c = (let (r, c1) = cache_load fs name c in r # load_all ls c1)"

definition entry_ok :: "history \<Rightarrow> cache_entry \<Rightarrow> bool" where
  "entry_ok h e \<longleftrightarrow> ce_last_mod e = 0 \<or> (\<exists>s. h (ce_path e) (ce_last_mod e) = Some s \<and> parse s = Inr (ce_tmpl e))"

lemma reload_current:
  assumes "records h fs" "entry_ok h e" "\<forall>t s. h (ce_path e) t = Some s \<longrightarrow> is_ok (parse s)"
  shows "\<exists>e'. reload fs e = (case fs (ce_path e) of None \<Rightarrow> Inl MustacheParseError | Some (t, s) \<Rightarrow> parse s, e') \<and>
    entry_ok h e' \<and> ce_path e' = ce_path e"
proof (cases "fs (ce_path e)")
  case None
  then show ?thesis using assms(2) by (simp add: reload_def)
next
  case (Some ts)
  obtain t s where ts: "ts = (t, s)" by (cases ts)
  then have h: "h (ce_path e) t = Some s" "t \<noteq> 0" using assms(1) Some by (auto simp: records_def)
  obtain m where m: "parse s = Inr m" using assms(3) h(1) by (auto simp: is_ok_iff)
  show ?thesis
  proof (cases "t = ce_last_mod e")
    case True
    then show ?thesis using assms(2) Some ts h m by (auto simp: reload_def entry_ok_def)
  next
    case False
    then show ?thesis using Some ts h m by (auto simp: reload_def entry_ok_def)
  qed
qed

definition cache_ok :: "history \<Rightarrow> string \<Rightarrow> cache \<Rightarrow> bool" where
  "cache_ok h root c \<longleftrightarrow> ca_root c = root \<and>
     (\<forall>n e. ca_cached c n = Some e \<longrightarrow> ce_path e = root @ ''/'' @ n \<and> entry_ok h e)"

lemma cache_load_current:
  assumes fs: "records h fs" and h: "\<forall>p t s. h p t = Some s \<longrightarrow> is_ok (parse s)" and c: "cache_ok h root c"
  shows "\<exists>c'. cache_load fs name c = (current root fs name, c') \<and> cache_ok h root c'"
proof (cases "ca_cached c name")
  case None
  let ?e = "\<lparr>ce_path = root @ ''/'' @ name, ce_tmpl = empty_mustache [], ce_last_mod = 0\<rparr>"
  have root: "ca_root c = root" using c by (simp add: cache_ok_def)
  have "entry_ok h ?e" by (simp add: entry_ok_def)
  then obtain e1 where e1: "reload fs ?e = (current root fs name, e1)" "entry_ok h e1" "ce_path e1 = root @ ''/'' @ name"
    using reload_current [OF fs, of ?e] h by (auto simp: current_def)
  have "entry_ok h (move_entry e1)" "ce_path (move_entry e1) = root @ ''/'' @ name"
    using e1(3) by (simp_all add: entry_ok_def move_entry_def)
  then obtain e2 where e2: "reload fs (move_entry e1) = (current root fs name, e2)" "entry_ok h e2" "ce_path e2 = root @ ''/'' @ name"
    using reload_current [OF fs, of "move_entry e1"] h by (auto simp: current_def)
  show ?thesis using None e1 e2 c root by (auto simp: cache_load_def cache_ok_def split: sum.splits)
next
  case (Some e)
  have "entry_ok h e" "ce_path e = root @ ''/'' @ name" using c Some by (simp_all add: cache_ok_def)
  then obtain e1 where "reload fs e = (current root fs name, e1)" "entry_ok h e1" "ce_path e1 = root @ ''/'' @ name"
    using reload_current [OF fs, of e] h by (auto simp: current_def)
  then show ?thesis using Some c by (auto simp: cache_load_def cache_ok_def)
qed

section \<open>Templates that include others\<close>

text \<open>What the files of the template directory \<open>root\<close> hold: each is a template of the syntax, with no more
  than \<open>M\<close> tags; \<open>docs\<close> says which.\<close>

definition template_dir :: "file_system \<Rightarrow> string \<Rightarrow> (string \<Rightarrow> (doc \<times> string) option) \<Rightarrow> nat \<Rightarrow> bool" where
  "template_dir fs root docs M \<longleftrightarrow>
     (\<forall>n. case fs (root @ ''/'' @ n) of
        None \<Rightarrow> docs n = None
      | Some (t, s) \<Rightarrow> \<exists>d a fin. docs n = Some (d, fin) \<and> s = a @ fin \<and> doc_text d a \<and> plain_text fin [] \<and> sections_ok d \<and>
          length (tags d) \<le> M)"

text \<open>No chain of includes from \<open>d\<close> is longer than \<open>r\<close>; a file that is not there ends a chain.\<close>

fun includes_within :: "nat \<Rightarrow> (string \<Rightarrow> (doc \<times> string) option) \<Rightarrow> doc \<Rightarrow> bool" where
  "includes_within 0 docs d \<longleftrightarrow> (\<forall>n. (Partial, n) \<notin> set (tags d))"
| "includes_within (Suc r) docs d \<longleftrightarrow>
     (\<forall>n d' fin. (Partial, n) \<in> set (tags d) \<longrightarrow> docs n = Some (d', fin) \<longrightarrow> includes_within r docs d')"

text \<open>What an include means: the document of the file in the context of the tag.\<close>

fun include_text :: "nat \<Rightarrow> (string \<Rightarrow> (doc \<times> string) option) \<Rightarrow> 'd num_format \<Rightarrow> string \<Rightarrow> 'd obj \<Rightarrow> string result" where
  "include_text 0 docs nf n ctx = Inl StackExhausted"
| "include_text (Suc r) docs nf n ctx =
     (case docs n of
        None \<Rightarrow> Inl MustacheParseError
      | Some (d, fin) \<Rightarrow> rbind (denote (include_text r docs nf) nf d ctx) (\<lambda>v. Inr (v @ fin)))"

lemma dir_file:
  assumes "template_dir fs root docs M" "fs (root @ ''/'' @ n) = Some ts"
  obtains d a fin where "docs n = Some (d, fin)" "snd ts = a @ fin" "doc_text d a" "plain_text fin []" "sections_ok d"
    "length (tags d) \<le> M"
proof -
  have "\<exists>d a fin. docs n = Some (d, fin) \<and> snd ts = a @ fin \<and> doc_text d a \<and> plain_text fin [] \<and> sections_ok d \<and>
      length (tags d) \<le> M"
    using spec [OF assms(1) [unfolded template_dir_def], of n] assms(2) by (cases ts) simp
  then show thesis by (elim exE conjE) (rule that)
qed

lemma included_files:
  assumes dir: "template_dir fs root docs M"
  shows "includes_within r docs d \<Longrightarrow> included (r * (M + 2)) (plain_load (current root fs)) nf (include_text r docs nf) () d"
proof (induction r arbitrary: d)
  case (Suc r)
  show ?case unfolding included_def
  proof (intro allI impI)
    fix n f and ctx :: "'a obj"
    assume n: "(Partial, n) \<in> set (tags d)" and f: "Suc r * (M + 2) \<le> f"
    show "rbind (plain_load (current root fs) n ()) (\<lambda>(m, c1). render f (plain_load (current root fs)) nf m ctx c1) =
        rbind (include_text (Suc r) docs nf n ctx) (\<lambda>v. Inr (v, ()))"
    proof (cases "fs (root @ ''/'' @ n)")
      case None
      then have "docs n = None" using dir by (auto simp: template_dir_def dest: spec [of _ n])
      then show ?thesis using None by (simp add: plain_load_def current_def)
    next
      case (Some ts)
      obtain d' a fin where d': "docs n = Some (d', fin)" "snd ts = a @ fin" "doc_text d' a" "plain_text fin []" "sections_ok d'"
          "length (tags d') \<le> M"
        by (rule dir_file [OF dir Some])
      obtain m where m: "parse (snd ts) = Inr m" "represents m d' fin" unfolding d'(2) using parse_doc [OF d'(3-5)] by blast
      then have s: "current root fs n = Inr m" by (cases ts) (use Some in \<open>simp add: current_def\<close>)
      have "includes_within r docs d'" using Suc.prems n d'(1) by simp
      then have "included (r * (M + 2)) (plain_load (current root fs)) nf (include_text r docs nf) () d'" by (rule Suc.IH)
      moreover have "r * (M + 2) + length (tags d') + 2 \<le> f" using f d'(6) by simp
      ultimately have "render f (plain_load (current root fs)) nf m ctx () =
          rbind (denote (include_text r docs nf) nf d' ctx) (\<lambda>v. Inr (v @ fin, ()))"
        by (rule render_template [OF m(2) doc_text_ok [OF d'(3,5)]])
      then show ?thesis using s d'(1)
        by (cases "denote (include_text r docs nf) nf d' ctx") (simp_all add: plain_load_def)
    qed
  qed
qed (simp add: included_def)

lemma loader_current:
  assumes "records h fs" "\<forall>p t s. h p t = Some s \<longrightarrow> is_ok (parse s)"
  shows "loads_as (cache_ok h root) (loader fs) (current root fs)"
  unfolding loads_as_def
proof (intro allI impI)
  fix n c assume "cache_ok h root c"
  then obtain c' where "cache_load fs n c = (current root fs n, c')" "cache_ok h root c'"
    using cache_load_current [OF assms] by blast
  then show "case loader fs n c of Inl e \<Rightarrow> current root fs n = Inl e | Inr (m, c1) \<Rightarrow> current root fs n = Inr m \<and> cache_ok h root c1"
    by (cases "current root fs n") (simp_all add: loader_def)
qed

lemma render_files:
  assumes "represents m d fin" "doc_ok d" "template_dir fs root docs M" "includes_within r docs d"
    and h: "records h fs" "\<forall>p t s. h p t = Some s \<longrightarrow> is_ok (parse s)" "cache_ok h root c"
    and f: "r * (M + 2) + length (tags d) + 2 \<le> f"
  shows "\<exists>c'. cache_ok h root c' \<and>
    render f (loader fs) nf m ctx c = rbind (denote (include_text r docs nf) nf d ctx) (\<lambda>v. Inr (v @ fin, c'))"
proof -
  have "same_text (cache_ok h root) (render_internal f (loader fs) nf m ctx 0 [] c)
      (render_internal f (plain_load (current root fs)) nf m ctx 0 [] ())"
    by (rule same_text_internal [OF loader_current [OF h(1,2)] h(3)])
  moreover have "render f (plain_load (current root fs)) nf m ctx () =
      rbind (denote (include_text r docs nf) nf d ctx) (\<lambda>v. Inr (v @ fin, ()))"
    by (rule render_template [OF assms(1,2) included_files [OF assms(3,4)] f])
  ultimately show ?thesis using h(3)
    by (cases "render_internal f (loader fs) nf m ctx 0 [] c";
        cases "denote (include_text r docs nf) nf d ctx") (auto simp: render_def same_text_def)
qed

section \<open>Properties\<close>

text \<open>C3: templates mean what they say. For every template of the syntax (any text, comments, tags,
  sections, inverted sections and includes, with any white space inside the braces) in which no section
  has a tag of its own name inside, the parser accepts the text and rendering it with the cache, whatever
  that has loaded before, gives what the reference semantics gives in that context, errors included: an
  include is the text of its file in the same context, and a file that is not there is a
  MustacheParseError. The files of the directory are templates of the syntax too, with at most \<open>M\<close> tags,
  no chain of includes is longer than \<open>r\<close>, and a file that changes changes its modification time; then
  \<open>r * (M + 2)\<close> nested calls, the number of tags and two are enough. (The semantics has the code's own
  reading of a section over a value that is not an array: the text before it comes twice, and its tags
  are looked up outside.)\<close>

theorem mustache_renders:
  assumes "doc_text d a" "plain_text fin []" "sections_ok d"
    and "template_dir fs root docs M" "includes_within r docs d"
    and "records h fs" "\<forall>p t s. h p t = Some s \<longrightarrow> is_ok (parse s)" "cache_ok h root c"
    and "r * (M + 2) + length (tags d) + 2 \<le> f"
  shows "\<exists>m c'. parse (a @ fin) = Inr m \<and> cache_ok h root c' \<and>
    render f (loader fs) nf m ctx c = rbind (denote (include_text r docs nf) nf d ctx) (\<lambda>v. Inr (v @ fin, c'))"
  using parse_doc [OF assms(1-3)] render_files [OF _ doc_text_ok [OF assms(1,3)] assms(4-9)] by blast

definition sample_format :: "nat num_format" where
  "sample_format = \<lparr>is_int = (\<lambda>_. True), fmt_d = (\<lambda>n. if n = 7 then ''7'' else ''?''), fmt_f = (\<lambda>_. [])\<rparr>"

definition sample_doc :: doc where
  "sample_doc = Item ''Hi '' Tag ''name'' (Sec [] ''xs'' (Item ''<'' Partial ''p'' End) ''>'' End)"

definition sample_files :: file_system where
  "sample_files p = (if p = ''r/p'' then Some (1, ''{{&v}}'') else None)"

definition sample_docs :: "string \<Rightarrow> (doc \<times> string) option" where
  "sample_docs n = (if n = ''p'' then Some (Item [] UnEscapeTag ''v'' End, []) else None)"

lemma sample_tags:
  "sign_tag [] ''_'' ''name'' ''{{ name}}''" "sign_tag ''#'' ''_'' ''xs'' ''{{#xs}}''" "sign_tag ''&'' ''_'' ''v'' ''{{&v}}''"
  "sign_tag ''/'' ''_'' ''xs'' ''{{/xs}}''" "sign_tag ''>'' ''/._'' ''p'' ''{{>p}}''" "sign_tag ''>'' ''/._'' ''q'' ''{{>q}}''"
  unfolding sign_tag_def
  by (intro conjI exI [of _ "'' ''"] exI [of _ "[]"]; simp add: ident_def blank_def char_class_defs;
      intro exI [of _ "[]"]; simp add: blank_def)+

lemma sample_doc_text:
  "doc_text sample_doc (''Hi '' @ ''{{ name}}'' @ ([] @ ''{{#xs}}'' @ (''<'' @ ''{{>p}}'' @ []) @ ''>'' @ ''{{/xs}}'' @ []))"
  "doc_text (Item [] UnEscapeTag ''v'' End) ([] @ ''{{&v}}'' @ [])" "doc_text (Item [] Partial ''q'' End) ([] @ ''{{>q}}'' @ [])"
  unfolding sample_doc_def by (intro doc_text.intros; use sample_tags in \<open>simp add: item_src_def\<close>)+

lemma sample_dir: "template_dir sample_files ''r'' sample_docs 1"
  using sample_doc_text(2) by (auto simp: template_dir_def sample_files_def sample_docs_def)

lemma sample_history:
  "records (\<lambda>p t. if t = 1 \<and> p = ''r/p'' then Some ''{{&v}}'' else None) sample_files"
  "\<forall>p t s. (if t = (1 :: int) \<and> p = ''r/p'' then Some ''{{&v}}'' else None) = Some s \<longrightarrow> is_ok (parse s)"
proof -
  have "is_ok (parse ''{{&v}}'')" by code_simp
  then show "\<forall>p t s. (if t = (1 :: int) \<and> p = ''r/p'' then Some ''{{&v}}'' else None) = Some s \<longrightarrow> is_ok (parse s)" by simp
qed (simp add: records_def sample_files_def)

lemmas sample_simps = sample_doc_def sample_docs_def sample_format_def item_text_def obj_get_def is_object_def find_member_def
  obj_empty_def is_array_def obj_elements_def value_text_def obj_type_def obj_double_def obj_cstr_def escape_html_def escape_char_def

lemma sample_cache: "cache_ok h ''r'' (new_cache ''r'')"
  by (simp add: cache_ok_def new_cache_def)

lemma sample_within: "includes_within 1 sample_docs sample_doc" "includes_within 1 sample_docs (Item [] Partial ''q'' End)"
  "sections_ok sample_doc"
  by (auto simp: sample_doc_def sample_docs_def)

text \<open>The file of \<open>p\<close> is there and the one of \<open>q\<close> is not.\<close>

theorem mustache_renders_witness:
  "(\<exists>m c. parse ''Hi {{ name}}{{#xs}}<{{>p}}>{{/xs}}!'' = Inr m \<and>
     render 9 (loader sample_files) sample_format m
       (Some (JObject [(''name'', JString ''<A>''), (''xs'', JArray [JObject [(''v'', JNumber 7)], JObject [(''v'', JBool True)]])]))
       (new_cache ''r'') = Inr (''Hi &lt;A&gt;<7><true>!'', c)) \<and>
   (\<exists>m. parse ''{{>q}}'' = Inr m \<and>
     render 9 (loader sample_files) sample_format m None (new_cache ''r'') = Inl MustacheParseError)"
proof
  show "\<exists>m c. parse ''Hi {{ name}}{{#xs}}<{{>p}}>{{/xs}}!'' = Inr m \<and>
     render 9 (loader sample_files) sample_format m
       (Some (JObject [(''name'', JString ''<A>''), (''xs'', JArray [JObject [(''v'', JNumber 7)], JObject [(''v'', JBool True)]])]))
       (new_cache ''r'') = Inr (''Hi &lt;A&gt;<7><true>!'', c)"
    using mustache_renders [OF sample_doc_text(1) _ sample_within(3) sample_dir sample_within(1) sample_history sample_cache,
        of "''!''" 9 sample_format
        "Some (JObject [(''name'', JString ''<A>''), (''xs'', JArray [JObject [(''v'', JNumber 7)], JObject [(''v'', JBool True)]])])"]
    by (auto simp: sample_simps)
  show "\<exists>m. parse ''{{>q}}'' = Inr m \<and> render 9 (loader sample_files) sample_format m None (new_cache ''r'') = Inl MustacheParseError"
    using mustache_renders [OF sample_doc_text(3) _ _ sample_dir sample_within(2) sample_history sample_cache, of "[]" 9 sample_format None]
    by (auto simp: sample_simps)
qed

text \<open>C10: memory and termination. The parser reads outside the template's memory only when the template
  ends in a comment of which nothing but one brace has been written; whatever it accepts, rendering
  (without includes) never takes a fragment that is not there and ends within as many nested calls as
  there are fragments, and two.\<close>

theorem mustache_memory:
  "(parse body = Inl OutOfBoundsRead \<longrightarrow> (\<exists>pre w. body = pre @ ''{{'' @ w @ ''!}'' \<and> blank w)) \<and>
   (\<forall>m. parse body = Inr m \<longrightarrow> template_ok m \<and>
      (no_partial m \<longrightarrow> length (m_fragments m) + 2 \<le> f \<longrightarrow>
         render f load nf m ctx c \<noteq> Inl OutOfBoundsRead \<and> render f load nf m ctx c \<noteq> Inl StackExhausted))"
proof -
  have "render f load nf m ctx c \<noteq> Inl OutOfBoundsRead \<and> render f load nf m ctx c \<noteq> Inl StackExhausted"
    if m: "template_ok m" "no_partial m" "length (m_fragments m) + 2 \<le> f" for m
  proof -
    have "sound 0 (render_internal f load nf m ctx 0 [] c)" using m by (intro render_internal_sound) auto
    then show ?thesis by (cases "render_internal f load nf m ctx 0 [] c") (auto simp: render_def)
  qed
  then show ?thesis using parse_template_ok [of body] by blast
qed

theorem mustache_memory_witness:
  "parse ''{{!}'' = Inl OutOfBoundsRead \<and> (\<exists>pre w. ''{{!}'' = pre @ ''{{'' @ w @ ''!}'' \<and> blank w) \<and>
   (\<exists>m. parse ''ab'' = Inr m \<and> template_ok m \<and>
     render 9 (\<lambda>_ _. Inl MustacheParseError) sample_format m None () \<noteq> Inl OutOfBoundsRead)"
proof -
  have "parse ''{{!}'' = Inl OutOfBoundsRead" by code_simp
  moreover have "case parse ''ab'' of Inl _ \<Rightarrow> False | Inr m \<Rightarrow> no_partial m \<and> length (m_fragments m) + 2 \<le> 9" by code_simp
  then obtain m where "parse ''ab'' = Inr m" "no_partial m" "length (m_fragments m) + 2 \<le> 9" by (auto split: sum.splits)
  ultimately show ?thesis using mustache_memory [of "''{{!}''" 0 "\<lambda>_ _. Inl MustacheParseError" sample_format None "()"]
    mustache_memory [of "''ab''" 9 "\<lambda>_ _. Inl MustacheParseError" sample_format None "()"] by blast
qed

text \<open>C23: the cache cannot be seen. As long as every text a template file has had parses and a file
  that changes changes its modification time (which is not the epoch), whatever is loaded, in whatever
  order and however the files change in between, every load gives the template of the file as it is.\<close>

theorem cache_transparent:
  assumes "\<forall>(fs, name) \<in> set loads. records h fs" "\<forall>p t s. h p t = Some s \<longrightarrow> is_ok (parse s)"
  shows "load_all loads (new_cache root) = map (\<lambda>(fs, name). current root fs name) loads"
proof -
  have "load_all loads c = map (\<lambda>(fs, name). current root fs name) loads" if "cache_ok h root c" for c
    using assms(1) that
  proof (induction loads arbitrary: c)
    case (Cons l loads)
    obtain fs name where l: "l = (fs, name)" by (cases l)
    then obtain c' where "cache_load fs name c = (current root fs name, c')" "cache_ok h root c'"
      using cache_load_current [OF _ assms(2) Cons.prems(2), of fs name] Cons.prems(1) by auto
    then show ?case using Cons.IH [of c'] Cons.prems(1) l by simp
  qed simp
  then show ?thesis by (simp add: cache_ok_def new_cache_def)
qed

theorem cache_transparent_witness:
  "load_all [(\<lambda>p. Some (1, ''a''), ''t''), (\<lambda>p. Some (2, ''b''), ''t''), (\<lambda>p. None, ''t'')] (new_cache ''r'') =
   [parse ''a'', parse ''b'', Inl MustacheParseError]"
proof -
  let ?h = "\<lambda>(p :: string) (t :: int). if t = 1 then Some ''a'' else if t = 2 then Some ''b'' else None"
  have "is_ok (parse ''a'')" "is_ok (parse ''b'')" by code_simp+
  then show ?thesis
    using cache_transparent [of "[(\<lambda>p. Some (1, ''a''), ''t''), (\<lambda>p. Some (2, ''b''), ''t''), (\<lambda>p. None, ''t'')]" ?h "''r''"]
    by (simp add: records_def current_def)
qed

text \<open>A file that does not parse is reported once: the time is kept, and the next load gives the template
  that was there before.\<close>

lemma cache_stale:
  assumes "ca_cached c name = Some e" "fs (ce_path e) = Some (t, s)" "t \<noteq> ce_last_mod e" "parse s = Inl x"
  shows "load_all [(fs, name), (fs, name)] c = [Inl x, Inr (ce_tmpl e)]"
  using assms by (simp add: cache_load_def reload_def)

end
