(* ===== verification/Query_String.thy ===== *)
theory Query_String
  imports Url
begin

text \<open>
  Query strings of the HTTP server, \<open>libs/http/src/server/qs.cpp\<close> and \<open>qs.hpp\<close>. The parser keeps
  pointers into a copy of the URL and decodes the values in place: the copy is the list of its
  characters, terminator included, a pointer is a position in it. Reading or writing outside the list,
  and taking a pointer outside the array of pointers, is an out-of-bounds access.
\<close>

section \<open>Memory\<close>

definition rd :: "string \<Rightarrow> nat \<Rightarrow> char result" where
  "rd m p = (if p < length m then Inr (m ! p) else Inl OutOfBoundsRead)"

definition wr :: "string \<Rightarrow> nat \<Rightarrow> char \<Rightarrow> string result" where
  "wr m p c = (if p < length m then Inr (m[p := c]) else Inl OutOfBoundsWrite)"

text \<open>\<open>strcspn\<close> at a pointer.\<close>

definition cspn :: "string \<Rightarrow> nat \<Rightarrow> string \<Rightarrow> nat" where
  "cspn m p rej = strcspn (drop p m) rej"

definition qs_is_chr :: "char \<Rightarrow> bool" where
  "qs_is_chr c \<longleftrightarrow> c \<notin> {CHR ''='', CHR ''#'', CHR ''&'', NUL}"

definition qs_hex2dec :: "char \<Rightarrow> nat" where
  "qs_hex2dec c =
     (if 48 \<le> ord c \<and> ord c \<le> 57 then ord c - 48
      else if 65 \<le> ord c \<and> ord c \<le> 70 then ord c - 55
      else if 97 \<le> ord c \<and> ord c \<le> 102 then ord c - 87
      else 0)"

definition qs_hex_char :: "char \<Rightarrow> char \<Rightarrow> char" where
  "qs_hex_char a b = char_of (qs_hex2dec a * 16 + qs_hex2dec b)"

section \<open>Comparison\<close>

text \<open>One step of \<open>qs_strncmp\<close> on one of its strings: the character and the pointer behind it.\<close>

definition qs_unit :: "string \<Rightarrow> nat \<Rightarrow> (char \<times> nat) result" where
  "qs_unit m p =
     rbind (rd m p) (\<lambda>c.
       let u = (if \<not> qs_is_chr c then NUL else c); u = (if u = CHR ''+'' then CHR '' '' else u) in
       if u = CHR ''%'' then
         rbind (rd m (p + 1)) (\<lambda>unyb. rbind (rd m (p + 2)) (\<lambda>lnyb.
           Inr (if is_xdigit unyb \<and> is_xdigit lnyb then qs_hex_char unyb lnyb else NUL, p + 3)))
       else Inr (u, p + 1))"

fun qs_strncmp :: "string \<Rightarrow> nat \<Rightarrow> string \<Rightarrow> nat \<Rightarrow> nat \<Rightarrow> int result" where
  "qs_strncmp sm s qm qs 0 = rbind (rd qm qs) (\<lambda>c. Inr (if qs_is_chr c then -1 else 0))"
| "qs_strncmp sm s qm qs (Suc n) =
     rbind (qs_unit sm s) (\<lambda>(u1, s1).
     rbind (qs_unit qm qs) (\<lambda>(u2, qs1).
       if u1 \<noteq> u2 then Inr (int (ord u1) - int (ord u2))
       else if u1 = NUL then Inr 0
       else qs_strncmp sm s1 qm qs1 n))"

section \<open>Parsing\<close>

function qs_decode_loop :: "string \<Rightarrow> nat \<Rightarrow> nat \<Rightarrow> string result" where
  "qs_decode_loop m i j =
     (case rd m j of
        Inl e \<Rightarrow> Inl e
      | Inr c \<Rightarrow>
          if \<not> qs_is_chr c then wr m i NUL
          else if c = CHR ''+'' then
            (case wr m i (CHR '' '') of Inl e \<Rightarrow> Inl e | Inr m1 \<Rightarrow> qs_decode_loop m1 (i + 1) (j + 1))
          else if c = CHR ''%'' then
            (case rd m (j + 1) of
               Inl e \<Rightarrow> Inl e
             | Inr a \<Rightarrow>
                 if \<not> is_xdigit a then wr m i NUL
                 else (case rd m (j + 2) of
                         Inl e \<Rightarrow> Inl e
                       | Inr b \<Rightarrow>
                           if \<not> is_xdigit b then wr m i NUL
                           else (case wr m i (qs_hex_char a b) of
                                   Inl e \<Rightarrow> Inl e
                                 | Inr m1 \<Rightarrow> qs_decode_loop m1 (i + 1) (j + 3))))
          else (case wr m i c of Inl e \<Rightarrow> Inl e | Inr m1 \<Rightarrow> qs_decode_loop m1 (i + 1) (j + 1)))"
  by pat_completeness auto
termination
  by (relation "measure (\<lambda>(m, i, j). length m - j)") (auto simp: rd_def wr_def split: if_splits)

declare qs_decode_loop.simps [simp del]

definition qs_decode :: "string \<Rightarrow> nat \<Rightarrow> string result" where
  "qs_decode m p = qs_decode_loop m p p"

text \<open>The loop that finds the pairs: \<open>n\<close> places of the array are left (the length of a pair is kept in an
  \<open>int\<close>: pairs are shorter than \<open>2 ^ 31\<close> characters here). The flag says whether the loop
  ended at the end of the string; otherwise the array is full.\<close>

fun find_pairs :: "string \<Rightarrow> nat \<Rightarrow> nat \<Rightarrow> (nat list \<times> bool) result" where
  "find_pairs m 0 p = Inr ([], False)"
| "find_pairs m (Suc n) p =
     rbind (rd m (p + cspn m p ''&'')) (\<lambda>c.
       if c = NUL then Inr ([p], True)
       else rbind (find_pairs m n (p + cspn m p ''&'' + 1)) (\<lambda>(ps, ended). Inr (p # ps, ended)))"

fun decode_pairs :: "string \<Rightarrow> nat list \<Rightarrow> string result" where
  "decode_pairs m [] = Inr m"
| "decode_pairs m (p # ps) =
     (let q = p + cspn m p ''=&#'' in
      rbind (rd m q) (\<lambda>c.
      rbind (if c = CHR ''&'' \<or> c = NUL then wr m q NUL else qs_decode m (q + 1)) (\<lambda>m1.
      decode_pairs m1 ps)))"

text \<open>The count goes one beyond the array when the array is full: the pointer behind it is followed.\<close>

definition qs_parse :: "string \<Rightarrow> nat \<Rightarrow> (string \<times> nat list) result" where
  "qs_parse m cap =
     (let p = cspn m 0 ''?#'' in
      rbind (rd m p) (\<lambda>c.
        if c = NUL then Inr (m, [])
        else
          rbind (find_pairs m cap (p + 1)) (\<lambda>(ps, ended).
          rbind (decode_pairs m ps) (\<lambda>m1.
            if ended then Inr (m1, ps) else Inl OutOfBoundsRead))))"

section \<open>Lookups\<close>

fun qs_k2v :: "string \<Rightarrow> string \<Rightarrow> nat list \<Rightarrow> nat \<Rightarrow> nat option result" where
  "qs_k2v key m [] n = Inr None"
| "qs_k2v key m (p # ps) n =
     rbind (qs_strncmp (key @ [NUL]) 0 m p (length key)) (\<lambda>r.
       if r = 0 then
         let skip = cspn m p ''='' in
         rbind (rd m (p + skip)) (\<lambda>c.
           let skip = (if c = CHR ''='' then skip + 1 else skip) in
           if n = 0 then Inr (Some (p + skip)) else qs_k2v key m ps (n - 1))
       else qs_k2v key m ps n)"

record query =
  q_url :: "string option"
  q_params :: "nat list"

definition max_arguments :: nat where
  "max_arguments = 256"

definition query_string :: "string \<Rightarrow> query result" where
  "query_string sv =
     (if sv = [] then Inr \<lparr>q_url = None, q_params = []\<rparr>
      else rbind (qs_parse (c_str sv @ [NUL]) max_arguments) (\<lambda>(m, ps). Inr \<lparr>q_url = Some m, q_params = ps\<rparr>))"

definition query_clear :: "query \<Rightarrow> query" where
  "query_clear q = \<lparr>q_url = None, q_params = []\<rparr>"

definition query_move :: "query \<Rightarrow> query \<times> query" where
  "query_move q = (q, \<lparr>q_url = None, q_params = []\<rparr>)"

definition query_mem :: "query \<Rightarrow> string" where
  "query_mem q = (case q_url q of None \<Rightarrow> [] | Some m \<Rightarrow> m)"

text \<open>The string at a pointer goes up to the terminator.\<close>

definition query_get :: "query \<Rightarrow> string \<Rightarrow> string option result" where
  "query_get q name =
     (if q_params q = [] then Inr None
      else rbind (qs_k2v (c_str name) (query_mem q) (q_params q) 0) (\<lambda>r.
        Inr (map_option (\<lambda>p. c_str (drop p (query_mem q))) r)))"

text \<open>\<open>getAll\<close> asks for the first, the second, ... of the values until there is none: \<open>fuel\<close> is one more
  than there are parameters.\<close>

fun get_all_loop :: "nat \<Rightarrow> query \<Rightarrow> string \<Rightarrow> nat \<Rightarrow> string list result option" where
  "get_all_loop 0 q search count = None"
| "get_all_loop (Suc fuel) q search count =
     (case qs_k2v search (query_mem q) (q_params q) count of
        Inl e \<Rightarrow> Some (Inl e)
      | Inr None \<Rightarrow> Some (Inr [])
      | Inr (Some p) \<Rightarrow>
          map_option (\<lambda>r. rbind r (\<lambda>all. Inr (c_str (drop p (query_mem q)) # all))) (get_all_loop fuel q search (count + 1)))"

definition query_get_all :: "query \<Rightarrow> string \<Rightarrow> string list result option" where
  "query_get_all q name = get_all_loop (length (q_params q) + 1) q (c_str (name @ ''[]'')) 0"

section \<open>Texts in memory\<close>

lemma strcspn_until:
  "set t \<inter> insert NUL (set rej) = {} \<Longrightarrow> c \<in> insert NUL (set rej) \<Longrightarrow> strcspn (t @ c # r) rej = length t"
  by (induction t) auto

lemma cspn_at:
  "m = A @ t @ c # r \<Longrightarrow> set t \<inter> insert NUL (set rej) = {} \<Longrightarrow> c \<in> insert NUL (set rej) \<Longrightarrow>
   cspn m (length A) rej = length t \<and> rd m (length A + length t) = Inr c"
  by (auto simp: cspn_def strcspn_until rd_def nth_append)

lemma rd_at: "rd (A @ c # r) (length A) = Inr c"
  by (simp add: rd_def)

lemma wr_at: "wr (A @ c # r) (length A) x = Inr (A @ x # r)"
  by (simp add: wr_def list_update_append)

text \<open>What decoding a value gives: up to a malformed escape.\<close>

fun decoded :: "string \<Rightarrow> string" where
  "decoded [] = []"
| "decoded (c # s) =
     (if c = CHR ''+'' then CHR '' '' # decoded s
      else if c = CHR ''%'' then
        (case s of a # b # r \<Rightarrow> if is_xdigit a \<and> is_xdigit b then qs_hex_char a b # decoded r else [] | _ \<Rightarrow> [])
      else c # decoded s)"

lemma decoded_length: "length (decoded s) \<le> length s"
  by (induction s rule: decoded.induct) (auto split: list.splits intro!: le_SucI)

lemma chr_not_hex: "\<not> qs_is_chr c \<Longrightarrow> \<not> is_xdigit c"
  by (auto simp: qs_is_chr_def char_class_defs)

lemma wr_gap:
  assumes "x = length A" "G @ t \<noteq> []"
  shows "wr (A @ G @ t @ r) x c = Inr ((A @ [c]) @ tl (G @ t) @ r)"
proof -
  obtain g w where "G @ t = g # w" using assms(2) by (cases "G @ t") auto
  then have e: "A @ G @ t @ r = A @ g # (w @ r)" "tl (G @ t) = w" by (metis append.assoc append_Cons, simp)
  show ?thesis unfolding e assms(1) using wr_at [of A g "w @ r" c] by simp
qed

lemma qs_decode_value:
  assumes "list_all qs_is_chr v" "\<not> qs_is_chr s"
  shows "\<exists>G'. qs_decode_loop (A @ G @ v @ s # B) (length A) (length A + length G) = Inr (A @ decoded v @ NUL # G' @ B) \<and>
    length G' + length (decoded v) = length G + length v"
  using assms(1)
proof (induction v arbitrary: A G rule: decoded.induct)
  case 1
  have r: "rd (A @ G @ s # B) (length A + length G) = Inr s" using rd_at [of "A @ G" s B] by simp
  have w: "wr (A @ G @ s # B) (length A) NUL = Inr ((A @ [NUL]) @ tl (G @ [s]) @ B)"
    using wr_gap [of "length A" A G "[s]" B NUL] by simp
  show ?case using assms(2) r w by (subst qs_decode_loop.simps) (auto simp: intro!: exI [of _ "tl (G @ [s])"])
next
  case (2 c v)
  have c: "qs_is_chr c" and v: "list_all qs_is_chr v" using "2.prems" by simp_all
  have r: "rd (A @ G @ (c # v) @ s # B) (length A + length G) = Inr c"
    using rd_at [of "A @ G" c "v @ s # B"] by simp
  have stop: "wr (A @ G @ (c # v) @ s # B) (length A) NUL = Inr (A @ NUL # (tl (G @ c # v) @ [s]) @ B)"
    using wr_gap [of "length A" A G "c # v" "s # B" NUL] by simp
  have one: "wr (A @ G @ (c # v) @ s # B) (length A) x = Inr ((A @ [x]) @ tl (G @ [c]) @ v @ s # B)" for x
    using wr_gap [of "length A" A G "[c]" "v @ s # B" x] by simp
  have len: "length A + 1 = length (A @ [x])" "length A + length G + 1 = length (A @ [x]) + length (tl (G @ [c]))" for x
    by simp_all
  show ?case
  proof (cases "c = CHR ''%''")
    case False
    let ?x = "if c = CHR ''+'' then CHR '' '' else c"
    have "\<exists>G'. qs_decode_loop ((A @ [?x]) @ tl (G @ [c]) @ v @ s # B) (length (A @ [?x])) (length (A @ [?x]) + length (tl (G @ [c]))) =
        Inr ((A @ [?x]) @ decoded v @ NUL # G' @ B) \<and> length G' + length (decoded v) = length (tl (G @ [c])) + length v"
    proof (cases "c = CHR ''+''")
      case True
      then show ?thesis using "2.IH"(1) [OF True v, of "A @ [?x]" "tl (G @ [c])"] by simp
    next
      case no: False
      then show ?thesis using "2.IH"(3) [OF no False v, of "A @ [?x]" "tl (G @ [c])"] by simp
    qed
    then obtain G' where G': "qs_decode_loop ((A @ [?x]) @ tl (G @ [c]) @ v @ s # B) (length A + 1) (length A + length G + 1) =
        Inr ((A @ [?x]) @ decoded v @ NUL # G' @ B)" "length G' + length (decoded v) = length (tl (G @ [c])) + length v"
      using len [of ?x] by auto
    have "qs_decode_loop (A @ G @ (c # v) @ s # B) (length A) (length A + length G) =
        qs_decode_loop ((A @ [?x]) @ tl (G @ [c]) @ v @ s # B) (length A + 1) (length A + length G + 1)"
      using r one [of ?x] c False by (subst qs_decode_loop.simps) auto
    then show ?thesis using G' False by auto
  next
    case pc: True
    show ?thesis
    proof (cases "\<exists>a b w. v = a # b # w \<and> is_xdigit a \<and> is_xdigit b")
      case True
      then obtain a b w where w: "v = a # b # w" "is_xdigit a" "is_xdigit b" by blast
      let ?x = "qs_hex_char a b"
      have wv: "list_all qs_is_chr w" using v w(1) by simp
      have G3: "tl (G @ [c, a, b]) @ w @ s # B = tl (G @ [c]) @ v @ s # B" using w(1) by (cases G) auto
      obtain G' where G': "qs_decode_loop ((A @ [?x]) @ tl (G @ [c, a, b]) @ w @ s # B) (length (A @ [?x]))
            (length (A @ [?x]) + length (tl (G @ [c, a, b]))) = Inr ((A @ [?x]) @ decoded w @ NUL # G' @ B)"
          "length G' + length (decoded w) = length (tl (G @ [c, a, b])) + length w"
        using "2.IH"(2) [of a "b # w" b w "A @ [?x]" "tl (G @ [c, a, b])"] w pc wv by auto
      have r1: "rd (A @ G @ (c # v) @ s # B) (length A + length G + 1) = Inr a" "rd (A @ G @ (c # v) @ s # B) (length A + length G + 2) = Inr b"
        using rd_at [of "A @ G @ [c]" a "b # w @ s # B"] rd_at [of "A @ G @ [c, a]" b "w @ s # B"] w(1) by simp_all
      have "qs_decode_loop (A @ G @ (c # v) @ s # B) (length A) (length A + length G) =
          qs_decode_loop ((A @ [?x]) @ tl (G @ [c]) @ v @ s # B) (length A + 1) (length A + length G + 3)"
        using r r1 one [of ?x] c pc w(2,3) by (subst qs_decode_loop.simps) simp
      then show ?thesis using G' G3 pc w by (auto simp: numeral_3_eq_3)
    next
      case False
      have "qs_decode_loop (A @ G @ (c # v) @ s # B) (length A) (length A + length G) = wr (A @ G @ (c # v) @ s # B) (length A) NUL"
      proof (cases v)
        case Nil
        then have "rd (A @ G @ (c # v) @ s # B) (length A + length G + 1) = Inr s" using rd_at [of "A @ G @ [c]" s B] by simp
        then show ?thesis using r c pc chr_not_hex [OF assms(2)] by (subst qs_decode_loop.simps) simp
      next
        case (Cons a w)
        then have a: "rd (A @ G @ (c # v) @ s # B) (length A + length G + 1) = Inr a"
          using rd_at [of "A @ G @ [c]" a "w @ s # B"] by simp
        obtain b u where b: "w @ s # B = b # u" by (cases "w @ s # B") auto
        have b1: "rd (A @ G @ (c # v) @ s # B) (length A + length G + 2) = Inr b"
          using rd_at [of "A @ G @ [c, a]" b u] Cons b by simp
        have "\<not> (is_xdigit a \<and> is_xdigit b)" using False Cons b chr_not_hex [OF assms(2)] by (cases w) auto
        then show ?thesis using r c pc a b1 by (subst qs_decode_loop.simps) auto
      qed
      moreover have "decoded (c # v) = []" using False pc by (auto split: list.splits)
      ultimately show ?thesis using stop by (intro exI [of _ "tl (G @ c # v) @ [s]"]) simp
    qed
  qed
qed

section \<open>Queries\<close>

type_synonym pair = "string \<times> string"

fun pair_text :: "pair \<Rightarrow> string" where
  "pair_text (k, v) = k @ ''='' @ v"

fun join_pairs :: "pair list \<Rightarrow> string" where
  "join_pairs [] = []"
| "join_pairs [p] = pair_text p"
| "join_pairs (p # q # ps) = pair_text p @ ''&'' @ join_pairs (q # ps)"

fun pair_ok :: "pair \<Rightarrow> bool" where
  "pair_ok (k, v) \<longleftrightarrow> list_all qs_is_chr k \<and> list_all qs_is_chr v"

definition frag_ok :: "string \<Rightarrow> bool" where
  "frag_ok f \<longleftrightarrow> f = [] \<or> hd f = CHR ''#'' \<and> CHR ''&'' \<notin> set f \<and> NUL \<notin> set f"

text \<open>A piece is a pair with what follows it up to the next \<open>&\<close>: nothing, or a \<open>#\<close> and more. The fragment
  of a URL begins with the first \<open>#\<close>; the parser looks for \<open>&\<close> only.\<close>

type_synonym piece = "pair \<times> string"

fun piece_ok :: "piece \<Rightarrow> bool" where
  "piece_ok (p, f) \<longleftrightarrow> pair_ok p \<and> frag_ok f"

fun join_pieces :: "piece list \<Rightarrow> string" where
  "join_pieces [] = []"
| "join_pieces [(p, f)] = pair_text p @ f"
| "join_pieces ((p, f) # q # ps) = pair_text p @ f @ ''&'' @ join_pieces (q # ps)"

text \<open>Pairs with a fragment behind the last one.\<close>

fun frag_pieces :: "pair list \<Rightarrow> string \<Rightarrow> piece list" where
  "frag_pieces [] f = []"
| "frag_pieces [p] f = [(p, f)]"
| "frag_pieces (p # q # ps) f = (p, []) # frag_pieces (q # ps) f"

lemma frag_pieces_facts:
  "ps \<noteq> [] \<Longrightarrow> join_pieces (frag_pieces ps f) = join_pairs ps @ f"
  "map fst (frag_pieces ps f) = ps"
  "list_all pair_ok ps \<Longrightarrow> frag_ok f \<Longrightarrow> list_all piece_ok (frag_pieces ps f)"
  "ps \<noteq> [] \<Longrightarrow> frag_pieces ps f \<noteq> []"
proof (induction ps f rule: frag_pieces.induct)
  case (3 p q ps f)
  obtain x xs where "frag_pieces (q # ps) f = x # xs" using "3.IH"(4) by (cases "frag_pieces (q # ps) f") auto
  note x = this
  {
    case 1
    then show ?case using "3.IH"(1) x by simp
  next
    case 2
    then show ?case using "3.IH"(2) by simp
  next
    case 3
    then show ?case using "3.IH"(3) by (simp add: frag_ok_def)
  next
    case 4
    then show ?case by simp
  }
qed (auto simp: frag_ok_def)

fun starts :: "nat \<Rightarrow> piece list \<Rightarrow> nat list" where
  "starts p [] = []"
| "starts p (((k, v), f) # ps) = p # starts (p + (length k + length v + length f + 2)) ps"

lemma length_starts [simp]: "length (starts p ps) = length ps"
  by (induction p ps rule: starts.induct) simp_all

lemma is_chr_set: "list_all qs_is_chr t \<Longrightarrow> set t \<inter> {CHR ''='', CHR ''#'', CHR ''&'', NUL} = {}"
  by (auto simp: list_all_iff qs_is_chr_def)

lemma piece_no_amp: "piece_ok (p, f) \<Longrightarrow> set (pair_text p @ f) \<inter> insert NUL (set ''&'') = {}"
  using is_chr_set [of "fst p"] is_chr_set [of "snd p"] by (cases p) (auto simp: frag_ok_def)

lemma find_pairs_join:
  "ps \<noteq> [] \<Longrightarrow> list_all piece_ok ps \<Longrightarrow>
   find_pairs (A @ join_pieces ps @ [NUL]) n (length A) = Inr (take n (starts (length A) ps), length ps \<le> n)"
proof (induction ps arbitrary: A n rule: join_pieces.induct)
  case (2 p f)
  show ?case
  proof (cases n)
    case (Suc n')
    have "piece_ok (p, f)" using "2.prems"(2) by simp
    from cspn_at [of "A @ join_pieces [(p, f)] @ [NUL]" A "pair_text p @ f" NUL "[]" "''&''", OF _ piece_no_amp [OF this]]
    show ?thesis using Suc by (cases p) simp
  qed simp
next
  case (3 p f q ps)
  obtain k v where p: "p = (k, v)" by (cases p)
  show ?case
  proof (cases n)
    case (Suc n')
    let ?m = "A @ join_pieces ((p, f) # q # ps) @ [NUL]"
    let ?A = "A @ pair_text p @ f @ ''&''"
    have "piece_ok (p, f)" using "3.prems"(2) by simp
    from cspn_at [of ?m A "pair_text p @ f" "CHR ''&''" "join_pieces (q # ps) @ [NUL]" "''&''", OF _ piece_no_amp [OF this]]
    have c: "cspn ?m (length A) ''&'' = length (pair_text p @ f)" "rd ?m (length A + length (pair_text p @ f)) = Inr (CHR ''&'')" by simp_all
    have "find_pairs (?A @ join_pieces (q # ps) @ [NUL]) n' (length ?A) = Inr (take n' (starts (length ?A) (q # ps)), length (q # ps) \<le> n')"
      using "3.prems" by (intro "3.IH") simp_all
    moreover have "?m = ?A @ join_pieces (q # ps) @ [NUL]" "length A + length (pair_text p @ f) + 1 = length ?A"
        "length A + (length k + length v + length f + 2) = length ?A" using p by simp_all
    ultimately show ?thesis using c Suc p by (simp add: add.assoc del: starts.simps(1))
  qed simp
qed simp

definition cell_of :: "piece \<Rightarrow> string \<Rightarrow> bool" where
  "cell_of p c \<longleftrightarrow> (case p of ((k, v), f) \<Rightarrow>
     (\<exists>G. c = k @ ''='' @ decoded v @ NUL # G) \<and> length c = length k + length v + length f + 2)"

lemma decode_pair:
  assumes "piece_ok ((k, v), f)" "\<not> qs_is_chr s"
  shows "\<exists>c. decode_pairs (A @ (pair_text (k, v) @ f) @ s # B) (length A # ps) = decode_pairs (A @ c @ B) ps \<and> cell_of ((k, v), f) c"
proof -
  let ?m = "A @ (pair_text (k, v) @ f) @ s # B"
  have k: "set k \<inter> insert NUL (set ''=&#'') = {}" using assms(1) is_chr_set [of k] by auto
  have c: "cspn ?m (length A) ''=&#'' = length k" "rd ?m (length A + length k) = Inr (CHR ''='')"
    using cspn_at [of ?m A k "CHR ''=''" "v @ f @ s # B" "''=&#''", OF _ k] by simp_all
  have v: "list_all qs_is_chr v" using assms(1) by simp
  obtain t T where t: "f @ s # B = t # T" "\<not> qs_is_chr t" "T = tl (f @ [s]) @ B"
    using assms by (cases f) (auto simp: frag_ok_def qs_is_chr_def)
  obtain G where G: "qs_decode_loop ((A @ k @ ''='') @ [] @ v @ t # T) (length (A @ k @ ''='')) (length (A @ k @ ''='') + length ([] :: string)) =
      Inr ((A @ k @ ''='') @ decoded v @ NUL # G @ T)" "length G + length (decoded v) = length v"
    using qs_decode_value [OF v t(2), of "A @ k @ ''=''" "[]" T] by auto
  let ?c = "k @ ''='' @ decoded v @ NUL # G @ tl (f @ [s])"
  have m: "?m = (A @ k @ ''='') @ [] @ v @ t # T" using t(1) by simp
  have "decode_pairs ?m (length A # ps) = rbind (qs_decode ?m (length A + length k + 1)) (\<lambda>m1. decode_pairs m1 ps)"
    using c by (simp add: Let_def)
  moreover have "qs_decode ?m (length A + length k + 1) = Inr (A @ ?c @ B)"
    using G(1) t(3) unfolding m qs_decode_def by simp
  ultimately have "decode_pairs ?m (length A # ps) = decode_pairs (A @ ?c @ B) ps" by simp
  moreover have "length (tl (f @ [s])) = length f" by simp
  then have "length ?c = length k + length v + length f + 2" using G(2) by simp
  then have "cell_of ((k, v), f) ?c" by (auto simp: cell_of_def)
  ultimately show ?thesis by blast
qed

lemma decode_pairs_join:
  "ps \<noteq> [] \<Longrightarrow> list_all piece_ok ps \<Longrightarrow>
   \<exists>cells. decode_pairs (A @ join_pieces ps @ [NUL]) (starts (length A) ps) = Inr (A @ concat cells) \<and> list_all2 cell_of ps cells"
proof (induction ps arbitrary: A rule: join_pieces.induct)
  case (2 p f)
  obtain k v where p: "p = (k, v)" by (cases p)
  have "\<not> qs_is_chr NUL" by (simp add: qs_is_chr_def)
  then obtain c where "decode_pairs (A @ (pair_text (k, v) @ f) @ NUL # []) [length A] = Inr (A @ c)" "cell_of ((k, v), f) c"
    using decode_pair [of k v f NUL A "[]" "[]"] "2.prems"(2) p by auto
  then show ?case using p by (intro exI [of _ "[c]"]) simp
next
  case (3 p f q ps)
  obtain k v where p: "p = (k, v)" by (cases p)
  let ?B = "join_pieces (q # ps) @ [NUL]"
  let ?n = "length A + (length k + length v + length f + 2)"
  have "\<not> qs_is_chr (CHR ''&'')" by (simp add: qs_is_chr_def)
  then obtain c where c: "decode_pairs (A @ (pair_text (k, v) @ f) @ CHR ''&'' # ?B) (length A # starts ?n (q # ps)) = decode_pairs (A @ c @ ?B) (starts ?n (q # ps))"
      "cell_of ((k, v), f) c"
    using decode_pair [of k v f "CHR ''&''" A ?B "starts ?n (q # ps)"] "3.prems"(2) p by auto
  have n: "?n = length (A @ c)" using c(2) by (simp add: cell_of_def)
  obtain cells where r: "decode_pairs ((A @ c) @ ?B) (starts (length (A @ c)) (q # ps)) = Inr ((A @ c) @ concat cells)"
      "list_all2 cell_of (q # ps) cells"
    using "3.IH" [of "A @ c"] "3.prems" by auto
  have "decode_pairs (A @ join_pieces ((p, f) # q # ps) @ [NUL]) (starts (length A) ((p, f) # q # ps)) = Inr (A @ concat (c # cells))"
  proof -
    have "decode_pairs (A @ c @ ?B) (starts ?n (q # ps)) = Inr (A @ concat (c # cells))"
      using r(1) unfolding n by simp
    moreover have "A @ join_pieces ((p, f) # q # ps) @ [NUL] = A @ (pair_text (k, v) @ f) @ CHR ''&'' # ?B"
        "starts (length A) ((p, f) # q # ps) = length A # starts ?n (q # ps)" using p by simp_all
    ultimately show ?thesis using c(1) by simp
  qed
  then show ?case using c(2) r(2) p by (intro exI [of _ "c # cells"]) simp
qed simp

lemma decode_some:
  "ps \<noteq> [] \<Longrightarrow> list_all piece_ok ps \<Longrightarrow>
   \<exists>m. decode_pairs (A @ join_pieces ps @ [NUL]) (take n (starts (length A) ps)) = Inr m"
proof (induction ps arbitrary: A n rule: join_pieces.induct)
  case (2 p f)
  then show ?case using decode_pairs_join [of "[(p, f)]" A] by (cases n; cases p) fastforce+
next
  case (3 p f q ps)
  obtain k v where p: "p = (k, v)" by (cases p)
  show ?case
  proof (cases n)
    case (Suc n')
    let ?B = "join_pieces (q # ps) @ [NUL]"
    let ?n = "length A + (length k + length v + length f + 2)"
    have "\<not> qs_is_chr (CHR ''&'')" by (simp add: qs_is_chr_def)
    then obtain c where c: "decode_pairs (A @ (pair_text (k, v) @ f) @ CHR ''&'' # ?B) (length A # take n' (starts ?n (q # ps))) =
        decode_pairs (A @ c @ ?B) (take n' (starts ?n (q # ps)))" "cell_of ((k, v), f) c"
      using decode_pair [of k v f "CHR ''&''" A ?B] "3.prems"(2) p by fastforce
    have n: "?n = length (A @ c)" using c(2) by (simp add: cell_of_def)
    obtain m where "decode_pairs ((A @ c) @ ?B) (take n' (starts (length (A @ c)) (q # ps))) = Inr m"
      using "3.IH" [of "A @ c" n'] "3.prems" by auto
    then have "decode_pairs (A @ c @ ?B) (take n' (starts ?n (q # ps))) = Inr m" unfolding n by simp
    moreover have "A @ join_pieces ((p, f) # q # ps) @ [NUL] = A @ (pair_text (k, v) @ f) @ CHR ''&'' # ?B"
        "take n (starts (length A) ((p, f) # q # ps)) = length A # take n' (starts ?n (q # ps))" using p Suc by simp_all
    ultimately show ?thesis using c(1) by simp
  qed simp
qed simp

section \<open>Keys\<close>

fun unescape :: "string \<Rightarrow> string option" where
  "unescape [] = Some []"
| "unescape (c # s) =
     (if c = CHR ''+'' then map_option (Cons (CHR '' '')) (unescape s)
      else if c = CHR ''%'' then
        (case s of a # b # r \<Rightarrow> if is_xdigit a \<and> is_xdigit b then map_option (Cons (qs_hex_char a b)) (unescape r) else None | _ \<Rightarrow> None)
      else map_option (Cons c) (unescape s))"

definition name_ok :: "string \<Rightarrow> bool" where
  "name_ok n \<longleftrightarrow> list_all (\<lambda>c. qs_is_chr c \<and> c \<noteq> CHR ''+'' \<and> c \<noteq> CHR ''%'') n"

lemma unit_plain: "qs_is_chr c \<Longrightarrow> c \<noteq> CHR ''%'' \<Longrightarrow>
    qs_unit (A @ c # r) (length A) = Inr (if c = CHR ''+'' then CHR '' '' else c, length A + 1)"
  by (simp add: qs_unit_def rd_at Let_def)

lemma unit_stop: "\<not> qs_is_chr c \<Longrightarrow> qs_unit (A @ c # r) (length A) = Inr (NUL, length A + 1)"
  by (simp add: qs_unit_def rd_at Let_def)

lemma unit_escape: "qs_unit (A @ CHR ''%'' # a # b # r) (length A) =
    Inr (if is_xdigit a \<and> is_xdigit b then qs_hex_char a b else NUL, length A + 3)"
  using rd_at [of "A @ ''%''" a "b # r"] rd_at [of "A @ [CHR ''%'', a]" b r]
  by (simp add: qs_unit_def rd_at Let_def qs_is_chr_def)

lemma diff_zero: "int (ord c) - int (ord d) = 0 \<longleftrightarrow> c = d"
  using ord_inj by auto

lemma strncmp_key:
  "name_ok name \<Longrightarrow> list_all qs_is_chr k \<Longrightarrow>
   \<exists>r. qs_strncmp (N @ name @ [NUL]) (length N) (A @ k @ CHR ''='' # x # R) (length A) (length name) = Inr r \<and>
     (r = 0 \<longleftrightarrow> unescape k = Some name)"
proof (induction name arbitrary: N A k)
  case Nil
  show ?case
  proof (cases k)
    case Nil
    then show ?thesis by (simp add: rd_at qs_is_chr_def)
  next
    case (Cons c k')
    have "unescape k \<noteq> Some []" by (auto simp: Cons split: list.splits)
    then show ?thesis using Cons Nil.prems(2) by (simp add: rd_at del: unescape.simps)
  qed
next
  case (Cons d name)
  have d: "qs_is_chr d" "d \<noteq> CHR ''%''" "d \<noteq> CHR ''+''" "d \<noteq> NUL" and n: "name_ok name"
    using Cons.prems(1) by (auto simp: name_ok_def qs_is_chr_def)
  let ?m = "A @ k @ CHR ''='' # x # R"
  have u1: "qs_unit (N @ (d # name) @ [NUL]) (length N) = Inr (d, length (N @ [d]))"
    using unit_plain [OF d(1,2), of N "name @ [NUL]"] d(3) by simp
  have stop: "\<exists>r. qs_strncmp (N @ (d # name) @ [NUL]) (length N) ?m (length A) (length (d # name)) = Inr r \<and> (r = 0 \<longleftrightarrow> unescape k = Some (d # name))"
    if "qs_unit ?m (length A) = Inr (u, q)" "u \<noteq> d" "unescape k \<noteq> Some (d # name)" for u q
    using that u1 diff_zero [of d u] by simp
  have go: "\<exists>r. qs_strncmp (N @ (d # name) @ [NUL]) (length N) ?m (length A) (length (d # name)) = Inr r \<and> (r = 0 \<longleftrightarrow> unescape k = Some (d # name))"
    if u: "qs_unit ?m (length A) = Inr (u, length (A @ w))" and k: "k = w @ k'" and e: "unescape k = map_option (Cons u) (unescape k')" for u w k'
  proof (cases "u = d")
    case True
    have "list_all qs_is_chr k'" using Cons.prems(2) k by simp
    from Cons.IH [OF n this, of "N @ [d]" "A @ w"] obtain r where
      "qs_strncmp ((N @ [d]) @ name @ [NUL]) (length (N @ [d])) ((A @ w) @ k' @ CHR ''='' # x # R) (length (A @ w)) (length name) = Inr r"
      "r = 0 \<longleftrightarrow> unescape k' = Some name" by blast
    then show ?thesis using u u1 True d(4) k e by (intro exI [of _ r]) (auto simp del: unescape.simps)
  next
    case False
    then have "unescape k \<noteq> Some (d # name)" using e by (auto simp del: unescape.simps)
    with stop [OF u False] show ?thesis by blast
  qed
  show ?case
  proof (cases k)
    case Nil
    then show ?thesis using stop [of NUL] unit_stop [of "CHR ''=''" A "x # R"] d(4) by (simp add: qs_is_chr_def)
  next
    case k: (Cons c k')
    show ?thesis
    proof (cases "c = CHR ''%''")
      case False
      have "qs_unit ?m (length A) = Inr (if c = CHR ''+'' then CHR '' '' else c, length (A @ [c]))"
        using unit_plain [of c A "k' @ CHR ''='' # x # R"] False k Cons.prems(2) by simp
      from go [OF this, of k'] show ?thesis using k False by auto
    next
      case pc: True
      obtain a b r where abr: "k' @ CHR ''='' # x # R = a # b # r"
        by (cases k'; cases "tl k'") auto
      have u: "qs_unit ?m (length A) = Inr (if is_xdigit a \<and> is_xdigit b then qs_hex_char a b else NUL, length A + 3)"
        using unit_escape [of A a b r] abr k pc by simp
      show ?thesis
      proof (cases "\<exists>w. k' = a # b # w \<and> is_xdigit a \<and> is_xdigit b")
        case True
        then obtain w where w: "k' = a # b # w" "is_xdigit a" "is_xdigit b" by blast
        then show ?thesis using go [of "qs_hex_char a b" "[c, a, b]" w] u k pc by (simp add: numeral_3_eq_3)
      next
        case False
        have "\<not> is_xdigit (CHR ''='')" by (simp add: char_class_defs)
        then have no: "\<not> (is_xdigit a \<and> is_xdigit b)" using False abr by (cases k'; cases "tl k'") auto
        then have "unescape k = None" using k pc abr by (auto split: list.splits)
        then show ?thesis using stop [of NUL] u no d(4) by (simp del: unescape.simps)
      qed
    qed
  qed
qed

section \<open>Finding a value\<close>

text \<open>The values of the pairs with a key, decoded, in their order.\<close>

fun found :: "pair list \<Rightarrow> string \<Rightarrow> string list" where
  "found [] name = []"
| "found ((k, v) # ps) name = (if unescape k = Some name then c_str (decoded v) # found ps name else found ps name)"

lemma found_length: "length (found ps name) \<le> length ps"
  by (induction ps name rule: found.induct) auto

lemma c_str_NUL: "c_str (t @ NUL # r) = c_str t"
  by (induction t) (simp_all add: c_str_def)

definition pointed :: "string \<Rightarrow> nat option \<Rightarrow> string option" where
  "pointed m r = map_option (\<lambda>p. c_str (drop p m)) r"

lemma qs_k2v_found:
  assumes "name_ok name"
  shows "list_all piece_ok ps \<Longrightarrow> list_all2 cell_of ps cells \<Longrightarrow>
    \<exists>r. qs_k2v name (A @ concat cells) (starts (length A) ps) n = Inr r \<and>
      pointed (A @ concat cells) r = (if n < length (found (map fst ps) name) then Some (found (map fst ps) name ! n) else None)"
proof (induction ps arbitrary: A cells n)
  case Nil
  then show ?case by (simp add: pointed_def)
next
  case (Cons p ps)
  obtain k v f where p: "p = ((k, v), f)" by (cases p) auto
  obtain c cs where cells: "cells = c # cs" "cell_of p c" "list_all2 cell_of ps cs"
    using Cons.prems(2) by (auto simp: list_all2_Cons1)
  then obtain G where G: "c = k @ ''='' @ decoded v @ NUL # G" "length c = length k + length v + length f + 2"
    using p by (auto simp: cell_of_def)
  let ?m = "A @ concat cells"
  obtain x T where xT: "decoded v @ NUL # G @ concat cs = x # T" by (cases "decoded v @ NUL # G @ concat cs") auto
  have m: "?m = A @ k @ CHR ''='' # x # T" using cells(1) G(1) xT by simp
  have m': "?m = A @ k @ CHR ''='' # decoded v @ NUL # G @ concat cs" using cells(1) G(1) by simp
  have k: "list_all qs_is_chr k" using Cons.prems(1) p by simp
  obtain r where r: "qs_strncmp (name @ [NUL]) 0 ?m (length A) (length name) = Inr r" "r = 0 \<longleftrightarrow> unescape k = Some name"
    using strncmp_key [OF assms k, of "[]" A x T] m by auto
  have "set k \<inter> insert NUL (set ''='') = {}" using is_chr_set [OF k] by auto
  from cspn_at [OF m' this] have skip: "cspn ?m (length A) ''='' = length k" "rd ?m (length A + length k) = Inr (CHR ''='')" by simp_all
  have "drop (length A + (length k + 1)) ?m = decoded v @ NUL # G @ concat cs" unfolding m' by simp
  then have here: "pointed ?m (Some (length A + (length k + 1))) = Some (c_str (decoded v))" by (simp add: pointed_def c_str_NUL)
  have start: "length A + (length k + length v + length f + 2) = length (A @ c)" using G(2) by simp
  have rest: "\<exists>r. qs_k2v name ?m (starts (length A + (length k + length v + length f + 2)) ps) n' = Inr r \<and>
      pointed ?m r = (if n' < length (found (map fst ps) name) then Some (found (map fst ps) name ! n') else None)" for n'
    using Cons.IH [of cs "A @ c" n'] Cons.prems(1) cells(1,3) unfolding start by simp
  show ?case
  proof (cases "unescape k = Some name")
    case True
    then have step: "qs_k2v name ?m (starts (length A) (p # ps)) n =
        (if n = 0 then Inr (Some (length A + (length k + 1)))
         else qs_k2v name ?m (starts (length A + (length k + length v + length f + 2)) ps) (n - 1))"
      using r skip p by (simp add: Let_def)
    show ?thesis
    proof (cases n)
      case 0
      then show ?thesis using step here True p by (simp del: qs_k2v.simps)
    next
      case (Suc n')
      then show ?thesis using step rest [of n'] True p by (cases "n' < length (found (map fst ps) name)") (simp_all del: qs_k2v.simps)
    qed
  next
    case False
    then have "qs_k2v name ?m (starts (length A) (p # ps)) n = qs_k2v name ?m (starts (length A + (length k + length v + length f + 2)) ps) n"
      using r p by (simp add: Let_def)
    then show ?thesis using rest [of n] False p by (cases "n < length (found (map fst ps) name)") (simp_all del: qs_k2v.simps)
  qed
qed

lemma get_all_found:
  assumes k2v: "\<And>n. \<exists>r. qs_k2v name (query_mem q) (q_params q) n = Inr r \<and>
      pointed (query_mem q) r = (if n < length vs then Some (vs ! n) else None)"
  shows "length vs < fuel + n \<Longrightarrow> 0 < fuel \<Longrightarrow> n \<le> length vs \<Longrightarrow> get_all_loop fuel q name n = Some (Inr (drop n vs))"
proof (induction fuel arbitrary: n)
  case (Suc fuel)
  obtain r where r: "qs_k2v name (query_mem q) (q_params q) n = Inr r"
      "pointed (query_mem q) r = (if n < length vs then Some (vs ! n) else None)" using k2v by blast
  show ?case
  proof (cases "n < length vs")
    case True
    then obtain p where p: "r = Some p" "c_str (drop p (query_mem q)) = vs ! n" using r(2) by (auto simp: pointed_def)
    have "get_all_loop fuel q name (n + 1) = Some (Inr (drop (n + 1) vs))" using Suc True by (intro Suc.IH) auto
    then show ?thesis using r(1) p True by (simp add: Cons_nth_drop_Suc)
  next
    case False
    then have "r = None" using r(2) by (simp add: pointed_def)
    then show ?thesis using r(1) False by simp
  qed
qed simp

section \<open>Properties\<close>

definition query_url :: "string \<Rightarrow> pair list \<Rightarrow> string \<Rightarrow> string" where
  "query_url path ps f = path @ ''?'' @ join_pairs ps @ f"

definition path_ok :: "string \<Rightarrow> bool" where
  "path_ok path \<longleftrightarrow> set path \<inter> {CHR ''?'', CHR ''#'', NUL} = {}"

lemma join_no_NUL: "list_all piece_ok ps \<Longrightarrow> NUL \<notin> set (join_pieces ps)"
  by (induction ps rule: join_pieces.induct) (auto simp: frag_ok_def dest!: is_chr_set)

lemma query_string_split:
  assumes "path_ok path" "list_all piece_ok ps" "ps \<noteq> []"
  defines "url \<equiv> path @ ''?'' @ join_pieces ps"
  shows "query_string url =
    rbind (decode_pairs (url @ [NUL]) (take max_arguments (starts (length path + 1) ps)))
      (\<lambda>m. if length ps \<le> max_arguments then Inr \<lparr>q_url = Some m, q_params = take max_arguments (starts (length path + 1) ps)\<rparr>
           else Inl OutOfBoundsRead)"
proof -
  have "NUL \<notin> set url" using assms(1) join_no_NUL [OF assms(2)] by (auto simp: url_def path_ok_def)
  then have c: "c_str url = url" by (rule c_str_id)
  have m: "url @ [NUL] = [] @ path @ CHR ''?'' # join_pieces ps @ [NUL]" by (simp add: url_def)
  have "set path \<inter> insert NUL (set ''?#'') = {}" using assms(1) by (auto simp: path_ok_def)
  from cspn_at [OF m this] have p: "cspn (url @ [NUL]) 0 ''?#'' = length path"
      "rd (url @ [NUL]) (length path) = Inr (CHR ''?'')" by simp_all
  have "find_pairs (url @ [NUL]) max_arguments (length path + 1) =
      Inr (take max_arguments (starts (length path + 1) ps), length ps \<le> max_arguments)"
    using find_pairs_join [OF assms(3,2), of "path @ ''?''" max_arguments] by (simp add: url_def)
  moreover have "url \<noteq> []" by (simp add: url_def)
  ultimately show ?thesis using c p
    by (cases "decode_pairs (url @ [NUL]) (take max_arguments (starts (length path + 1) ps))")
      (auto simp: query_string_def qs_parse_def)
qed

lemma name_no_NUL: "name_ok name \<Longrightarrow> NUL \<notin> set name"
  by (auto simp: name_ok_def list_all_iff qs_is_chr_def)

lemma query_lookup_core:
  assumes "path_ok path" "list_all piece_ok ps" "ps \<noteq> []" "length ps \<le> 256" "name_ok name"
  shows "\<exists>q. query_string (path @ ''?'' @ join_pieces ps) = Inr q \<and>
    query_get q name = Inr (case found (map fst ps) name of [] \<Rightarrow> None | v # _ \<Rightarrow> Some v) \<and>
    query_get_all q name = Some (Inr (found (map fst ps) (name @ ''[]'')))"
proof -
  let ?A = "path @ ''?''"
  obtain cells where d: "decode_pairs (?A @ join_pieces ps @ [NUL]) (starts (length ?A) ps) = Inr (?A @ concat cells)"
      "list_all2 cell_of ps cells"
    using decode_pairs_join [OF assms(3,2), of ?A] by blast
  let ?m = "?A @ concat cells"
  let ?q = "\<lparr>q_url = Some ?m, q_params = starts (length ?A) ps\<rparr>"
  have q: "query_string (path @ ''?'' @ join_pieces ps) = Inr ?q"
    using query_string_split [OF assms(1-3)] d(1) assms(4) by (simp add: max_arguments_def)
  have all_ok: "name_ok (name @ ''[]'')" using assms(5) by (simp add: name_ok_def qs_is_chr_def)
  have k2v: "\<exists>r. qs_k2v n' (query_mem ?q) (q_params ?q) n = Inr r \<and>
      pointed (query_mem ?q) r = (if n < length (found (map fst ps) n') then Some (found (map fst ps) n' ! n) else None)" if "name_ok n'" for n' n
    using qs_k2v_found [OF that assms(2) d(2), of ?A n] by (simp add: query_mem_def)
  obtain r where r: "qs_k2v name (query_mem ?q) (q_params ?q) 0 = Inr r"
      "pointed (query_mem ?q) r = (if 0 < length (found (map fst ps) name) then Some (found (map fst ps) name ! 0) else None)"
    using k2v [OF assms(5)] by blast
  have plain_names: "c_str name = name" "c_str (name @ ''[]'') = name @ ''[]''"
    using name_no_NUL [OF assms(5)] name_no_NUL [OF all_ok] by (simp_all add: c_str_id)
  have "starts (length ?A) ps \<noteq> []" using assms(3) length_starts [of "length ?A" ps] by (metis length_0_conv)
  then have "query_get ?q name = Inr (case found (map fst ps) name of [] \<Rightarrow> None | v # _ \<Rightarrow> Some v)"
    using r by (cases "found (map fst ps) name") (simp_all add: query_get_def pointed_def plain_names)
  moreover have "query_get_all ?q name = Some (Inr (found (map fst ps) (name @ ''[]'')))"
    using get_all_found [OF k2v [OF all_ok], of "length ps + 1" 0] found_length [of "map fst ps" "name @ ''[]''"]
    by (simp add: query_get_all_def plain_names)
  ultimately show ?thesis using q by blast
qed

text \<open>C24: query strings. In a URL with at most 256 pairs of a key, an equals sign and a value, escaped in
  any way and separated by \<open>&\<close>, a plain name is looked up as the first pair whose unescaped key it is, and
  \<open>getAll\<close> gives the values of every pair whose unescaped key is the name with brackets, in their order;
  a value is read up to its first malformed escape. Any pair may have a \<open>#\<close> and more text up to the next
  \<open>&\<close> behind it, which is no part of its value. So the fragment of the URL does not end the query: what
  follows an \<open>&\<close> in the fragment is looked up like the pairs before it.\<close>

theorem query_lookup:
  assumes "path_ok path" "list_all piece_ok ps" "ps \<noteq> []" "length ps \<le> 256" "name_ok name"
  shows "\<exists>q. query_string (path @ ''?'' @ join_pieces ps) = Inr q \<and>
    query_get q name = Inr (case found (map fst ps) name of [] \<Rightarrow> None | v # _ \<Rightarrow> Some v) \<and>
    query_get_all q name = Some (Inr (found (map fst ps) (name @ ''[]'')))"
  using query_lookup_core [OF assms] .

theorem query_lookup_witness:
  "\<exists>q. query_string ''/x?a%20b=1+2&c[]=%41#top&d=3'' = Inr q \<and> query_get q ''d'' = Inr (Some ''3'') \<and>
     query_get_all q ''d'' = Some (Inr [])"
proof -
  let ?ps = "[((''a%20b'', ''1+2''), []), ((''c[]'', ''%41''), ''#top''), ((''d'', ''3''), [])]"
  have "found (map fst ?ps) ''d'' = [''3''] \<and> found (map fst ?ps) ''d[]'' = []" by code_simp
  then show ?thesis using query_lookup [of "''/x''" ?ps "''d''"]
    by (simp add: path_ok_def frag_ok_def name_ok_def qs_is_chr_def del: found.simps)
qed

lemma query_url_pieces: "ps \<noteq> [] \<Longrightarrow> query_url path ps f = path @ ''?'' @ join_pieces (frag_pieces ps f)"
  by (simp add: query_url_def frag_pieces_facts)

text \<open>C25: too many pairs. The array has room for 256 pointers; the query of a URL with more pairs makes
  the parser follow the pointer behind the array.\<close>

theorem query_too_many:
  assumes "path_ok path" "list_all pair_ok ps" "frag_ok f" "256 < length ps"
  shows "query_string (query_url path ps f) = Inl OutOfBoundsRead"
proof -
  have ne: "ps \<noteq> []" using assms(4) by auto
  let ?ps = "frag_pieces ps f"
  note ok = frag_pieces_facts(3) [OF assms(2,3)] frag_pieces_facts(4) [OF ne, of f]
  obtain m where "decode_pairs ((path @ ''?'') @ join_pieces ?ps @ [NUL]) (take max_arguments (starts (length (path @ ''?'')) ?ps)) = Inr m"
    using decode_some [OF ok(2,1)] by blast
  moreover have "length ?ps = length ps" using arg_cong [OF frag_pieces_facts(2) [of ps f], of length] by simp
  ultimately show ?thesis using query_string_split [OF assms(1) ok] assms(4) query_url_pieces [OF ne, of path f]
    by (simp add: max_arguments_def)
qed

theorem query_too_many_witness:
  "query_string (query_url ''/'' (replicate 257 (''a'', ''1'')) []) = Inl OutOfBoundsRead"
  by (rule query_too_many) (simp_all add: path_ok_def frag_ok_def list_all_iff qs_is_chr_def)

section \<open>Encoded by the client\<close>

definition enc_text :: "string \<Rightarrow> string" where
  "enc_text s = string_of_bytes (url_enc (bytes_of_string s))"

lemma hex_digit_chr:
  assumes "n < (16 :: byte)"
  shows "is_xdigit (char_of_byte (hex_digit n)) \<and> qs_hex2dec (char_of_byte (hex_digit n)) = unat n"
proof -
  have "map qs_hex2dec hexchars = [0..<16]" "list_all is_xdigit hexchars" "length hexchars = 16"
    by (simp_all add: hexchars_def qs_hex2dec_def char_class_defs upt_rec)
  moreover have "unat n < 16" using assms by (simp add: word_less_nat_alt)
  ultimately have "is_xdigit (hexchars ! unat n)" "map qs_hex2dec hexchars ! unat n = [0..<16] ! unat n"
    by (simp_all add: list_all_length)
  then show ?thesis using \<open>unat n < 16\<close> \<open>length hexchars = 16\<close> by (simp add: hex_digit_def)
qed

lemma nibbles_sum: "unat (drop_bit 4 (b AND 0xF0 :: byte)) * 16 + unat (b AND 0x0F) = unat b"
  by (rule all_bytes [where P = "\<lambda>b. unat (drop_bit 4 (b AND 0xF0)) * 16 + unat (b AND 0x0F) = unat b"]) code_simp

lemma escape_chars: "\<exists>y z. escape b = [37, y, z] \<and> is_xdigit (char_of_byte y) \<and> is_xdigit (char_of_byte z) \<and>
    qs_hex_char (char_of_byte y) (char_of_byte z) = char_of_byte b"
  using hex_digit_chr [OF nibbles(1), of b] hex_digit_chr [OF nibbles(2), of b] nibbles_sum [of b]
  by (simp add: escape_def qs_hex_char_def char_of_byte_def)

lemma plain_chars: "plain b \<Longrightarrow> char_of_byte b \<noteq> NUL \<Longrightarrow> qs_is_chr (char_of_byte b) \<and> char_of_byte b \<notin> {CHR ''+'', CHR ''%''}"
proof -
  have "is_alnum c \<or> c \<in> set (''-_.~'' @ [NUL]) \<Longrightarrow> c \<noteq> NUL \<Longrightarrow> qs_is_chr c \<and> c \<notin> {CHR ''+'', CHR ''%''}" for c
    by (auto simp: qs_is_chr_def char_class_defs)
  then show "plain b \<Longrightarrow> char_of_byte b \<noteq> NUL \<Longrightarrow> qs_is_chr (char_of_byte b) \<and> char_of_byte b \<notin> {CHR ''+'', CHR ''%''}"
    unfolding plain_def by blast
qed

lemma xdigit_chr: "is_xdigit c \<Longrightarrow> qs_is_chr c"
  by (auto simp: char_class_defs qs_is_chr_def)

lemma enc_text_read:
  "NUL \<notin> set s \<Longrightarrow> list_all qs_is_chr (enc_text s) \<and> unescape (enc_text s) = Some s \<and> decoded (enc_text s) = s"
proof (induction s)
  case Nil
  then show ?case by (simp add: enc_text_def bytes_of_string_def string_of_bytes_def)
next
  case (Cons c s)
  let ?b = "byte_of_char c"
  have IH: "list_all qs_is_chr (enc_text s)" "unescape (enc_text s) = Some s" "decoded (enc_text s) = s" using Cons by auto
  have e: "enc_text (c # s) = string_of_bytes (if \<not> plain ?b then escape ?b else [?b]) @ enc_text s"
    by (simp add: enc_text_def bytes_of_string_def string_of_bytes_def)
  show ?case
  proof (cases "plain ?b")
    case True
    have "c \<noteq> NUL" using Cons.prems by auto
    then have "qs_is_chr c" "c \<noteq> CHR ''+''" "c \<noteq> CHR ''%''" using plain_chars [OF True] by simp_all
    then show ?thesis using e True IH by (simp add: string_of_bytes_def)
  next
    case False
    obtain y z where yz: "escape ?b = [37, y, z]" "is_xdigit (char_of_byte y)" "is_xdigit (char_of_byte z)"
        "qs_hex_char (char_of_byte y) (char_of_byte z) = c"
      using escape_chars [of ?b] by auto
    have "char_of_byte 37 = CHR ''%''" by code_simp
    then have "enc_text (c # s) = CHR ''%'' # char_of_byte y # char_of_byte z # enc_text s"
      using e False yz(1) by (simp add: string_of_bytes_def)
    moreover have "qs_is_chr (CHR ''%'')" by (simp add: qs_is_chr_def)
    ultimately show ?thesis using yz(2-4) xdigit_chr IH by simp
  qed
qed

definition enc_pair :: "pair \<Rightarrow> pair" where
  "enc_pair = (\<lambda>(k, v). (enc_text k, enc_text v))"

lemma found_enc:
  "\<forall>(k, v) \<in> set ps. NUL \<notin> set k \<and> NUL \<notin> set v \<Longrightarrow> found (map enc_pair ps) name = [v. (k, v) \<leftarrow> ps, k = name]"
  by (induction ps) (auto simp: enc_pair_def enc_text_read c_str_id)

text \<open>C11: what a client encodes is what the server reads. For any nonempty list of at most 256 keys and values
  without terminators in them, the query of the texts that \<open>URL::encode\<close> writes for them gives for a
  plain name the value of the first key that is the name, and for a list the values of every key with
  the brackets, as they were.\<close>

theorem query_of_encoded:
  assumes "path_ok path" "\<forall>(k, v) \<in> set ps. NUL \<notin> set k \<and> NUL \<notin> set v" "ps \<noteq> []" "length ps \<le> 256" "name_ok name"
  shows "\<exists>q. query_string (query_url path (map enc_pair ps) []) = Inr q \<and> query_get q name = Inr (map_of ps name) \<and>
    query_get_all q name = Some (Inr [v. (k, v) \<leftarrow> ps, k = name @ ''[]''])"
proof -
  let ?es = "frag_pieces (map enc_pair ps) []"
  have ne: "map enc_pair ps \<noteq> []" using assms(3) by simp
  have "list_all pair_ok (map enc_pair ps)" using assms(2) enc_text_read by (auto simp: list_all_iff enc_pair_def)
  then have "list_all piece_ok ?es" by (intro frag_pieces_facts(3)) (simp_all add: frag_ok_def)
  moreover have "length ?es = length ps" using arg_cong [OF frag_pieces_facts(2) [of "map enc_pair ps" "[]"], of length] by simp
  moreover have "(case [v. (k, v) \<leftarrow> ps, k = name] of [] \<Rightarrow> None | v # _ \<Rightarrow> Some v) = map_of ps name" by (induction ps) auto
  ultimately show ?thesis
    using query_lookup_core [OF assms(1), of ?es name] assms(4,5) found_enc [OF assms(2)] query_url_pieces [OF ne, of path "[]"]
      frag_pieces_facts(4) [OF ne, of "[]"] by (simp add: frag_pieces_facts(2))
qed

theorem query_of_encoded_witness:
  "\<exists>q. query_string (query_url ''/find'' (map enc_pair [(''q'', ''a&b=c''), (''n'', ''100%'')]) []) = Inr q \<and>
     query_get q ''q'' = Inr (Some ''a&b=c'')"
  using query_of_encoded [of "''/find''" "[(''q'', ''a&b=c''), (''n'', ''100%'')]" "''q''"]
  by (auto simp: path_ok_def name_ok_def qs_is_chr_def)

end
