(* ===== verification/Spec2Isabelle.thy ===== *)
theory Spec2Isabelle
  imports Hex Buffer_Store Base64 Url Str Wire Utf8 Json Json_Grammar Json_Codec Json_Object Smtp_Protocol Routing Websock Mustache_Syntax Query_String
begin

text \<open>
  A verification development for suil, a C++ library for network services (directory \<open>src/libs\<close>).

  \<^bold>\<open>The program.\<close> \<open>libs/base\<close> has the buffers, strings and codecs everything else is written with;
  \<open>libs/network\<close> has sockets and an SMTP server and client; \<open>libs/http\<close> an HTTP server with a router,
  web sockets and files, and an HTTP client; \<open>libs/database\<close>, \<open>libs/rpc\<close> and \<open>libs/sawtooth\<close> have clients
  of other services. A service is a set of objects that own buffers and call each other; coroutines
  switch only at socket operations, so an operation between two of them is a function of the state.

  \<^bold>\<open>How it is modelled.\<close> A class is a record, an enumeration a datatype, an operation a function from the
  state to the state after it. An exception, a read or write outside an allocation, a null dereference
  and an unbounded recursion are the \<open>Inl\<close> of a result (\<open>exn\<close> in theory \<open>Suil_Prelude\<close>), so that a
  theorem that an operation gives \<open>Inr\<close> says that none of them happens. Sizes that the code keeps in 32
  bits are truncated where it truncates them (\<open>u32\<close>), conversions to \<open>int\<close> may be negative (\<open>int32\<close>), an
  \<open>int\<close> counter that overflows is the error \<open>IntegerOverflow\<close>, unsigned subtractions wrap (\<open>sub64\<close>). Where
  a definition has a natural number for an \<open>int\<close> index of the code, its comment gives the bound and the
  properties that rest on it assume it. What the library
  gets from outside is a parameter: the allocator, the clock, \<open>strtod\<close> and \<open>printf\<close> on floating point
  numbers, the application's handlers. A socket is the list of what its reads give.

  \<^bold>\<open>The theories and the code.\<close>
  \<^item> \<open>Suil_Prelude\<close>: bytes, characters, exceptions, the C string functions, and the interfaces below.
  \<^item> \<open>Hex\<close>: the digits and hexadecimal texts of \<open>base/src/utils.cpp\<close>, \<open>string.cpp\<close>.
  \<^item> \<open>Buffer_Store\<close>: \<open>Buffer\<close>, \<open>base/src/buffer.cpp\<close>. \<open>buf_ok\<close> is its invariant, \<open>contents\<close> what it holds.
  \<^item> \<open>Base64\<close>, \<open>Url\<close>: \<open>base/src/base64.cpp\<close> and \<open>url.cpp\<close>, into a buffer.
  \<^item> \<open>Str\<close>: \<open>String\<close>, \<open>base/src/string.cpp\<close>; a string is a view of memory that may go on behind it.
  \<^item> \<open>Wire\<close>: \<open>VarInt\<close>, the wire operators and the boards of \<open>wire.cpp\<close>, \<open>wire.hpp\<close>, \<open>varint.cpp\<close>.
  \<^item> \<open>Utf8\<close>, \<open>Json\<close>, \<open>Json_Object\<close>: \<open>base/src/json.cpp\<close>: characters, the parser, the validator (the same
    functions called without a place for the result, as definitions of their own) and the printers, and
    the operations of \<open>json::Object\<close>. \<open>Json_Grammar\<close> is the reference grammar and \<open>Json_Codec\<close> the proofs
    that the parser decides it, the validator agrees and the printers write it.
  \<^item> \<open>Mustache\<close>: the templates of \<open>base/src/mustache.cpp\<close>, parser, renderer and cache. \<open>Mustache_Parse\<close> has
    what the parser keeps inside the template's memory, \<open>Mustache_Render\<close> the reference semantics and the
    renderer against it, \<open>Mustache_Syntax\<close> the concrete syntax, includes through the cache, and the
    properties.
  \<^item> \<open>Smtp_Session\<close>, \<open>Smtp_Context\<close>, \<open>Smtp_Protocol\<close>: the SMTP server of \<open>network/src/smtp\<close> in the order
    session and commands, one function per handler, the loop of a connection; \<open>Smtp_Handlers\<close> has what the
    handlers do one by one.
  \<^item> \<open>Route_Trie\<close>: \<open>http/src/server/trie.cpp\<close>. \<open>Route_Paths\<close> has what the nodes stand for, \<open>Route_Find\<close> that
    the search finds the least matching rule, \<open>Route_Optimize\<close> that optimizing keeps the routes and
    \<open>Route_Table\<close> the three together.
  \<^item> \<open>Http_Message\<close>: methods, header fields, cookies, the response and how a connection writes it
    (\<open>http/src/common.cpp\<close>, \<open>cookie.cpp\<close>, \<open>server/response.cpp\<close>, \<open>server/connection.cpp\<close>).
  \<^item> \<open>Router\<close>: rules, parameter tags and the router (\<open>server/router.cpp\<close>, \<open>rules.cpp\<close>, \<open>rules.hpp\<close>,
    \<open>crow.hpp\<close>), over the trie and the messages; \<open>Routing\<close> has what it promises.
  \<^item> \<open>Query_String\<close>: \<open>server/qs.cpp\<close>, the parsing of a query in place and the lookups by name.
  \<^item> \<open>Websock\<close>: \<open>server/websock.cpp\<close>, over buffers, Base64 and messages.

  \<^bold>\<open>Interfaces.\<close> Three locales of the prelude state what components rely on, and each is interpreted on the
  code's own operations: \<open>codec\<close> (a decoder undoes an encoder) on hexadecimal texts, both Base64 alphabets
  and percent encoding; \<open>prefix_codec\<close> (a reader takes exactly one encoding from what is unread) on the
  wire operators for numbers, byte strings and values; \<open>byte_sink\<close> (appending what fits) on buffers and
  boards.

  \<^bold>\<open>What the lemmas show.\<close> Invariants: every append keeps a buffer well formed and adds to its contents; a
  board is a queue of values; the SMTP session state and the protocol loop stay in step; the length a
  response announces and, after \<open>clear\<close>, the bytes it counts too many. Equivalence: UTF-8, JSON and SMTP command parsing against reference grammars.
  Round trips: hexadecimal, Base64, percent encoding, wire values, JSON, SMTP replies, web socket
  conversations. Dispatch: registration, trie, search and handlers composed, for every rule set and
  URL. Where the code departs from its documentation or reads outside its memory, the property says
  exactly when.

  \<^bold>\<open>Bounds and fuel.\<close> Loops over a text recurse on it. Fuel stands where the code's recursion is not
  structural, and a property says that the amount given is enough: the JSON parser has the length of
  the text plus one, since a nested value is shorter; \<open>find_at\<close> has the length of the URL plus one, since
  every call but the last takes a character; \<open>optimize\<close> and \<open>gather\<close> have more than the number of nodes,
  which bounds the depth of a tree; \<open>handle_socket\<close> has the length of the input plus one, since a frame
  takes two bytes; \<open>write_piece\<close> has the size of the chunk plus one, since a piece is not empty; rendering
  a template whose files have at most \<open>M\<close> tags and include each other at most \<open>r\<close> deep takes \<open>r * (M + 2)\<close>
  nested calls, the template's own tags and two. The
  searches of \<open>String\<close> from the end and \<open>split\<close> may run forever: there the fuel that runs out is a result
  of its own, and the property says which arguments give it. The router's theorems are for rules
  of at most 24 parameters, what a parameter tag has room for, and URLs that leave the container's
  eight-bit capacity below 128; web socket conversations for messages of at most 125 bytes, the
  longest that the code receives.

  \<^bold>\<open>Not modelled.\<close> System calls and wrappers of other libraries (sockets, processes, files, consoles,
  OpenSSL, secp256k1, libpq, ZeroMQ, protocol buffers); third-party code kept in the tree (\<open>llhttp\<close>,
  \<open>dtoa\<close>); the code generators, which print C++ from the parse trees of a library that is not in the
  repository; template machinery that only forwards. Of the library's own logic these parts are left out:
  command line arguments, requests and forms, the parsing of cookies, the receive loop and the
  middlewares of the HTTP server, the file server, the HTTP, SMTP, Redis, PostgreSQL, RPC and Sawtooth
  clients.
\<close>

end
